(* ===== verification/Go_Prelude.thy ===== *)
theory Go_Prelude
  imports "HOL-Library.Word" "HOL-Library.AList"
begin

text \<open>
  The Go notions every component shares: the outcome of a call (a value, a returned error, a
  run-time panic), byte slices with the writes the code performs on them, the big-endian
  integers of \<^verbatim>\<open>encoding/binary\<close>, the 4-byte and 16-byte forms of \<^verbatim>\<open>net.IP\<close>, and Go's
  maps. The interfaces \<open>go_map\<close> and \<open>codec\<close> are stated here as locales; the map is
  interpreted here, the codecs in the theories of the three packet formats.
\<close>

unbundle bit_operations_syntax

named_theorems go_simps "unfolding rules of the byte-slice operations"

section \<open>Outcomes\<close>

text \<open>
  A Go call returns a value, returns a non-nil error, or panics (index or slice bounds out of
  range, nil dereference). No goroutine of this program recovers, so a panic ends the process.
\<close>

datatype ('e, 'a) outcome = Ok 'a | Err 'e | Panic

fun obind :: "('e, 'a) outcome \<Rightarrow> ('a \<Rightarrow> ('e, 'b) outcome) \<Rightarrow> ('e, 'b) outcome" where
  "obind (Ok x) f = f x"
| "obind (Err e) f = Err e"
| "obind Panic f = Panic"

text \<open>A sequence of statements on one value, stopping at the first that does not succeed.\<close>

fun run_stmts :: "('a \<Rightarrow> ('e, 'a) outcome) list \<Rightarrow> 'a \<Rightarrow> ('e, 'a) outcome" where
  "run_stmts [] x = Ok x"
| "run_stmts (s # ss) x = obind (s x) (run_stmts ss)"

lemma obind_Ok_iff: "obind r f = Ok y \<longleftrightarrow> (\<exists>x. r = Ok x \<and> f x = Ok y)"
  by (cases r) auto

lemma obind_Panic_iff: "obind r f = Panic \<longleftrightarrow> r = Panic \<or> (\<exists>x. r = Ok x \<and> f x = Panic)"
  by (cases r) auto

lemma obind_Err_iff: "obind r f = Err e \<longleftrightarrow> r = Err e \<or> (\<exists>x. r = Ok x \<and> f x = Err e)"
  by (cases r) auto

lemma run_stmts_append: "run_stmts (ss @ ts) x = obind (run_stmts ss x) (run_stmts ts)"
proof (induction ss arbitrary: x)
  case (Cons s ss)
  then show ?case by (cases "s x") auto
qed simp

section \<open>Bytes and big-endian integers\<close>

type_synonym byte = "8 word"
type_synonym bytes = "byte list"

definition be16 :: "byte \<Rightarrow> byte \<Rightarrow> 16 word" where
  "be16 b0 b1 = ucast b1 OR push_bit 8 (ucast b0)"

definition be32 :: "byte \<Rightarrow> byte \<Rightarrow> byte \<Rightarrow> byte \<Rightarrow> 32 word" where
  "be32 b0 b1 b2 b3 =
     ucast b3 OR push_bit 8 (ucast b2) OR push_bit 16 (ucast b1) OR push_bit 24 (ucast b0)"

definition put_be16 :: "16 word \<Rightarrow> bytes" where
  "put_be16 v = [ucast (drop_bit 8 v), ucast v]"

definition put_be32 :: "32 word \<Rightarrow> bytes" where
  "put_be32 v = [ucast (drop_bit 24 v), ucast (drop_bit 16 v), ucast (drop_bit 8 v), ucast v]"

text \<open>Reads of a big-endian integer at an offset; every use is guarded by a length check.\<close>

definition get16 :: "bytes \<Rightarrow> nat \<Rightarrow> 16 word" where
  "get16 raw i = be16 (raw ! i) (raw ! (i + 1))"

definition get32 :: "bytes \<Rightarrow> nat \<Rightarrow> 32 word" where
  "get32 raw i = be32 (raw ! i) (raw ! (i + 1)) (raw ! (i + 2)) (raw ! (i + 3))"

lemma unat_byte_less: "unat (b :: byte) < 256"
  using unsigned_less [of b, where ?'a = nat] by simp

lemma bit_byte_beyond [simp]: "8 \<le> n \<Longrightarrow> \<not> bit (b :: byte) n"
  using bit_imp_le_length [of b n] by auto

lemma bit_unat_less:
  assumes "unat (x :: 'a::len word) < 2 ^ k" "bit x n"
  shows "n < k"
proof -
  have "bit (unat x) n" using assms(2) by (simp add: bit_unsigned_iff)
  moreover have "take_bit k (unat x) = unat x" using assms(1) by (rule take_bit_nat_eq_self)
  ultimately show ?thesis by (metis bit_take_bit_iff)
qed

lemma unat_be16: "unat (be16 b0 b1) = 256 * unat b0 + unat b1"
proof -
  have "be16 b0 b1 = ucast b1 + push_bit 8 (ucast b0)"
    unfolding be16_def
    by (rule disjunctive_add [symmetric]) (auto simp: bit_simps)
  also have "unat \<dots> = 256 * unat b0 + unat b1"
    using unat_byte_less [of b0] unat_byte_less [of b1]
    by (simp add: push_bit_eq_mult unat_word_ariths unsigned_ucast_eq take_bit_eq_mod)
  finally show ?thesis .
qed

lemma be16_put [simp]: "be16 (ucast (drop_bit 8 v)) (ucast v) = (v :: 16 word)"
  by (rule bit_word_eqI) (auto simp: be16_def bit_simps)

lemma put_be16_be16 [simp]: "put_be16 (be16 b0 b1) = [b0, b1]"
  unfolding put_be16_def be16_def by (auto intro!: bit_word_eqI simp: bit_simps)

lemma be32_put [simp]:
  "be32 (ucast (drop_bit 24 v)) (ucast (drop_bit 16 v)) (ucast (drop_bit 8 v)) (ucast v)
   = (v :: 32 word)"
proof (rule bit_word_eqI)
  fix n :: nat
  assume "n < LENGTH(32)"
  then consider "n < 8" | "8 \<le> n" "n < 16" | "16 \<le> n" "n < 24" | "24 \<le> n" "n < 32"
    by fastforce
  then show "bit (be32 (ucast (drop_bit 24 v)) (ucast (drop_bit 16 v))
      (ucast (drop_bit 8 v)) (ucast v)) n = bit v n"
    by cases (auto simp: be32_def bit_simps)
qed

lemma put_be32_be32 [simp]: "put_be32 (be32 b0 b1 b2 b3) = [b0, b1, b2, b3]"
  unfolding put_be32_def be32_def by (auto intro!: bit_word_eqI simp: bit_simps)

lemma length_put_be [simp]: "length (put_be16 v) = 2" "length (put_be32 w) = 4"
  by (simp_all add: put_be16_def put_be32_def)

lemma put_be16_nth: "put_be16 v = [a, b] \<Longrightarrow> be16 a b = v"
  by (auto simp: put_be16_def)

section \<open>Writes to a byte slice\<close>

text \<open>
  \<open>buf[i] = b\<close>, \<open>copy(buf[lo:hi], src)\<close>, \<open>copy(buf[lo:], src)\<close> and the two \<open>Put\<close>s of
  \<^verbatim>\<open>binary.BigEndian\<close>. The buffers come from \<open>make\<close>, so their capacity is their length and an
  index or bound beyond the length panics. \<open>copy\<close> moves as many bytes as both sides have.
\<close>

definition buf_set :: "nat \<Rightarrow> byte \<Rightarrow> bytes \<Rightarrow> ('e, bytes) outcome" where
  "buf_set i b buf = (if i < length buf then Ok (buf[i := b]) else Panic)"

definition buf_copy :: "nat \<Rightarrow> nat \<Rightarrow> bytes \<Rightarrow> bytes \<Rightarrow> ('e, bytes) outcome" where
  "buf_copy lo hi src buf =
     (if lo \<le> hi \<and> hi \<le> length buf
      then Ok (take lo buf @ take (hi - lo) src @ drop (lo + min (hi - lo) (length src)) buf)
      else Panic)"

definition buf_copy_from :: "nat \<Rightarrow> bytes \<Rightarrow> bytes \<Rightarrow> ('e, bytes) outcome" where
  "buf_copy_from lo src buf = buf_copy lo (length buf) src buf"

definition buf_put16 :: "nat \<Rightarrow> 16 word \<Rightarrow> bytes \<Rightarrow> ('e, bytes) outcome" where
  "buf_put16 i v buf = buf_copy i (i + 2) (put_be16 v) buf"

definition buf_put32 :: "nat \<Rightarrow> 32 word \<Rightarrow> bytes \<Rightarrow> ('e, bytes) outcome" where
  "buf_put32 i v buf = buf_copy i (i + 4) (put_be32 v) buf"

lemmas [go_simps] = buf_set_def buf_put16_def buf_put32_def buf_copy_def put_be16_def put_be32_def

lemma buf_copy_length: "buf_copy lo hi src buf = Ok buf' \<Longrightarrow> length buf' = length buf"
  by (auto simp: buf_copy_def split: if_splits)

lemma buf_copy_from_length: "buf_copy_from lo src buf = Ok buf' \<Longrightarrow> length buf' = length buf"
  by (auto simp: buf_copy_from_def dest: buf_copy_length)

lemma buf_copy_from_Panic_iff: "buf_copy_from lo src buf = Panic \<longleftrightarrow> length buf < lo"
  by (auto simp: buf_copy_from_def buf_copy_def)

lemma buf_copy_from_tail:
  "length xs = lo \<Longrightarrow>
   buf_copy_from lo src (xs @ ys) = Ok (xs @ take (length ys) src @ drop (length src) ys)"
  by (auto simp: buf_copy_from_def buf_copy_def min_def)

lemma replicate_20:
  "20 \<le> n \<Longrightarrow> replicate n x = [x,x,x,x,x,x,x,x,x,x,x,x,x,x,x,x,x,x,x,x] @ replicate (n - 20) x"
  using replicate_add [of 20 "n - 20" x]
  by (simp add: eval_nat_numeral(3)) (simp add: numeral_eq_Suc)

lemma length_20E:
  assumes "20 \<le> length xs"
  obtains a0 a1 a2 a3 a4 a5 a6 a7 a8 a9 b0 b1 b2 b3 b4 b5 b6 b7 b8 b9 r where
    "xs = a0 # a1 # a2 # a3 # a4 # a5 # a6 # a7 # a8 # a9 #
          b0 # b1 # b2 # b3 # b4 # b5 # b6 # b7 # b8 # b9 # r"
  using assms by (auto simp: numeral_eq_Suc Suc_le_length_iff)

lemma length_4E:
  assumes "length xs = 4"
  obtains a b c d where "xs = [a, b, c, d]"
  using assms by (auto simp: numeral_eq_Suc length_Suc_conv)

section \<open>\<open>net.IP\<close>\<close>

text \<open>
  An address is a byte slice of any length: \<open>To4\<close> yields the 4-byte form of a 4-byte address
  and of an IPv4-mapped 16-byte one, and nil (\<open>None\<close>) otherwise; \<open>net.IPv4\<close> builds the
  mapped 16-byte form.
\<close>

definition to4 :: "bytes \<Rightarrow> bytes option" where
  "to4 ip =
     (if length ip = 4 then Some ip
      else if length ip = 16 \<and> list_all (\<lambda>b. b = 0) (take 10 ip) \<and> ip ! 10 = 0xFF \<and> ip ! 11 = 0xFF
      then Some (drop 12 ip)
      else None)"

definition IPv4 :: "byte \<Rightarrow> byte \<Rightarrow> byte \<Rightarrow> byte \<Rightarrow> bytes" where
  "IPv4 a b c d = replicate 10 0 @ [0xFF, 0xFF, a, b, c, d]"

text \<open>The content of a zeroed \<open>[4]byte\<close> after \<open>copy(arr[:], ip.To4())\<close>.\<close>

definition ip4_field :: "bytes \<Rightarrow> bytes" where
  "ip4_field ip = (case to4 ip of None \<Rightarrow> replicate 4 0 | Some a \<Rightarrow> a)"

lemma to4_length: "to4 ip = Some a \<Longrightarrow> length a = 4"
  by (auto simp: to4_def split: if_splits)

lemma length_ip4_field [simp]: "length (ip4_field ip) = 4"
  by (auto simp: ip4_field_def to4_length split: option.splits)

lemma to4_id [simp]: "length ip = 4 \<Longrightarrow> to4 ip = Some ip"
  by (simp add: to4_def)

lemma ip4_field_id [simp]: "length ip = 4 \<Longrightarrow> ip4_field ip = ip"
  by (simp add: ip4_field_def)

lemma to4_IPv4 [simp]: "to4 (IPv4 a b c d) = Some [a, b, c, d]"
  by (simp add: to4_def IPv4_def numeral_eq_Suc)

lemma ip4_field_IPv4 [simp]: "ip4_field (IPv4 a b c d) = [a, b, c, d]"
  by (simp add: ip4_field_def)

section \<open>Go maps\<close>

text \<open>
  A Go map as the code uses it: lookup, insertion, \<open>delete\<close>, \<open>len\<close>, and a \<open>range\<close> over its
  entries in some order. The locale states the contract; the model's maps are association
  lists with distinct keys, and code whose result could depend on the order of a \<open>range\<close> takes
  that order as an argument.
\<close>

locale go_map =
  fixes get :: "'m \<Rightarrow> 'k \<Rightarrow> 'v option"
    and put :: "'k \<Rightarrow> 'v \<Rightarrow> 'm \<Rightarrow> 'm"
    and del :: "'k \<Rightarrow> 'm \<Rightarrow> 'm"
    and entries :: "'m \<Rightarrow> ('k \<times> 'v) list"
    and ok :: "'m \<Rightarrow> bool"
  assumes get_put: "get (put k v m) = (get m)(k \<mapsto> v)"
    and get_del: "get (del k m) = (get m)(k := None)"
    and ok_put: "ok m \<Longrightarrow> ok (put k v m)"
    and ok_del: "ok m \<Longrightarrow> ok (del k m)"
    and distinct_entries: "ok m \<Longrightarrow> distinct (map fst (entries m))"
    and map_of_entries: "map_of (entries m) = get m"
begin

lemma length_entries: "ok m \<Longrightarrow> length (entries m) = card (dom (get m))"
  using distinct_card [OF distinct_entries [of m]]
  by (simp add: dom_map_of_conv_image_fst flip: map_of_entries)

lemma finite_dom_get: "finite (dom (get m))"
  by (simp add: finite_dom_map_of flip: map_of_entries)

lemma length_put:
  "ok m \<Longrightarrow> length (entries (put k v m)) =
     (case get m k of None \<Rightarrow> Suc (length (entries m)) | Some _ \<Rightarrow> length (entries m))"
  by (auto simp: length_entries ok_put get_put finite_dom_get card_insert_if split: option.splits)

lemma length_del:
  "ok m \<Longrightarrow> get m k = Some v \<Longrightarrow> Suc (length (entries (del k m))) = length (entries m)"
  using card_Suc_Diff1 [OF finite_dom_get [of m], of k]
  by (simp add: length_entries ok_del get_del domI)

lemma get_entries_iff: "ok m \<Longrightarrow> get m k = Some v \<longleftrightarrow> (k, v) \<in> set (entries m)"
  using distinct_entries [of m] by (simp flip: map_of_entries)

end

abbreviation map_get :: "('k \<times> 'v) list \<Rightarrow> 'k \<Rightarrow> 'v option" where
  "map_get \<equiv> map_of"

abbreviation map_put :: "'k \<Rightarrow> 'v \<Rightarrow> ('k \<times> 'v) list \<Rightarrow> ('k \<times> 'v) list" where
  "map_put \<equiv> AList.update"

abbreviation map_del :: "'k \<Rightarrow> ('k \<times> 'v) list \<Rightarrow> ('k \<times> 'v) list" where
  "map_del \<equiv> AList.delete"

abbreviation map_ok :: "('k \<times> 'v) list \<Rightarrow> bool" where
  "map_ok m \<equiv> distinct (map fst m)"

interpretation gm: go_map map_get map_put map_del "\<lambda>m. m" map_ok
  by unfold_locales
    (auto simp: update_conv' delete_conv' distinct_update distinct_delete)

lemma map_put_new: "map_get m k = None \<Longrightarrow> map_put k v m = m @ [(k, v)]"
  by (induction m) (auto split: if_splits)

lemma map_put_last: "map_get m k = None \<Longrightarrow> map_put k v (m @ [(k, w)]) = m @ [(k, v)]"
  by (induction m) (auto split: if_splits)

lemma map_del_last: "map_get m k = None \<Longrightarrow> map_del k (m @ [(k, w)]) = m"
  by (induction m) (auto split: if_splits)

lemma map_get_last: "map_get m k = None \<Longrightarrow> map_get (m @ [(k, w)]) k = Some w"
  by (induction m) (auto split: if_splits)

lemma map_get_filter:
  "map_ok m \<Longrightarrow> map_get (filter (\<lambda>e. P (snd e)) m) k =
     (case map_get m k of Some v \<Rightarrow> if P v then Some v else None | None \<Rightarrow> None)"
proof (induction m)
  case (Cons e m)
  have "map_get m (fst e) = None" using Cons.prems by (simp add: map_of_eq_None_iff)
  with Cons show ?case by (cases e) (auto split: option.splits)
qed simp

section \<open>Decimal numbers\<close>

text \<open>What \<open>%d\<close> prints for a natural number.\<close>

fun dec :: "nat \<Rightarrow> string" where
  "dec n = (if n < 10 then [char_of (48 + n)] else dec (n div 10) @ [char_of (48 + n mod 10)])"

declare dec.simps [simp del]

lemma dec_nonempty: "dec n \<noteq> []"
  by (subst dec.simps) simp

lemma digit_char_inj:
  assumes "char_of (48 + m :: nat) = (char_of (48 + n :: nat) :: char)" "m < 10" "n < 10"
  shows "m = n"
  using arg_cong [OF assms(1), of "of_char :: char \<Rightarrow> nat"] assms(2,3) by simp

lemma dec_inj: "dec m = dec n \<Longrightarrow> m = n"
proof (induction m arbitrary: n rule: dec.induct)
  case (1 m)
  show ?case
  proof (cases "m < 10")
    case True
    then have "n < 10" using 1(2) dec.simps [of m] dec.simps [of n] dec_nonempty dec_nonempty [symmetric] by (auto split: if_splits)
    then show ?thesis using 1(2) True dec.simps [of m] dec.simps [of n] digit_char_inj by simp
  next
    case False
    then have "\<not> n < 10" using 1(2) dec.simps [of m] dec.simps [of n] dec_nonempty dec_nonempty [symmetric] by (auto split: if_splits)
    then have e: "dec (m div 10) = dec (n div 10)" "char_of (48 + m mod 10) = (char_of (48 + n mod 10) :: char)"
      using 1(2) False dec.simps [of m] dec.simps [of n] by simp_all
    have "m div 10 = n div 10" using 1(1) [OF False e(1)] .
    moreover have "m mod 10 = n mod 10" using e(2) by (rule digit_char_inj) simp_all
    ultimately show ?thesis by (metis div_mult_mod_eq)
  qed
qed

section \<open>Wire formats\<close>

text \<open>
  The contract of a header codec: what \<open>Marshal\<close> writes for a well-formed value, \<open>Parse\<close> reads
  back. A framed codec also finds its header in front of any payload, so the split of a packet
  into header and payload is unique.
\<close>

locale codec =
  fixes marshal :: "'h \<Rightarrow> ('e, bytes) outcome"
    and parse :: "bytes \<Rightarrow> ('e, 'h) outcome"
    and wf :: "'h \<Rightarrow> bool"
  assumes marshal_ok: "wf h \<Longrightarrow> \<exists>bs. marshal h = Ok bs"
    and parse_marshal: "wf h \<Longrightarrow> marshal h = Ok bs \<Longrightarrow> parse bs = Ok h"
begin

lemma marshal_inj:
  assumes "wf h" "wf h'" "marshal h = marshal h'"
  shows "h = h'"
proof -
  obtain bs where bs: "marshal h = Ok bs" using marshal_ok [OF assms(1)] by blast
  have "parse bs = Ok h" using assms(1) bs by (rule parse_marshal)
  moreover have "parse bs = Ok h'" using assms(2,3) bs by (intro parse_marshal) simp_all
  ultimately show ?thesis by simp
qed

end

locale framed_codec = codec +
  assumes parse_append: "wf h \<Longrightarrow> marshal h = Ok bs \<Longrightarrow> parse (bs @ payload) = Ok h"
begin

lemma frame_unique:
  assumes "wf h" "wf h'" "marshal h = Ok bs" "marshal h' = Ok bs'" "bs @ p = bs' @ p'"
  shows "h = h' \<and> p = p'"
proof -
  have "h = h'" using parse_append [OF assms(1,3), of p] parse_append [OF assms(2,4), of p'] assms(5)
    by simp
  with assms(3-5) show ?thesis by simp
qed

end

end
