(* ===== verification/Net_Ip.thy ===== *)
theory Net_Ip
  imports Go_Prelude
begin

text \<open>
  The textual form of addresses in Go's \<^verbatim>\<open>net\<close> package, as the devices, the configuration and
  the printers use it: \<open>net.ParseIP\<close> (which is \<^verbatim>\<open>netip.ParseAddr\<close> without zones) and
  \<open>IP.String\<close>. A Go string is a list of bytes, here of characters. The lemmas show that the
  dotted form of an IPv4 address parses back to it.
\<close>

section \<open>Parsing\<close>

definition is_digit :: "char \<Rightarrow> bool" where
  "is_digit c \<longleftrightarrow> 48 \<le> (of_char c :: nat) \<and> (of_char c :: nat) \<le> 57"

text \<open>
  The loop over the characters of a dotted quad. The flag says that the character is the first
  or follows a dot; then come the value and the number of digits of the current octet, and the
  octets before it.
\<close>

fun ipv4_fields :: "bool \<Rightarrow> nat \<Rightarrow> nat \<Rightarrow> bytes \<Rightarrow> string \<Rightarrow> bytes option" where
  "ipv4_fields start val digLen fields [] =
     (if length fields < 3 then None else Some (fields @ [of_nat val]))"
| "ipv4_fields start val digLen fields (c # s) =
     (if is_digit c then
        (if digLen = 1 \<and> val = 0 then None
         else let val = val * 10 + (of_char c - 48)
         in if val > 255 then None else ipv4_fields False val (digLen + 1) fields s)
      else if c = CHR ''.'' then
        (if start \<or> s = [] then None
         else if length fields = 3 then None
         else ipv4_fields True 0 0 (fields @ [of_nat val]) s)
      else None)"

definition parseIPv4 :: "string \<Rightarrow> bytes option" where
  "parseIPv4 s = ipv4_fields True 0 0 [] s"

definition hex_value :: "char \<Rightarrow> nat option" where
  "hex_value c =
     (let n = of_char c :: nat
      in if 48 \<le> n \<and> n \<le> 57 then Some (n - 48)
      else if 97 \<le> n \<and> n \<le> 102 then Some (n - 97 + 10)
      else if 65 \<le> n \<and> n \<le> 70 then Some (n - 65 + 10)
      else None)"

text \<open>One group of at most four hexadecimal digits: its length, its value, the rest.\<close>

fun hex_group :: "nat \<Rightarrow> nat \<Rightarrow> string \<Rightarrow> (nat \<times> nat \<times> string) option" where
  "hex_group off acc [] = Some (off, acc, [])"
| "hex_group off acc (c # s) =
     (case hex_value c of
        None \<Rightarrow> Some (off, acc, c # s)
      | Some v \<Rightarrow> if off > 3 then None else hex_group (off + 1) (acc * 16 + v) s)"

text \<open>The loop over the groups, with the position of the ellipsis if there was one.\<close>

function ipv6_groups :: "bytes \<Rightarrow> nat option \<Rightarrow> string \<Rightarrow> (bytes \<times> nat option \<times> string) option" where
  "ipv6_groups ip ellipsis s =
     (if 16 \<le> length ip then Some (ip, ellipsis, s)
      else case hex_group 0 0 s of
        None \<Rightarrow> None
      | Some (off, acc, r) \<Rightarrow>
          if off = 0 then None
          else if r \<noteq> [] \<and> r ! 0 = CHR ''.'' then
            (if ellipsis = None \<and> length ip \<noteq> 12 then None
             else if length ip + 4 > 16 then None
             else case parseIPv4 s of None \<Rightarrow> None | Some f \<Rightarrow> Some (ip @ f, ellipsis, []))
          else let ip = ip @ [of_nat (acc div 256), of_nat acc]
          in case r of
            [] \<Rightarrow> Some (ip, ellipsis, [])
          | c # r \<Rightarrow>
              if c \<noteq> CHR '':'' then None
              else case r of
                [] \<Rightarrow> None
              | c # r' \<Rightarrow>
                  if c \<noteq> CHR '':'' then ipv6_groups ip ellipsis r
                  else if ellipsis \<noteq> None then None
                  else if r' = [] then Some (ip, Some (length ip), [])
                  else ipv6_groups ip (Some (length ip)) r')"
  by pat_completeness auto
termination by (relation "measure (\<lambda>(ip, _, _). 16 - length ip)") auto

declare ipv6_groups.simps [simp del]

definition parseIPv6 :: "string \<Rightarrow> bytes option" where
  "parseIPv6 s =
     (if s = ''::'' then Some (replicate 16 0)
      else case (if take 2 s = ''::'' then ipv6_groups [] (Some 0) (drop 2 s) else ipv6_groups [] None s) of
        None \<Rightarrow> None
      | Some (ip, ellipsis, s) \<Rightarrow>
          if s \<noteq> [] then None
          else if length ip < 16 then
            (case ellipsis of
               None \<Rightarrow> None
             | Some k \<Rightarrow> Some (take k ip @ replicate (16 - length ip) 0 @ drop k ip))
          else if ellipsis \<noteq> None then None
          else Some ip)"

text \<open>
  The first of the three special characters decides; an address with a zone is no address for
  \<open>net.ParseIP\<close>. The result is the 16-byte form.
\<close>

definition ParseIP :: "string \<Rightarrow> bytes option" where
  "ParseIP s =
     (case find (\<lambda>c. c \<in> set ''.:%'') s of
        None \<Rightarrow> None
      | Some c \<Rightarrow>
          if c = CHR ''.'' then map_option (\<lambda>a. IPv4 (a ! 0) (a ! 1) (a ! 2) (a ! 3)) (parseIPv4 s)
          else if c = CHR '':'' \<and> CHR ''%'' \<notin> set s then parseIPv6 s
          else None)"

section \<open>Printing\<close>

definition hex_digit :: "nat \<Rightarrow> char" where
  "hex_digit n = ''0123456789abcdef'' ! n"

definition hex_byte :: "byte \<Rightarrow> string" where
  "hex_byte b = [hex_digit (unat b div 16), hex_digit (unat b mod 16)]"

definition EncodeToString :: "bytes \<Rightarrow> string" where
  "EncodeToString bs = concat (map hex_byte bs)"

text \<open>A group without leading zeros.\<close>

fun hex_nat :: "nat \<Rightarrow> string" where
  "hex_nat n = (if n < 16 then [hex_digit n] else hex_nat (n div 16) @ [hex_digit (n mod 16)])"

declare hex_nat.simps [simp del]

fun join_strings :: "string \<Rightarrow> string list \<Rightarrow> string" where
  "join_strings sep [] = []"
| "join_strings sep [x] = x"
| "join_strings sep (x # y # xs) = x @ sep @ join_strings sep (y # xs)"

definition dotted :: "bytes \<Rightarrow> string" where
  "dotted a = join_strings ''.'' (map (\<lambda>b. dec (unat b)) a)"

text \<open>The first longest run of at least two zero groups: its start and end.\<close>

definition zero_run :: "nat list \<Rightarrow> nat \<Rightarrow> nat" where
  "zero_run gs i = i + length (takeWhile (\<lambda>g. g = 0) (drop i gs))"

definition ellipsis_run :: "nat list \<Rightarrow> nat \<times> nat" where
  "ellipsis_run gs =
     fold (\<lambda>i (a, b). let j = zero_run gs i in if 2 \<le> j - i \<and> b - a < j - i then (i, j) else (a, b))
       [0..<8] (255, 255)"

definition ipv6_string :: "bytes \<Rightarrow> string" where
  "ipv6_string ip =
     (let gs = map (\<lambda>i. 256 * unat (ip ! (2 * i)) + unat (ip ! (2 * i + 1))) [0..<8];
          (a, b) = ellipsis_run gs
      in if 8 \<le> a then join_strings '':'' (map hex_nat gs)
      else join_strings '':'' (map hex_nat (take a gs)) @ ''::'' @ join_strings '':'' (map hex_nat (drop b gs)))"

definition IPString :: "bytes \<Rightarrow> string" where
  "IPString ip =
     (if ip = [] then ''<nil>''
      else if length ip \<noteq> 4 \<and> length ip \<noteq> 16 then ''?'' @ EncodeToString ip
      else case to4 ip of Some a \<Rightarrow> dotted a | None \<Rightarrow> ipv6_string ip)"

section \<open>Dotted addresses parse back\<close>

lemma of_char_digit [simp]: "d < 10 \<Longrightarrow> (of_char (char_of (48 + d :: nat)) :: nat) = 48 + d"
  by simp

lemma dec_byte:
  assumes "n < 256"
  shows "dec n =
     (if n < 10 then [char_of (48 + n)]
      else if n < 100 then [char_of (48 + n div 10), char_of (48 + n mod 10)]
      else [char_of (48 + n div 100), char_of (48 + n div 10 mod 10), char_of (48 + n mod 10)])"
proof -
  have "n div 10 div 10 = n div 100" by (simp add: div_mult2_eq [symmetric])
  moreover have "n div 100 < 10" "n div 10 < 10 \<longleftrightarrow> n < 100" using assms by auto
  ultimately show ?thesis
    by (simp add: dec.simps [of n] dec.simps [of "n div 10"] dec.simps [of "n div 100"])
qed

text \<open>One more digit of an octet.\<close>

lemma ipv4_fields_digit:
  assumes "d < 10" "\<not> (digLen = 1 \<and> val = 0)" "val * 10 + d \<le> 255"
  shows "ipv4_fields start val digLen fields (char_of (48 + d) # s) =
    ipv4_fields False (val * 10 + d) (digLen + 1) fields s"
proof -
  have "is_digit (char_of (48 + d))" using assms(1) by (simp add: is_digit_def)
  then show ?thesis using assms by (auto simp: Let_def)
qed

lemma ipv4_fields_dec:
  assumes "n < 256"
  shows "ipv4_fields start 0 0 fields (dec n @ s) = ipv4_fields False n (length (dec n)) fields s"
proof -
  have q: "n div 100 * 10 + n div 10 mod 10 = n div 10" "n div 10 * 10 + n mod 10 = n"
    by (simp_all add: div_mult2_eq [of n 10 10, simplified] mult.commute)
  consider "n < 10" | "10 \<le> n" "n < 100" | "100 \<le> n" by linarith
  then show ?thesis
  proof cases
    case 1
    then show ?thesis using assms by (simp add: dec_byte ipv4_fields_digit del: ipv4_fields.simps)
  next
    case 2
    then have "n div 10 < 10" "0 < n div 10" by (auto simp: div_greater_zero_iff)
    with 2 assms q show ?thesis by (simp add: dec_byte ipv4_fields_digit del: ipv4_fields.simps)
  next
    case 3
    then have "n div 100 < 10" "0 < n div 100" "n div 10 \<le> 255" "n div 10 mod 10 < 10"
      using assms by (auto simp: div_greater_zero_iff)
    moreover have "dec n = [char_of (48 + n div 100), char_of (48 + n div 10 mod 10), char_of (48 + n mod 10)]"
      using dec_byte [OF assms] 3 by simp
    ultimately show ?thesis using assms q by (simp add: ipv4_fields_digit del: ipv4_fields.simps)
  qed
qed

lemma ipv4_fields_dot:
  assumes "s \<noteq> []" "length fields < 3"
  shows "ipv4_fields False val digLen fields (CHR ''.'' # s) = ipv4_fields True 0 0 (fields @ [of_nat val]) s"
  using assms by (simp add: is_digit_def)

lemma ipv4_fields_dec_dot:
  assumes "n < 256" "s \<noteq> []" "length fields < 3"
  shows "ipv4_fields True 0 0 fields (dec n @ CHR ''.'' # s) = ipv4_fields True 0 0 (fields @ [of_nat n]) s"
  using assms by (simp add: ipv4_fields_dec ipv4_fields_dot del: ipv4_fields.simps)

lemma dotted_4: "dotted [a, b, c, d] = dec (unat a) @ CHR ''.'' # dec (unat b) @ CHR ''.'' # dec (unat c)
    @ CHR ''.'' # dec (unat d)"
  by (simp add: dotted_def)

lemma parseIPv4_dotted:
  assumes "length a = 4"
  shows "parseIPv4 (dotted a) = Some a"
proof -
  obtain w x y z where a: "a = [w, x, y, z]" using assms by (rule length_4E)
  have "ipv4_fields True 0 0 [w, x, y] (dec (unat z)) = Some [w, x, y, z]"
    using ipv4_fields_dec [of "unat z" True "[w, x, y]" "[]"] unat_byte_less [of z] by simp
  then show ?thesis
    by (simp add: a dotted_4 parseIPv4_def ipv4_fields_dec_dot unat_byte_less dec_nonempty del: ipv4_fields.simps)
qed

lemma dec_digits: "c \<in> set (dec n) \<Longrightarrow> is_digit c"
proof (induction n rule: dec.induct)
  case (1 n)
  have "is_digit (char_of (48 + k))" if "k < 10" for k :: nat
    using that by (simp add: is_digit_def)
  with 1 show ?case by (subst (asm) dec.simps) (auto split: if_splits)
qed

lemma find_dec: "find (\<lambda>c. c \<in> set ''.:%'') (dec n @ s) = find (\<lambda>c. c \<in> set ''.:%'') s"
proof -
  have "find (\<lambda>c. c \<in> set ''.:%'') (xs @ s) = find (\<lambda>c. c \<in> set ''.:%'') s"
    if "\<forall>c \<in> set xs. is_digit c" for xs
    using that by (induction xs) (auto simp: is_digit_def)
  then show ?thesis using dec_digits by blast
qed

lemma ParseIP_dotted:
  assumes "length a = 4"
  shows "ParseIP (dotted a) = Some (IPv4 (a ! 0) (a ! 1) (a ! 2) (a ! 3))"
proof -
  obtain w x y z where a: "a = [w, x, y, z]" using assms by (rule length_4E)
  have "find (\<lambda>c. c \<in> set ''.:%'') (dotted a) = Some (CHR ''.'')"
    unfolding a dotted_4 find_dec by simp
  then show ?thesis using parseIPv4_dotted [OF assms] by (simp add: ParseIP_def)
qed

end
