(* ===== verification/Ip_Header.thy ===== *)
theory Ip_Header
  imports Net_Ip
begin

text \<open>
  \<^verbatim>\<open>internal/ip/header.go\<close>: the IPv4 header, its parser and its serializer. The parser
  checks the length, the version and the total length but not a minimal IHL, so it accepts
  headers that the serializer cannot write; the lemmas say exactly where the two agree.
\<close>

section \<open>The code\<close>

definition FlagDF :: byte where "FlagDF = 0x02"
definition FlagMF :: byte where "FlagMF = 0x01"
definition ProtoICMP :: byte where "ProtoICMP = 1"
definition ProtoTCP :: byte where "ProtoTCP = 6"
definition ProtoUDP :: byte where "ProtoUDP = 17"
definition MinHeaderLen :: nat where "MinHeaderLen = 20"
definition DefaultTTL :: byte where "DefaultTTL = 64"

lemmas ip_consts = FlagDF_def FlagMF_def ProtoICMP_def ProtoTCP_def ProtoUDP_def
  MinHeaderLen_def DefaultTTL_def

text \<open>The errors of package \<^verbatim>\<open>ip\<close>, those of the builder and of the fragmenter included.\<close>

datatype ip_error = ErrTooShort | ErrInvalid | ErrPacketTooLarge | ErrDontFragment
  | ErrMTUTooSmall | ErrInvalidFragment

record ip_header =
  ip_Version :: byte
  ip_IHL :: byte
  ip_TOS :: byte
  ip_TotalLen :: "16 word"
  ip_ID :: "16 word"
  ip_Flags :: byte
  ip_FragOffset :: "16 word"
  ip_TTL :: byte
  ip_Protocol :: byte
  ip_Checksum :: "16 word"
  ip_Src :: bytes
  ip_Dst :: bytes
  ip_Options :: bytes

definition HeaderLen :: "ip_header \<Rightarrow> nat" where
  "HeaderLen h = unat (ip_IHL h) * 4"

definition ParseHeader :: "bytes \<Rightarrow> (ip_error, ip_header) outcome" where
  "ParseHeader raw =
     (if length raw < MinHeaderLen then Err ErrTooShort
      else let versionAndIHL = raw ! 0;
               version = drop_bit 4 versionAndIHL;
               ihl = versionAndIHL AND 0x0F
      in if version \<noteq> 4 then Err ErrInvalid
      else let headerLen = unat ihl * 4
      in if length raw < headerLen then Err ErrTooShort
      else let totalLen = get16 raw 2
      in if unat totalLen < headerLen then Err ErrInvalid
      else let flagsAndOffset = get16 raw 6
      in Ok \<lparr>ip_Version = version,
             ip_IHL = ihl,
             ip_TOS = raw ! 1,
             ip_TotalLen = totalLen,
             ip_ID = get16 raw 4,
             ip_Flags = ucast (drop_bit 13 flagsAndOffset),
             ip_FragOffset = flagsAndOffset AND 0x1FFF,
             ip_TTL = raw ! 8,
             ip_Protocol = raw ! 9,
             ip_Checksum = get16 raw 10,
             ip_Src = take 4 (drop 12 raw),
             ip_Dst = take 4 (drop 16 raw),
             ip_Options = (if headerLen > MinHeaderLen
                           then take (headerLen - 20) (drop 20 raw) else [])\<rparr>)"

definition Marshal :: "ip_header \<Rightarrow> (ip_error, bytes) outcome" where
  "Marshal h = run_stmts
     [buf_set 0 (push_bit 4 (ip_Version h) OR (ip_IHL h AND 0x0F)),
      buf_set 1 (ip_TOS h),
      buf_put16 2 (ip_TotalLen h),
      buf_put16 4 (ip_ID h),
      buf_put16 6 (push_bit 13 (ucast (ip_Flags h)) OR (ip_FragOffset h AND 0x1FFF)),
      buf_set 8 (ip_TTL h),
      buf_set 9 (ip_Protocol h),
      buf_put16 10 (ip_Checksum h),
      (case to4 (ip_Src h) of Some src \<Rightarrow> buf_copy 12 16 src | None \<Rightarrow> Ok),
      (case to4 (ip_Dst h) of Some dst \<Rightarrow> buf_copy 16 20 dst | None \<Rightarrow> Ok),
      (if 0 < length (ip_Options h) then buf_copy_from 20 (ip_Options h) else Ok)]
     (replicate (HeaderLen h) 0)"

text \<open>The payload slice is nil (\<open>None\<close>) when nothing follows the header.\<close>

definition Payload :: "ip_header \<Rightarrow> bytes \<Rightarrow> bytes option" where
  "Payload h raw =
     (let headerLen = HeaderLen h
      in if length raw \<le> headerLen then None else Some (drop headerLen raw))"

definition HeaderString :: "ip_header \<Rightarrow> string" where
  "HeaderString h =
     ''IPv4{Src: '' @ IPString (ip_Src h) @ '', Dst: '' @ IPString (ip_Dst h)
     @ '', Proto: '' @ dec (unat (ip_Protocol h)) @ '', TTL: '' @ dec (unat (ip_TTL h))
     @ '', Len: '' @ dec (unat (ip_TotalLen h)) @ ''}''"

text \<open>The bytes of a possibly nil slice: a nil slice has no elements.\<close>

definition slice_bytes :: "bytes option \<Rightarrow> bytes" where
  "slice_bytes s = (case s of None \<Rightarrow> [] | Some b \<Rightarrow> b)"

lemma slice_bytes_Payload: "slice_bytes (Payload h raw) = drop (HeaderLen h) raw"
  by (simp add: slice_bytes_def Payload_def Let_def)

section \<open>What the serializer writes\<close>

text \<open>The fixed 20 bytes of a header, and the options area behind them.\<close>

definition header_fixed :: "ip_header \<Rightarrow> bytes" where
  "header_fixed h =
     [push_bit 4 (ip_Version h) OR (ip_IHL h AND 0x0F), ip_TOS h]
     @ put_be16 (ip_TotalLen h) @ put_be16 (ip_ID h)
     @ put_be16 (push_bit 13 (ucast (ip_Flags h)) OR (ip_FragOffset h AND 0x1FFF))
     @ [ip_TTL h, ip_Protocol h] @ put_be16 (ip_Checksum h)
     @ ip4_field (ip_Src h) @ ip4_field (ip_Dst h)"

definition header_bytes :: "ip_header \<Rightarrow> bytes" where
  "header_bytes h =
     (let n = HeaderLen h - 20
      in header_fixed h @ take n (ip_Options h) @ replicate (n - length (ip_Options h)) 0)"

lemma length_header_fixed [simp]: "length (header_fixed h) = 20"
  by (simp add: header_fixed_def)

lemma length_header_bytes [simp]: "20 \<le> HeaderLen h \<Longrightarrow> length (header_bytes h) = HeaderLen h"
  by (auto simp: header_bytes_def Let_def min_def)

lemma Marshal_eq:
  assumes "20 \<le> HeaderLen h"
  shows "Marshal h = Ok (header_bytes h)"
proof -
  define k where "k = HeaderLen h - 20"
  define w where "w = push_bit 13 (ucast (ip_Flags h)) OR (ip_FragOffset h AND 0x1FFF)"
  define v where "v = push_bit 4 (ip_Version h) OR (ip_IHL h AND 0x0F)"
  have r: "replicate (HeaderLen h) (0 :: byte)
      = [0,0,0,0,0,0,0,0,0,0,0,0,0,0,0,0,0,0,0,0] @ replicate k 0"
    using replicate_20 [OF assms] by (simp add: k_def)
  obtain s0 s1 s2 s3 where s: "ip4_field (ip_Src h) = [s0, s1, s2, s3]"
    by (rule length_4E [OF length_ip4_field])
  obtain d0 d1 d2 d3 where d: "ip4_field (ip_Dst h) = [d0, d1, d2, d3]"
    by (rule length_4E [OF length_ip4_field])
  have m: "Marshal h = obind (Ok (header_fixed h @ replicate k 0)) (run_stmts
      [if 0 < length (ip_Options h) then buf_copy_from 20 (ip_Options h) else Ok])"
    using s d unfolding Marshal_def r header_fixed_def w_def [symmetric] v_def [symmetric]
    by (cases "to4 (ip_Src h)"; cases "to4 (ip_Dst h)")
       (simp_all add: go_simps ip4_field_def numeral_eq_Suc)
  show ?thesis
    unfolding m by (simp add: buf_copy_from_tail header_bytes_def Let_def k_def [symmetric])
qed

text \<open>A header shorter than 20 bytes cannot be written when both addresses are set.\<close>

lemma Marshal_short_panics:
  assumes "HeaderLen h < 20" "to4 (ip_Src h) \<noteq> None" "to4 (ip_Dst h) \<noteq> None"
  shows "Marshal h = Panic"
proof -
  obtain s d where sd: "to4 (ip_Src h) = Some s" "to4 (ip_Dst h) = Some d" using assms by auto
  have "unat (ip_IHL h) < 5" using assms(1) by (simp add: HeaderLen_def)
  then consider "HeaderLen h = 0" | "HeaderLen h = 4" | "HeaderLen h = 8" | "HeaderLen h = 12"
    | "HeaderLen h = 16" by (fastforce simp: HeaderLen_def)
  then show ?thesis
    by cases (simp_all add: Marshal_def sd go_simps numeral_eq_Suc to4_length [OF sd(1), simplified])
qed

section \<open>Round trips\<close>

text \<open>The two packed fields.\<close>

lemma nibbles:
  fixes v i :: byte
  shows "unat i < 16 \<Longrightarrow> (push_bit 4 v OR (i AND 0x0F)) AND 0x0F = i"
    and "unat v < 16 \<Longrightarrow> drop_bit 4 (push_bit 4 v OR (i AND 0x0F)) = v"
    and "push_bit 4 (drop_bit 4 v) OR (v AND 0x0F) = v"
proof -
  have m: "(0x0F :: byte) = mask 4" by (simp add: mask_eq_exp_minus_1)
  have b: "n < 4" if "unat x < 16" "bit x n" for x :: byte and n
    using bit_unat_less [of x 4 n] that by simp
  show "unat i < 16 \<Longrightarrow> (push_bit 4 v OR (i AND 0x0F)) AND 0x0F = i"
    using b [of i] unfolding m by (auto intro!: bit_word_eqI simp: bit_simps)
  show "unat v < 16 \<Longrightarrow> drop_bit 4 (push_bit 4 v OR (i AND 0x0F)) = v"
    using b [of v] unfolding m by (auto intro!: bit_word_eqI simp: bit_simps)
  show "push_bit 4 (drop_bit 4 v) OR (v AND 0x0F) = v"
    unfolding m by (auto intro!: bit_word_eqI simp: bit_simps)
qed

lemma flags_offset:
  fixes f :: byte and off w :: "16 word"
  shows "unat f < 8 \<Longrightarrow> ucast (drop_bit 13 (push_bit 13 (ucast f) OR (off AND 0x1FFF))) = f"
    and "(push_bit 13 (ucast f) OR (off AND 0x1FFF)) AND 0x1FFF = off AND 0x1FFF"
    and "push_bit 13 (ucast (ucast (drop_bit 13 w) :: byte)) OR (w AND 0x1FFF) = w"
proof -
  have m: "(0x1FFF :: 16 word) = mask 13" by (simp add: mask_eq_exp_minus_1)
  have b: "n < 3" if "unat x < 8" "bit x n" for x :: byte and n
    using bit_unat_less [of x 3 n] that by simp
  show "unat f < 8 \<Longrightarrow> ucast (drop_bit 13 (push_bit 13 (ucast f) OR (off AND 0x1FFF))) = f"
    using b [of f] unfolding m by (auto intro!: bit_word_eqI simp: bit_simps)
  show "(push_bit 13 (ucast f) OR (off AND 0x1FFF)) AND 0x1FFF = off AND 0x1FFF"
    unfolding m by (auto intro!: bit_word_eqI simp: bit_simps)
  show "push_bit 13 (ucast (ucast (drop_bit 13 w) :: byte)) OR (w AND 0x1FFF) = w"
    unfolding m by (auto intro!: bit_word_eqI simp: bit_simps)
qed

text \<open>The headers that fit the wire format.\<close>

definition header_wf :: "ip_header \<Rightarrow> bool" where
  "header_wf h \<longleftrightarrow>
     ip_Version h = 4 \<and> 5 \<le> unat (ip_IHL h) \<and> unat (ip_IHL h) < 16
     \<and> unat (ip_Flags h) < 8 \<and> unat (ip_FragOffset h) < 8192
     \<and> length (ip_Src h) = 4 \<and> length (ip_Dst h) = 4
     \<and> length (ip_Options h) = HeaderLen h - 20 \<and> HeaderLen h \<le> unat (ip_TotalLen h)"

lemma header_wf_HeaderLen: "header_wf h \<Longrightarrow> 20 \<le> HeaderLen h \<and> HeaderLen h \<le> 60"
  by (simp add: header_wf_def HeaderLen_def)

lemma and_1FFF: "unat (w AND (0x1FFF :: 16 word)) < 8192"
  and and_1FFF_id: "unat w < 8192 \<Longrightarrow> w AND (0x1FFF :: 16 word) = w"
proof -
  have t: "w AND 0x1FFF = take_bit 13 w" for w :: "16 word"
    by (simp add: take_bit_eq_mask mask_eq_exp_minus_1)
  have u: "unat (w AND 0x1FFF) = take_bit 13 (unat w)" for w :: "16 word"
    by (simp only: t unsigned_take_bit_eq)
  show "unat (w AND (0x1FFF :: 16 word)) < 8192" by (simp add: u take_bit_eq_mod)
  show "unat w < 8192 \<Longrightarrow> w AND (0x1FFF :: 16 word) = w"
    by (rule unsigned_word_eqI [where ?'a = nat]) (simp add: u take_bit_eq_mod)
qed

lemma and_0F: "unat (b AND (0x0F :: byte)) < 16"
proof -
  have "b AND 0x0F = take_bit 4 b" by (simp add: take_bit_eq_mask mask_eq_exp_minus_1)
  then have "unat (b AND 0x0F) = take_bit 4 (unat b)" by (simp only: unsigned_take_bit_eq)
  then show ?thesis by (simp add: take_bit_eq_mod)
qed

lemma drop_13_less: "unat (ucast (drop_bit 13 (w :: 16 word)) :: byte) < 8"
proof -
  have "unat w < 65536" using unsigned_less [of w, where ?'a = nat] by simp
  moreover have "unat (drop_bit 13 w) = unat w div 8192"
    by (simp only: unat_drop_bit_eq) (simp add: drop_bit_eq_div)
  ultimately have "unat (drop_bit 13 w) < 8" by simp
  then show ?thesis by (simp add: unsigned_ucast_eq take_bit_eq_mod)
qed

lemma header_wf_bytes:
  assumes "header_wf h"
  shows "header_bytes h = header_fixed h @ ip_Options h"
  using assms by (simp add: header_bytes_def Let_def header_wf_def)

lemma ParseHeader_header_bytes:
  assumes "header_wf h"
  shows "ParseHeader (header_bytes h @ payload) = Ok h"
proof -
  define w where "w = push_bit 13 (ucast (ip_Flags h)) OR (ip_FragOffset h AND 0x1FFF)"
  define v where "v = push_bit 4 (ip_Version h) OR (ip_IHL h AND 0x0F)"
  note wf = assms [unfolded header_wf_def]
  have v: "v AND 0x0F = ip_IHL h" "drop_bit 4 v = 4"
    using wf nibbles(1) [of "ip_IHL h" "ip_Version h"] nibbles(2) [of "ip_Version h" "ip_IHL h"]
    by (simp_all add: v_def)
  have w: "ucast (drop_bit 13 w) = ip_Flags h" "w AND 0x1FFF = ip_FragOffset h"
    using wf flags_offset(1) [of "ip_Flags h" "ip_FragOffset h"]
      flags_offset(2) [of "ip_Flags h" "ip_FragOffset h"]
    by (simp_all add: w_def and_1FFF_id)
  obtain s0 s1 s2 s3 where s: "ip_Src h = [s0, s1, s2, s3]"
    using wf by (meson length_4E)
  obtain d0 d1 d2 d3 where d: "ip_Dst h = [d0, d1, d2, d3]"
    using wf by (meson length_4E)
  have n: "unat (ip_IHL h) * 4 = HeaderLen h" by (simp add: HeaderLen_def)
  have l: "HeaderLen h - 20 = length (ip_Options h)" "20 \<le> HeaderLen h"
    using wf header_wf_HeaderLen [OF assms] by simp_all
  then have o: "length (ip_Options h) + 20 = HeaderLen h" by simp
  have e: "\<not> 20 < HeaderLen h \<Longrightarrow> ip_Options h = []"
    using o by (cases "ip_Options h") auto
  show ?thesis
    unfolding ParseHeader_def header_wf_bytes [OF assms] header_fixed_def v_def [symmetric]
      w_def [symmetric]
    using wf o
    by (auto simp: s d v w n l e get16_def put_be16_def MinHeaderLen_def Let_def
        intro!: ip_header.equality)
qed

lemma ParseHeader_Marshal:
  assumes "header_wf h" "Marshal h = Ok bs"
  shows "ParseHeader (bs @ payload) = Ok h"
  using assms ParseHeader_header_bytes [OF assms(1)] header_wf_HeaderLen [OF assms(1)]
  by (simp add: Marshal_eq)

interpretation iph: framed_codec Marshal ParseHeader header_wf
proof
  show "\<exists>bs. Marshal h = Ok bs" if "header_wf h" for h
    using header_wf_HeaderLen [OF that] by (auto simp: Marshal_eq)
  show "ParseHeader bs = Ok h" if "header_wf h" "Marshal h = Ok bs" for h bs
    using ParseHeader_Marshal [OF that, of "[]"] by simp
  show "ParseHeader (bs @ payload) = Ok h" if "header_wf h" "Marshal h = Ok bs" for h bs payload
    using that by (rule ParseHeader_Marshal)
qed

text \<open>What a successful parse guarantees.\<close>

lemma ParseHeader_OkD:
  assumes "ParseHeader raw = Ok h"
  shows "20 \<le> length raw" "HeaderLen h \<le> length raw" "ip_Version h = 4"
    "HeaderLen h \<le> unat (ip_TotalLen h)" "unat (ip_IHL h) < 16" "unat (ip_Flags h) < 8"
    "unat (ip_FragOffset h) < 8192" "length (ip_Src h) = 4" "length (ip_Dst h) = 4"
    "length (ip_Options h) = HeaderLen h - 20"
  using assms and_0F [of "raw ! 0"] drop_13_less [of "get16 raw 6"] and_1FFF [of "get16 raw 6"]
  by (auto simp: ParseHeader_def Let_def MinHeaderLen_def HeaderLen_def not_less
      split: if_splits)

lemma ParseHeader_wf:
  assumes "ParseHeader raw = Ok h" "5 \<le> unat (ip_IHL h)"
  shows "header_wf h"
  using ParseHeader_OkD [OF assms(1)] assms(2) by (simp add: header_wf_def)

lemma ParseHeader_bytes:
  assumes "ParseHeader raw = Ok h" "5 \<le> unat (ip_IHL h)"
  shows "header_bytes h = take (HeaderLen h) raw"
proof -
  have wf: "header_wf h" using assms by (rule ParseHeader_wf)
  have l: "20 \<le> HeaderLen h" "HeaderLen h \<le> length raw"
    using ParseHeader_OkD(2) [OF assms(1)] header_wf_HeaderLen [OF wf] by simp_all
  have len: "20 \<le> length raw" using l by simp
  have o: "ip_Options h = take (HeaderLen h - 20) (drop 20 raw)"
    using assms l by (auto simp: ParseHeader_def Let_def MinHeaderLen_def HeaderLen_def split: if_splits)
  have f: "header_fixed h = take 20 raw"
  proof -
    obtain a0 a1 a2 a3 a4 a5 a6 a7 a8 a9 b0 b1 b2 b3 b4 b5 b6 b7 b8 b9 r where
      raw: "raw = a0 # a1 # a2 # a3 # a4 # a5 # a6 # a7 # a8 # a9 #
                  b0 # b1 # b2 # b3 # b4 # b5 # b6 # b7 # b8 # b9 # r"
      using len by (rule length_20E)
    have "drop_bit 4 a0 = 4 \<Longrightarrow> 64 OR a0 AND 15 = a0" using nibbles(3) [of a0] by simp
    then show ?thesis
      using assms(1)
      by (auto simp: raw ParseHeader_def Let_def MinHeaderLen_def header_fixed_def get16_def
          nibbles flags_offset and_1FFF_id and_1FFF split: if_splits)
  qed
  have "take (HeaderLen h) raw = take 20 raw @ take (HeaderLen h - 20) (drop 20 raw)"
    using l take_add [of 20 "HeaderLen h - 20" raw] by simp
  then show ?thesis by (simp add: header_wf_bytes [OF wf] f o)
qed

section \<open>Properties\<close>

text \<open>
  Property C18. Every well-formed header is written without error, and parsing what was written,
  in front of any payload, gives the header back.
\<close>

theorem ParseHeader_of_Marshal:
  assumes "header_wf h"
  shows "\<exists>bs. Marshal h = Ok bs \<and> length bs = HeaderLen h
    \<and> ParseHeader (bs @ payload) = Ok h \<and> slice_bytes (Payload h (bs @ payload)) = payload"
proof -
  have l: "20 \<le> HeaderLen h" using header_wf_HeaderLen [OF assms] by simp
  obtain bs where bs: "Marshal h = Ok bs" using iph.marshal_ok [OF assms] by blast
  then have "bs = header_bytes h" using l by (simp add: Marshal_eq)
  then have "length bs = HeaderLen h" using l by simp
  then show ?thesis
    using bs iph.parse_append [OF assms bs] by (simp add: slice_bytes_Payload)
qed

definition example_header :: ip_header where
  "example_header =
     \<lparr>ip_Version = 4, ip_IHL = 6, ip_TOS = 0, ip_TotalLen = 26, ip_ID = 7, ip_Flags = 3,
      ip_FragOffset = 8191, ip_TTL = 64, ip_Protocol = 6, ip_Checksum = 9, ip_Src = [10, 0, 0, 1],
      ip_Dst = [10, 0, 0, 2], ip_Options = [1, 1, 1, 0]\<rparr>"

theorem ParseHeader_of_Marshal_witness:
  "\<exists>bs. Marshal example_header = Ok bs \<and> ParseHeader (bs @ [1, 2]) = Ok example_header"
  using ParseHeader_of_Marshal [of example_header "[1, 2]"]
  by (auto simp: example_header_def header_wf_def HeaderLen_def)

text \<open>
  The parser loses nothing: writing the header of any accepted packet with an IHL
  of at least 5 gives exactly the header bytes of the packet, and those bytes and the payload
  are the whole packet.
\<close>

theorem Marshal_of_ParseHeader:
  assumes "ParseHeader raw = Ok h" "5 \<le> unat (ip_IHL h)"
  shows "Marshal h = Ok (take (HeaderLen h) raw)
    \<and> take (HeaderLen h) raw @ slice_bytes (Payload h raw) = raw"
  using ParseHeader_bytes [OF assms] header_wf_HeaderLen [OF ParseHeader_wf [OF assms]]
  by (simp add: Marshal_eq slice_bytes_Payload)

theorem Marshal_of_ParseHeader_witness:
  "Marshal example_header = Ok ([0x46, 0, 0, 26, 0, 7, 0x7F, 0xFF, 64, 6, 0, 9, 10, 0, 0, 1, 10, 0, 0, 2,
     1, 1, 1, 0])"
proof -
  have "ParseHeader [0x46, 0, 0, 26, 0, 7, 0x7F, 0xFF, 64, 6, 0, 9, 10, 0, 0, 1, 10, 0, 0, 2,
     1, 1, 1, 0, 5, 5] = Ok example_header" by code_simp
  from Marshal_of_ParseHeader [OF this] show ?thesis by (simp add: example_header_def HeaderLen_def)
qed

text \<open>
  The errors: the parser never panics, accepts only version 4, at least 20 bytes,
  and a header that fits the packet and its total length; but it accepts an IHL below 5, and
  writing any such header panics.
\<close>

theorem ParseHeader_errors:
  "ParseHeader raw \<noteq> Panic
   \<and> (length raw < 20 \<longrightarrow> ParseHeader raw = Err ErrTooShort)
   \<and> (20 \<le> length raw \<and> drop_bit 4 (raw ! 0) \<noteq> 4 \<longrightarrow> ParseHeader raw = Err ErrInvalid)
   \<and> (ParseHeader raw = Ok h \<longrightarrow> ip_Version h = 4 \<and> HeaderLen h \<le> length raw
        \<and> HeaderLen h \<le> unat (ip_TotalLen h)
        \<and> (unat (ip_IHL h) < 5 \<longrightarrow> Marshal h = Panic))"
proof -
  have "Marshal h = Panic" if "ParseHeader raw = Ok h" "unat (ip_IHL h) < 5"
    using that ParseHeader_OkD(8,9) [OF that(1)] by (intro Marshal_short_panics) (simp_all add: HeaderLen_def)
  moreover have "ParseHeader raw \<noteq> Panic" by (simp add: ParseHeader_def Let_def)
  moreover have "20 \<le> length raw \<and> drop_bit 4 (raw ! 0) \<noteq> 4 \<longrightarrow> ParseHeader raw = Err ErrInvalid"
    "length raw < 20 \<longrightarrow> ParseHeader raw = Err ErrTooShort"
    by (auto simp: ParseHeader_def Let_def MinHeaderLen_def)
  ultimately show ?thesis using ParseHeader_OkD(2-4) [of raw h] by blast
qed

theorem ParseHeader_errors_witness:
  "Marshal (example_header\<lparr>ip_IHL := 1, ip_Options := []\<rparr>) = Panic \<and> ParseHeader [0x45] = Err ErrTooShort"
proof
  have "ParseHeader [0x41, 0, 0, 26, 0, 7, 0x7F, 0xFF, 64, 6, 0, 9, 10, 0, 0, 1, 10, 0, 0, 2]
      = Ok (example_header\<lparr>ip_IHL := 1, ip_Options := []\<rparr>)" by code_simp
  then show "Marshal (example_header\<lparr>ip_IHL := 1, ip_Options := []\<rparr>) = Panic"
    using ParseHeader_errors [of _ "example_header\<lparr>ip_IHL := 1, ip_Options := []\<rparr>"] by fastforce
  show "ParseHeader [0x45] = Err ErrTooShort"
    using ParseHeader_errors [of "[0x45]"] by simp
qed

end
