(* ===== verification/Ip_Checksum.thy ===== *)
theory Ip_Checksum
  imports Go_Prelude
begin

text \<open>
  \<^verbatim>\<open>internal/ip/checksum.go\<close>: the Internet checksum over 32-bit accumulators, with its carry
  folding loop, the combination of two checksums and the TCP checksum with its pseudo-header.
  The lemmas relate the machine arithmetic to the one's complement sum of the 16-bit words;
  the locale \<open>checksum_scheme\<close> derives from that relation what every format that carries such a
  checksum needs: a field filled with the checksum verifies, and no change of a single byte of
  a verifying message goes unnoticed.
\<close>

section \<open>The code\<close>

text \<open>\<open>uint32(data[i])<<8 | uint32(data[i+1])\<close>\<close>

definition pair32 :: "byte \<Rightarrow> byte \<Rightarrow> 32 word" where
  "pair32 a b = push_bit 8 (ucast a) OR ucast b"

text \<open>
  The loop \<open>for i := 0; i < length-1; i += 2\<close> followed by the odd trailing byte, from the
  accumulator \<open>s\<close>; the additions wrap around at 32 bits.
\<close>

fun sum_words :: "32 word \<Rightarrow> bytes \<Rightarrow> 32 word" where
  "sum_words s (a # b # rest) = sum_words (s + pair32 a b) rest"
| "sum_words s [a] = s + push_bit 8 (ucast a)"
| "sum_words s [] = s"

lemma carry_step:
  fixes s :: "32 word"
  shows "unat ((s AND 0xFFFF) + drop_bit 16 s) = unat s mod 65536 + unat s div 65536"
proof -
  have "s AND 0xFFFF = take_bit 16 s"
    by (simp add: take_bit_eq_mask mask_eq_exp_minus_1)
  then have "unat (s AND 0xFFFF) = take_bit 16 (unat s)"
    by (simp only: unsigned_take_bit_eq)
  then have lo: "unat (s AND 0xFFFF) = unat s mod 65536" by (simp add: take_bit_eq_mod)
  have hi: "unat (drop_bit 16 s) = unat s div 65536"
    by (simp only: unat_drop_bit_eq) (simp add: drop_bit_eq_div)
  have "unat s < 2 ^ 32" using unsigned_less [of s, where ?'a = nat] by simp
  then have "unat s div 65536 < 65536" by simp
  then show ?thesis by (simp add: unat_word_ariths lo hi)
qed

text \<open>The loop \<open>for sum > 0xffff\<close>, which stops because every pass makes the sum smaller.\<close>

function fold_carry :: "32 word \<Rightarrow> 32 word" where
  "fold_carry s = (if s > 0xFFFF then fold_carry ((s AND 0xFFFF) + drop_bit 16 s) else s)"
  by pat_completeness auto
termination
proof (relation "measure unat")
  fix s :: "32 word"
  assume "0xFFFF < s"
  then have "65535 < unat s" by (simp add: word_less_nat_alt)
  moreover have "unat s = 65536 * (unat s div 65536) + unat s mod 65536" by simp
  moreover have "0 < unat s div 65536" using calculation(1) by (simp add: div_greater_zero_iff)
  ultimately have "unat s mod 65536 + unat s div 65536 < unat s" by linarith
  then show "((s AND 0xFFFF) + drop_bit 16 s, s) \<in> measure unat"
    by (simp add: carry_step)
qed simp

declare fold_carry.simps [simp del]

definition Checksum :: "bytes \<Rightarrow> 16 word" where
  "Checksum data = NOT (ucast (fold_carry (sum_words 0 data)))"

definition ChecksumCombine :: "16 word \<Rightarrow> 16 word \<Rightarrow> 16 word" where
  "ChecksumCombine a b = NOT (ucast (fold_carry (ucast (NOT a) + ucast (NOT b))))"

definition VerifyChecksum :: "bytes \<Rightarrow> bool" where
  "VerifyChecksum data \<longleftrightarrow> Checksum data = 0"

text \<open>The two words of an address in the pseudo-header.\<close>

definition pseudo_addr :: "32 word \<Rightarrow> bytes \<Rightarrow> 32 word" where
  "pseudo_addr s a = s + pair32 (a ! 0) (a ! 1) + pair32 (a ! 2) (a ! 3)"

definition TCPChecksum :: "bytes \<Rightarrow> bytes \<Rightarrow> bytes \<Rightarrow> 16 word" where
  "TCPChecksum src dst tcpSegment =
     (let s = (case (to4 src, to4 dst) of
                 (Some src4, Some dst4) \<Rightarrow> pseudo_addr (pseudo_addr 0 src4) dst4
               | _ \<Rightarrow> 0);
          s = s + 6;
          s = s + of_nat (length tcpSegment)
      in NOT (ucast (fold_carry (sum_words s tcpSegment))))"

definition ICMPChecksum :: "bytes \<Rightarrow> 16 word" where
  "ICMPChecksum icmpMsg = Checksum icmpMsg"

section \<open>The one's complement sum\<close>

text \<open>
  The specification: the sum of the 16-bit big-endian words of a message (an odd last byte is
  the high half of a word), and its one's complement normal form in \<open>0..65535\<close>, which is 0 for
  the sum 0 only.
\<close>

fun word_sum :: "bytes \<Rightarrow> nat" where
  "word_sum (a # b # rest) = 256 * unat a + unat b + word_sum rest"
| "word_sum [a] = 256 * unat a"
| "word_sum [] = 0"

definition oc_norm :: "nat \<Rightarrow> nat" where
  "oc_norm n = (if n = 0 then 0 else (n - 1) mod 65535 + 1)"

lemma oc_norm_0 [simp]: "oc_norm 0 = 0"
  by (simp add: oc_norm_def)

lemma oc_norm_0_iff [simp]: "oc_norm n = 0 \<longleftrightarrow> n = 0"
  by (simp add: oc_norm_def)

lemma oc_norm_le: "oc_norm n \<le> 65535"
  using mod_less_divisor [of 65535 "n - 1"] by (simp add: oc_norm_def del: mod_less_divisor)

lemma oc_norm_max_iff: "oc_norm n = 65535 \<longleftrightarrow> 0 < n \<and> 65535 dvd n"
proof (cases n)
  case (Suc m)
  have "m mod 65535 < 65535" by simp
  then have "(m mod 65535 = 65534) = (65535 dvd Suc m)"
    by (auto simp: dvd_eq_mod_eq_0 mod_Suc)
  then show ?thesis using Suc by (simp add: oc_norm_def)
qed simp

lemma oc_norm_mod: "oc_norm n mod 65535 = n mod 65535"
proof (cases n)
  case (Suc m)
  then show ?thesis by (simp add: oc_norm_def mod_Suc_eq)
qed simp

lemma oc_norm_cong: "oc_norm (oc_norm m + n) = oc_norm (m + n)"
proof (cases m)
  case (Suc k)
  have "(k mod 65535 + n) mod 65535 = (k + n) mod 65535" by (simp add: mod_add_left_eq)
  then show ?thesis by (simp add: oc_norm_def Suc)
qed simp

lemma oc_norm_cong_both: "oc_norm (oc_norm m + oc_norm n) = oc_norm (m + n)"
  using oc_norm_cong [of m "oc_norm n"] oc_norm_cong [of n m] by (simp add: add.commute)

lemma oc_norm_step: "65535 < n \<Longrightarrow> oc_norm (n mod 65536 + n div 65536) = oc_norm n"
proof -
  assume n: "65535 < n"
  define q r where "q = n div 65536" and "r = n mod 65536"
  have e: "n = 65536 * q + r" by (simp add: q_def r_def)
  have "0 < q" using n by (simp add: q_def div_greater_zero_iff)
  then have "n - 1 = (r + q - 1) + 65535 * q" using e by simp
  then have "(n - 1) mod 65535 = (r + q - 1) mod 65535" by simp
  with \<open>0 < q\<close> n show ?thesis by (simp add: oc_norm_def flip: q_def r_def)
qed

text \<open>The carry loop computes the normal form.\<close>

lemma unat_fold_carry: "unat (fold_carry s) = oc_norm (unat s)"
proof (induction s rule: fold_carry.induct)
  case (1 s)
  show ?case
  proof (cases "0xFFFF < s")
    case True
    then have "65535 < unat s" by (simp add: word_less_nat_alt)
    with True 1 show ?thesis
      by (subst fold_carry.simps) (simp add: carry_step oc_norm_step)
  next
    case False
    then have "unat s \<le> 65535" by (simp add: word_less_nat_alt not_less)
    with False show ?thesis
      by (subst fold_carry.simps) (cases "unat s = 65535"; auto simp: oc_norm_def)
  qed
qed

subsection \<open>Sums of words\<close>

lemma unat_pair32: "unat (pair32 a b) = 256 * unat a + unat b"
proof -
  have "pair32 a b = push_bit 8 (ucast a) + ucast b"
    unfolding pair32_def by (rule disjunctive_add [symmetric]) (auto simp: bit_simps)
  also have "unat \<dots> = 256 * unat a + unat b"
    using unat_byte_less [of a] unat_byte_less [of b]
    by (simp add: push_bit_eq_mult unat_word_ariths unsigned_ucast_eq take_bit_eq_mod)
  finally show ?thesis .
qed

lemma unat_push_byte: "unat (push_bit 8 (ucast a) :: 32 word) = 256 * unat (a :: byte)"
  using unat_pair32 [of a 0] by (simp add: pair32_def)

lemma word_sum_bound: "word_sum d \<le> 65535 * ((length d + 1) div 2)"
proof (induction d rule: word_sum.induct)
  case (1 a b rest)
  then show ?case using unat_byte_less [of a] unat_byte_less [of b] by simp
next
  case (2 a)
  then show ?case using unat_byte_less [of a] by simp
qed simp

lemma word_sum_append: "even (length xs) \<Longrightarrow> word_sum (xs @ ys) = word_sum xs + word_sum ys"
  by (induction xs rule: word_sum.induct) auto

lemma word_sum_put_be16: "word_sum (put_be16 v) = unat v"
  using unat_be16 [of "ucast (drop_bit 8 v)" "ucast v"] by (simp add: put_be16_def)

text \<open>Replacing one byte changes the sum by its weight, 256 or 1.\<close>

definition byte_weight :: "nat \<Rightarrow> nat" where
  "byte_weight i = (if even i then 256 else 1)"

lemma word_sum_update:
  "i < length d \<Longrightarrow>
   word_sum (d[i := b]) + byte_weight i * unat (d ! i) = word_sum d + byte_weight i * unat b"
proof (induction d arbitrary: i rule: word_sum.induct)
  case (1 x y rest)
  consider "i = 0" | "i = 1" | j where "i = Suc (Suc j)" by (metis One_nat_def not0_implies_Suc)
  then show ?case
  proof cases
    case 3
    with "1.IH" [of j] "1.prems" show ?thesis by (simp add: byte_weight_def)
  qed (simp_all add: byte_weight_def)
qed (simp_all add: byte_weight_def)

lemma unat_sum_words:
  "unat s + word_sum d < 2 ^ 32 \<Longrightarrow> unat (sum_words s d) = unat s + word_sum d"
proof (induction s d rule: sum_words.induct)
  case (1 s a b rest)
  have "unat (s + pair32 a b) = unat s + (256 * unat a + unat b)"
    using "1.prems" by (simp add: unat_word_ariths unat_pair32)
  with 1 show ?case by simp
next
  case (2 s a)
  then show ?case by (simp add: unat_word_ariths unat_push_byte)
qed simp

lemma unat_not16: "unat (NOT (w :: 16 word)) = 65535 - unat w"
proof -
  have "NOT w = - 1 - w" by (simp add: not_eq_complement)
  then have "unat (NOT w) = unat (- 1 :: 16 word) - unat w"
    by (simp only:) (rule unat_sub, simp)
  then show ?thesis by (simp add: unsigned_minus_1_eq_mask mask_eq_exp_minus_1)
qed

lemma unat_complement:
  "unat s \<le> 65535 \<Longrightarrow> unat (NOT (ucast (s :: 32 word)) :: 16 word) = 65535 - unat s"
  by (simp add: unat_not16 unsigned_ucast_eq take_bit_eq_mod)

lemma unat_checksum_from:
  assumes "unat s + word_sum d < 2 ^ 32"
  shows "unat (NOT (ucast (fold_carry (sum_words s d))) :: 16 word) = 65535 - oc_norm (unat s + word_sum d)"
  using assms by (simp add: unat_complement unat_fold_carry unat_sum_words oc_norm_le)

text \<open>
  No overflow up to 131074 bytes: 65537 words of at most 65535 sum up to \<open>2 ^ 32 - 1\<close>. An IPv4
  packet has at most 65535 bytes.
\<close>

lemma unat_Checksum:
  assumes "length d \<le> 131074"
  shows "unat (Checksum d) = 65535 - oc_norm (word_sum d)"
proof -
  have "65535 * ((length d + 1) div 2) \<le> 65535 * 65537" using assms by simp
  with word_sum_bound [of d] have "word_sum d < 2 ^ 32" by simp
  then show ?thesis using unat_checksum_from [of 0 d] by (simp add: Checksum_def)
qed

text \<open>The part of a TCP checksum that comes from the pseudo-header.\<close>

definition pseudo_sum :: "bytes \<Rightarrow> bytes \<Rightarrow> nat \<Rightarrow> nat" where
  "pseudo_sum src dst n =
     (case (to4 src, to4 dst) of (Some s, Some d) \<Rightarrow> word_sum s + word_sum d | _ \<Rightarrow> 0) + 6 + n"

lemma unat_pseudo_addr:
  assumes "length a = 4" "unat s \<le> 131070"
  shows "unat (pseudo_addr s a) = unat s + word_sum a" "unat (pseudo_addr s a) \<le> unat s + 131070"
proof -
  obtain w x y z where a: "a = [w, x, y, z]" using assms(1) by (rule length_4E)
  have b: "word_sum a \<le> 131070" using word_sum_bound [of a] assms(1) by simp
  have "unat (s + pair32 w x + pair32 y z) = unat s + word_sum a"
    using b assms(2) by (simp add: unat_word_ariths unat_pair32 a)
  then show "unat (pseudo_addr s a) = unat s + word_sum a" by (simp add: pseudo_addr_def a)
  with b show "unat (pseudo_addr s a) \<le> unat s + 131070" by simp
qed

lemma unat_pseudo_addrs:
  assumes "length a = 4" "length b = 4"
  shows "unat (pseudo_addr (pseudo_addr 0 a) b) = word_sum a + word_sum b"
    and "word_sum a + word_sum b \<le> 262140"
proof -
  have "unat (pseudo_addr 0 a) = word_sum a" "word_sum a \<le> 131070" "word_sum b \<le> 131070"
    using assms unat_pseudo_addr [of a 0] word_sum_bound [of a] word_sum_bound [of b] by simp_all
  then show "unat (pseudo_addr (pseudo_addr 0 a) b) = word_sum a + word_sum b"
    and "word_sum a + word_sum b \<le> 262140"
    using assms unat_pseudo_addr [of b "pseudo_addr 0 a"] by simp_all
qed

lemma unat_TCPChecksum:
  assumes "length d \<le> 65535"
  shows "unat (TCPChecksum src dst d) = 65535 - oc_norm (pseudo_sum src dst (length d) + word_sum d)"
proof -
  define s where "s = (case (to4 src, to4 dst) of
      (Some src4, Some dst4) \<Rightarrow> pseudo_addr (pseudo_addr 0 src4) dst4 | _ \<Rightarrow> 0)"
  have s: "unat s + 6 + length d = pseudo_sum src dst (length d)" "unat s \<le> 262140"
    unfolding s_def pseudo_sum_def
    by (auto split: option.splits dest!: to4_length simp: unat_pseudo_addrs)
  have l: "unat (of_nat (length d) :: 32 word) = length d"
    using assms by (simp add: unat_of_nat)
  have u: "unat (s + 6 + of_nat (length d)) = unat s + 6 + length d"
    using s(2) assms by (simp add: unat_word_ariths l)
  have "65535 * ((length d + 1) div 2) \<le> 65535 * 32768" using assms by simp
  with word_sum_bound [of d] have "word_sum d \<le> 65535 * 32768" by linarith
  then have "unat (s + 6 + of_nat (length d)) + word_sum d < 2 ^ 32"
    using s(2) assms by (simp add: u)
  from unat_checksum_from [OF this] show ?thesis
    by (simp only: TCPChecksum_def Let_def s_def [symmetric] u s(1))
qed

section \<open>Checksummed messages\<close>

text \<open>
  A checksum of a message whose one's complement sum also counts a pseudo-header that depends
  on the length of the message only.
\<close>

text \<open>\<open>binary.BigEndian.PutUint16(d[p:p+2], v)\<close>\<close>

definition put_field :: "nat \<Rightarrow> 16 word \<Rightarrow> bytes \<Rightarrow> bytes" where
  "put_field p v d = take p d @ put_be16 v @ drop (p + 2) d"

lemma length_put_field [simp]: "p + 2 \<le> length d \<Longrightarrow> length (put_field p v d) = length d"
  by (simp add: put_field_def)

lemma word_sum_put_field:
  assumes "even p" "p + 2 \<le> length d"
  shows "word_sum (put_field p v d) + unat (get16 d p) = word_sum d + unat v"
proof -
  have e: "even (length (take p d))" using assms by simp
  have d: "d = take p d @ put_be16 (get16 d p) @ drop (p + 2) d"
    using assms by (simp add: get16_def Cons_nth_drop_Suc)
  have s: "word_sum (take p d @ put_be16 w @ drop (p + 2) d)
      = word_sum (take p d) + unat w + word_sum (drop (p + 2) d)" for w
    using word_sum_append [OF e] by (simp add: word_sum_append word_sum_put_be16)
  have "word_sum d = word_sum (take p d) + unat (get16 d p) + word_sum (drop (p + 2) d)"
    using arg_cong [OF d, of word_sum] s [of "get16 d p"] by (rule trans)
  then show ?thesis by (simp only: put_field_def s [of v])
qed

locale checksum_scheme =
  fixes ck :: "bytes \<Rightarrow> 16 word" and base :: "nat \<Rightarrow> nat" and maxlen :: nat
  assumes ck_sum: "length d \<le> maxlen \<Longrightarrow>
    unat (ck d) = 65535 - oc_norm (base (length d) + word_sum d)"
begin

lemma ck_0_iff:
  assumes "length d \<le> maxlen"
  shows "ck d = 0 \<longleftrightarrow> 0 < base (length d) + word_sum d \<and> 65535 dvd base (length d) + word_sum d"
proof -
  have "ck d = 0 \<longleftrightarrow> unat (ck d) = 0" by (simp add: unsigned_eq_0_iff)
  also have "\<dots> \<longleftrightarrow> oc_norm (base (length d) + word_sum d) = 65535"
    using oc_norm_le [of "base (length d) + word_sum d"] by (auto simp: ck_sum [OF assms])
  finally show ?thesis by (simp only: oc_norm_max_iff)
qed

text \<open>A message whose zero checksum field is filled in verifies.\<close>

lemma seal_verifies:
  assumes "even p" "p + 2 \<le> length d" "length d \<le> maxlen" "get16 d p = 0"
  shows "ck (put_field p (ck d) d) = 0"
proof -
  let ?b = "base (length d)" and ?s = "word_sum d"
  have "word_sum (put_field p (ck d) d) = ?s + (65535 - oc_norm (?b + ?s))"
    using word_sum_put_field [OF assms(1,2), of "ck d"] assms(3,4) by (simp add: ck_sum)
  then have t: "?b + word_sum (put_field p (ck d) d) = (?b + ?s) + (65535 - oc_norm (?b + ?s))"
    by simp
  have "((?b + ?s) + (65535 - oc_norm (?b + ?s))) mod 65535
      = (oc_norm (?b + ?s) mod 65535 + (65535 - oc_norm (?b + ?s))) mod 65535"
    by (simp only: oc_norm_mod mod_add_left_eq)
  also have "\<dots> = (oc_norm (?b + ?s) + (65535 - oc_norm (?b + ?s))) mod 65535"
    by (simp only: mod_add_left_eq)
  also have "\<dots> = 0" using oc_norm_le [of "?b + ?s"] by simp
  finally have "65535 dvd ?b + word_sum (put_field p (ck d) d)" by (simp add: t dvd_eq_mod_eq_0)
  moreover have "0 < ?b + word_sum (put_field p (ck d) d)"
    unfolding t using oc_norm_max_iff [of "?b + ?s"] oc_norm_le [of "?b + ?s"] by auto
  ultimately show ?thesis using assms by (simp add: ck_0_iff)
qed

text \<open>Changing one byte of a verifying message always makes it fail.\<close>

lemma single_byte_detected:
  assumes "length d \<le> maxlen" "ck d = 0" "i < length d" "b \<noteq> d ! i"
  shows "ck (d[i := b]) \<noteq> 0"
proof
  assume "ck (d[i := b]) = 0"
  with assms have d1: "65535 dvd base (length d) + word_sum (d[i := b])"
    and d2: "65535 dvd base (length d) + word_sum d" by (simp_all add: ck_0_iff)
  define w x y where "w = int (byte_weight i)" and "x = int (unat (d ! i))" and "y = int (unat b)"
  have "int (word_sum (d[i := b])) + w * x = int (word_sum d) + w * y"
    using word_sum_update [OF assms(3), of b] unfolding w_def x_def y_def
    by (metis of_nat_add of_nat_mult)
  then have e: "w * (y - x) = int (base (length d) + word_sum (d[i := b]))
      - int (base (length d) + word_sum d)"
    by (simp add: algebra_simps)
  have "(65535 :: int) dvd w * (y - x)"
    unfolding e using d1 d2 by (intro dvd_diff) (metis int_dvd_int_iff of_nat_numeral)+
  moreover have "\<bar>y - x\<bar> \<le> 255"
    using unat_byte_less [of b] unat_byte_less [of "d ! i"] unfolding x_def y_def by linarith
  then have "\<bar>w * (y - x)\<bar> < 65535" by (auto simp: w_def byte_weight_def abs_mult)
  moreover have "w * (y - x) \<noteq> 0"
    using assms(4) unsigned_word_eqI [of b "d ! i", where ?'a = int]
    by (auto simp: w_def x_def y_def byte_weight_def)
  ultimately show False using zdvd_not_zless by (metis abs_ge_zero dvd_abs_iff order_le_less abs_eq_0_iff)
qed

end

interpretation ipck: checksum_scheme Checksum "\<lambda>_. 0" 131074
  by unfold_locales (simp add: unat_Checksum)

interpretation icmpck: checksum_scheme ICMPChecksum "\<lambda>_. 0" 131074
  by unfold_locales (simp add: ICMPChecksum_def unat_Checksum)

interpretation tcpck: checksum_scheme "TCPChecksum src dst" "pseudo_sum src dst" 65535 for src dst
  by unfold_locales (simp add: unat_TCPChecksum)

section \<open>Properties\<close>

text \<open>
  Property C22. The 32-bit loops compute the Internet checksum of every message of up to 131074
  bytes, IPv4 packets included: the complement of the one's complement sum of its 16-bit words,
  and for TCP of those of its pseudo-header too.
\<close>

theorem Checksum_spec:
  "(length d \<le> 131074 \<longrightarrow> unat (Checksum d) = 65535 - oc_norm (word_sum d))
   \<and> (length d \<le> 65535 \<longrightarrow> to4 src = Some s \<longrightarrow> to4 dst = Some t \<longrightarrow>
      unat (TCPChecksum src dst d) =
        65535 - oc_norm (word_sum s + word_sum t + 6 + length d + word_sum d))"
  using unat_TCPChecksum [of d src dst] by (simp add: unat_Checksum pseudo_sum_def add.assoc)

theorem Checksum_spec_witness:
  "unat (Checksum [0x45, 0, 1]) = 65535 - oc_norm (17664 + 256)
   \<and> unat (TCPChecksum [10, 0, 0, 1] [10, 0, 0, 2] [0, 80]) = 65535 - oc_norm (2561 + 2562 + 6 + 2 + 80)"
  using Checksum_spec [of "[0x45, 0, 1]" "[]" "[]" "[]" "[]"]
    Checksum_spec [of "[0, 80]" "[10, 0, 0, 1]" "[10, 0, 0, 1]" "[10, 0, 0, 2]" "[10, 0, 0, 2]"]
  by simp

text \<open>
  Combining the checksums of two parts gives the checksum of the whole, when the
  first part has an even number of bytes.
\<close>

theorem ChecksumCombine_append:
  assumes "even (length xs)" "length xs + length ys \<le> 131074"
  shows "ChecksumCombine (Checksum xs) (Checksum ys) = Checksum (xs @ ys)"
proof -
  have n: "unat (NOT (Checksum xs)) = oc_norm (word_sum xs)"
    "unat (NOT (Checksum ys)) = oc_norm (word_sum ys)"
    using assms oc_norm_le [of "word_sum xs"] oc_norm_le [of "word_sum ys"]
    by (simp_all add: unat_not16 unat_Checksum)
  have "unat (ucast (NOT (Checksum xs)) + ucast (NOT (Checksum ys)) :: 32 word)
      = oc_norm (word_sum xs) + oc_norm (word_sum ys)"
    using oc_norm_le [of "word_sum xs"] oc_norm_le [of "word_sum ys"]
    by (simp add: unat_word_ariths unsigned_ucast_eq take_bit_eq_mod n)
  then have "unat (ChecksumCombine (Checksum xs) (Checksum ys)) =
      65535 - oc_norm (word_sum xs + word_sum ys)"
    unfolding ChecksumCombine_def
    by (simp add: unat_complement oc_norm_le unat_fold_carry oc_norm_cong_both)
  then show ?thesis
    using assms by (intro unsigned_word_eqI [where ?'a = nat]) (simp add: unat_Checksum word_sum_append)
qed

theorem ChecksumCombine_append_witness:
  "ChecksumCombine (Checksum [0x45, 0]) (Checksum [1, 2, 3]) = Checksum [0x45, 0, 1, 2, 3]"
  using ChecksumCombine_append [of "[0x45, 0]" "[1, 2, 3]"] by simp

text \<open>
  Property C23. No corruption of a single byte goes unnoticed: if a message verifies, by
  \<open>VerifyChecksum\<close> or as a TCP segment between two addresses, then it fails after any one byte
  of it is replaced by another value.
\<close>

theorem corruption_detected:
  assumes "i < length d" "b \<noteq> d ! i"
  shows "(length d \<le> 131074 \<longrightarrow> VerifyChecksum d \<longrightarrow> \<not> VerifyChecksum (d[i := b]))
    \<and> (length d \<le> 65535 \<longrightarrow> TCPChecksum src dst d = 0 \<longrightarrow> TCPChecksum src dst (d[i := b]) \<noteq> 0)"
  using ipck.single_byte_detected [OF _ _ assms] tcpck.single_byte_detected [OF _ _ assms]
  by (auto simp: VerifyChecksum_def)

theorem corruption_detected_witness: "\<not> VerifyChecksum [0x45, 1, 0xBA, 0xFF]"
proof -
  have "VerifyChecksum [0x45, 0, 0xBA, 0xFF]" by code_simp
  then show ?thesis
    using corruption_detected [of 1 "[0x45, 0, 0xBA, 0xFF]" 1 "[]" "[]"] by simp
qed

end
