(* ===== verification/Ip_Builder.thy ===== *)
theory Ip_Builder
  imports Ip_Header Ip_Checksum
begin

text \<open>
  \<^verbatim>\<open>internal/ip/builder.go\<close>: the identification counter and the packet builder with its
  options. The lemmas show that a built packet parses back to exactly the requested header,
  carries the payload, and has a valid header checksum, and that the counter hands out each
  16-bit identification once per 65536 calls. The lemmas on sealing a header (writing it with
  its own checksum) are shared with fragmentation and reassembly.
\<close>

section \<open>The code\<close>

text \<open>\<open>IDGenerator.Next\<close>: an atomic 32-bit counter, returned modulo \<open>2 ^ 16\<close>.\<close>

definition Next :: "32 word \<Rightarrow> 32 word \<times> 16 word" where
  "Next val = (let val = val + 1 in (val, ucast val))"

record packet_builder =
  pb_src :: bytes
  pb_dst :: bytes
  pb_proto :: byte
  pb_ttl :: byte
  pb_tos :: byte

record build_context =
  bc_ttl :: byte
  bc_tos :: byte
  bc_flags :: byte
  bc_id :: "16 word"

text \<open>
  A \<^verbatim>\<open>BuildOption\<close> is a function on the unexported build context, so the four
  constructors of the package are the only ones a caller can pass.
\<close>

datatype build_option = WithTTL byte | WithTOS byte | WithDF | WithID "16 word"

fun apply_option :: "build_option \<Rightarrow> build_context \<Rightarrow> build_context" where
  "apply_option (WithTTL n) c = c\<lparr>bc_ttl := n\<rparr>"
| "apply_option (WithTOS n) c = c\<lparr>bc_tos := n\<rparr>"
| "apply_option WithDF c = c\<lparr>bc_flags := bc_flags c OR FlagDF\<rparr>"
| "apply_option (WithID i) c = c\<lparr>bc_id := i\<rparr>"

definition NewPacketBuilder :: "bytes \<Rightarrow> bytes \<Rightarrow> byte \<Rightarrow> packet_builder" where
  "NewPacketBuilder src dst proto =
     \<lparr>pb_src = src, pb_dst = dst, pb_proto = proto, pb_ttl = DefaultTTL, pb_tos = 0\<rparr>"

text \<open>
  Marshal with a zero checksum field, compute the checksum, marshal again: the idiom of the
  builder, of \<open>Fragment\<close> and of \<open>reassemble\<close>.
\<close>

definition seal_header :: "ip_header \<Rightarrow> (ip_error, bytes) outcome" where
  "seal_header h =
     (let h = h\<lparr>ip_Checksum := 0\<rparr>
      in obind (Marshal h) (\<lambda>headerBytes.
         let h = h\<lparr>ip_Checksum := Checksum headerBytes\<rparr> in Marshal h))"

text \<open>
  \<open>BuildWithOptions\<close> on the shared counter: it returns the counter's new value with the
  outcome, since an identification is drawn before the size check.
\<close>

definition build_ctx :: "packet_builder \<Rightarrow> build_option list \<Rightarrow> 16 word \<Rightarrow> build_context" where
  "build_ctx b opts i =
     fold apply_option opts
       \<lparr>bc_ttl = pb_ttl b, bc_tos = pb_tos b, bc_flags = 0, bc_id = i\<rparr>"

definition build_header :: "packet_builder \<Rightarrow> build_context \<Rightarrow> nat \<Rightarrow> ip_header" where
  "build_header b ctx totalLen =
     \<lparr>ip_Version = 4, ip_IHL = 5, ip_TOS = bc_tos ctx, ip_TotalLen = of_nat totalLen,
      ip_ID = bc_id ctx, ip_Flags = bc_flags ctx, ip_FragOffset = 0, ip_TTL = bc_ttl ctx,
      ip_Protocol = pb_proto b, ip_Checksum = 0, ip_Src = pb_src b, ip_Dst = pb_dst b,
      ip_Options = []\<rparr>"

definition BuildWithOptions ::
  "packet_builder \<Rightarrow> 32 word \<Rightarrow> bytes \<Rightarrow> build_option list \<Rightarrow> 32 word \<times> (ip_error, bytes) outcome" where
  "BuildWithOptions b idGen payload opts =
     (let (idGen, i) = Next idGen;
          ctx = build_ctx b opts i;
          totalLen = MinHeaderLen + length payload
      in (idGen,
          if totalLen > 0xFFFF then Err ErrPacketTooLarge
          else obind (seal_header (build_header b ctx totalLen))
                 (\<lambda>headerBytes. Ok (headerBytes @ payload))))"

definition Build :: "packet_builder \<Rightarrow> 32 word \<Rightarrow> bytes \<Rightarrow> 32 word \<times> (ip_error, bytes) outcome" where
  "Build b idGen payload = BuildWithOptions b idGen payload []"

section \<open>Sealed headers\<close>

text \<open>A header sealed with its own checksum.\<close>

definition sealed :: "ip_header \<Rightarrow> ip_header" where
  "sealed h = h\<lparr>ip_Checksum := Checksum (header_bytes (h\<lparr>ip_Checksum := 0\<rparr>))\<rparr>"

lemma HeaderLen_upd [simp]: "HeaderLen (h\<lparr>ip_Checksum := c\<rparr>) = HeaderLen h"
  by (simp add: HeaderLen_def)

lemma header_wf_Checksum [simp]: "header_wf (h\<lparr>ip_Checksum := c\<rparr>) = header_wf h"
  by (simp add: header_wf_def)

lemma sealed_simps [simp]:
  "ip_Version (sealed h) = ip_Version h" "ip_IHL (sealed h) = ip_IHL h"
  "ip_TOS (sealed h) = ip_TOS h" "ip_TotalLen (sealed h) = ip_TotalLen h"
  "ip_ID (sealed h) = ip_ID h" "ip_Flags (sealed h) = ip_Flags h"
  "ip_FragOffset (sealed h) = ip_FragOffset h" "ip_TTL (sealed h) = ip_TTL h"
  "ip_Protocol (sealed h) = ip_Protocol h" "ip_Src (sealed h) = ip_Src h"
  "ip_Dst (sealed h) = ip_Dst h" "ip_Options (sealed h) = ip_Options h"
  "HeaderLen (sealed h) = HeaderLen h" "header_wf (sealed h) = header_wf h"
  by (simp_all add: sealed_def)

lemma sealed_Checksum [simp]: "sealed (h\<lparr>ip_Checksum := c\<rparr>) = sealed h"
  by (simp add: sealed_def)

lemma seal_header_eq: "20 \<le> HeaderLen h \<Longrightarrow> seal_header h = Ok (header_bytes (sealed h))"
  by (simp add: seal_header_def Let_def Marshal_eq sealed_def)

lemma header_bytes_checksum_field:
  assumes "20 \<le> HeaderLen h"
  shows "get16 (header_bytes h) 10 = ip_Checksum h"
    and "put_field 10 c (header_bytes h) = header_bytes (h\<lparr>ip_Checksum := c\<rparr>)"
proof -
  obtain s0 s1 s2 s3 where s: "ip4_field (ip_Src h) = [s0, s1, s2, s3]"
    by (rule length_4E [OF length_ip4_field])
  obtain d0 d1 d2 d3 where d: "ip4_field (ip_Dst h) = [d0, d1, d2, d3]"
    by (rule length_4E [OF length_ip4_field])
  show "get16 (header_bytes h) 10 = ip_Checksum h"
    by (simp add: header_bytes_def header_fixed_def Let_def get16_def put_be16_def)
  show "put_field 10 c (header_bytes h) = header_bytes (h\<lparr>ip_Checksum := c\<rparr>)"
    by (simp add: header_bytes_def header_fixed_def Let_def put_field_def put_be16_def s d)
qed

lemma sealed_verifies:
  assumes "20 \<le> HeaderLen h"
  shows "VerifyChecksum (header_bytes (sealed h))"
proof -
  let ?d = "header_bytes (h\<lparr>ip_Checksum := 0\<rparr>)"
  have l: "length ?d = HeaderLen h" using assms by simp
  have "HeaderLen h \<le> 1020" using unat_byte_less [of "ip_IHL h"] by (simp add: HeaderLen_def)
  then have "Checksum (put_field 10 (Checksum ?d) ?d) = 0"
    using assms l header_bytes_checksum_field(1) [of "h\<lparr>ip_Checksum := 0\<rparr>"]
    by (intro ipck.seal_verifies) simp_all
  then show ?thesis
    using assms header_bytes_checksum_field(2) [of "h\<lparr>ip_Checksum := 0\<rparr>" "Checksum ?d"]
    by (simp add: VerifyChecksum_def sealed_def)
qed

section \<open>Built packets\<close>

lemma build_header_HeaderLen [simp]: "HeaderLen (build_header b ctx n) = 20"
  by (simp add: HeaderLen_def build_header_def)

lemma Build_eq:
  assumes "length payload \<le> 65515"
  shows "snd (BuildWithOptions b g payload opts) =
    Ok (header_bytes (sealed (build_header b (build_ctx b opts (ucast (g + 1))) (20 + length payload)))
        @ payload)"
  using assms
  by (simp add: BuildWithOptions_def Next_def Let_def MinHeaderLen_def seal_header_eq)

text \<open>The header a built packet parses back to: the addresses in their 4-byte form.\<close>

definition built_header :: "packet_builder \<Rightarrow> build_context \<Rightarrow> nat \<Rightarrow> ip_header" where
  "built_header b ctx totalLen =
     sealed ((build_header b ctx totalLen)
       \<lparr>ip_Src := ip4_field (pb_src b), ip_Dst := ip4_field (pb_dst b)\<rparr>)"

lemma header_bytes_addrs:
  assumes "ip4_field s = ip4_field (ip_Src h)" "ip4_field d = ip4_field (ip_Dst h)"
  shows "header_bytes (sealed (h\<lparr>ip_Src := s, ip_Dst := d\<rparr>)) = header_bytes (sealed h)"
  using assms by (simp add: sealed_def header_bytes_def header_fixed_def HeaderLen_def)

lemma Build_header_bytes:
  "header_bytes (sealed (build_header b ctx n)) = header_bytes (built_header b ctx n)"
  unfolding built_header_def
  by (rule header_bytes_addrs [symmetric]) (simp_all add: build_header_def)

lemma build_ctx_flags: "bc_flags (build_ctx b opts i) = (if WithDF \<in> set opts then FlagDF else 0)"
proof -
  have "bc_flags (fold apply_option opts c) =
      (if WithDF \<in> set opts then bc_flags c OR FlagDF else bc_flags c)" for c
  proof (induction opts arbitrary: c)
    case (Cons opt opts)
    then show ?case by (cases opt) (auto simp: or.assoc)
  qed simp
  then show ?thesis by (simp add: build_ctx_def)
qed

lemma build_ctx_flags_less: "unat (bc_flags (build_ctx b opts i)) < 8"
  by (simp add: build_ctx_flags FlagDF_def)

lemma built_header_wf:
  assumes "20 \<le> n" "n \<le> 65535"
  shows "header_wf (built_header b (build_ctx b opts i) n)"
  using assms build_ctx_flags_less [of b opts i]
  by (simp add: header_wf_def built_header_def build_header_def HeaderLen_def unat_of_nat)

lemma built_header_HeaderLen [simp]: "HeaderLen (built_header b ctx n) = 20"
  by (simp add: built_header_def build_header_def HeaderLen_def)

lemma unat_of_nat16: "n \<le> 65535 \<Longrightarrow> unat (of_nat n :: 16 word) = n"
  by (simp add: unat_of_nat)

lemma Build_Ok:
  assumes "length payload \<le> 65515"
    and "h = built_header b (build_ctx b opts (ucast (g + 1))) (20 + length payload)"
  shows "snd (BuildWithOptions b g payload opts) = Ok (header_bytes h @ payload)"
    and "header_wf h" "HeaderLen h = 20" "unat (ip_TotalLen h) = 20 + length payload"
    and "VerifyChecksum (header_bytes h)"
proof -
  show "snd (BuildWithOptions b g payload opts) = Ok (header_bytes h @ payload)"
    using assms by (simp add: Build_eq Build_header_bytes)
  show "header_wf h" using assms by (simp add: built_header_wf)
  show "HeaderLen h = 20" by (simp add: assms)
  show "unat (ip_TotalLen h) = 20 + length payload"
    using assms unat_of_nat16 [of "20 + length payload"]
    by (simp add: built_header_def build_header_def del: of_nat_add)
  show "VerifyChecksum (header_bytes h)"
    unfolding assms(2) built_header_def by (rule sealed_verifies) (simp add: HeaderLen_def build_header_def)
qed



text \<open>
  A larger payload is refused with \<open>ErrPacketTooLarge\<close>; the identification drawn
  for it is used up all the same.
\<close>

theorem Build_too_large:
  "65515 < length payload \<Longrightarrow>
   BuildWithOptions b g payload opts = (g + 1, Err ErrPacketTooLarge)"
  by (simp add: BuildWithOptions_def Next_def Let_def MinHeaderLen_def)

theorem Build_too_large_witness:
  "BuildWithOptions (NewPacketBuilder [] [] ProtoUDP) 7 (replicate 65516 0) [] = (8, Err ErrPacketTooLarge)"
proof -
  have "65515 < length (replicate 65516 (0 :: byte))" by (simp only: length_replicate)
  then have "BuildWithOptions (NewPacketBuilder [] [] ProtoUDP) 7 (replicate 65516 0) []
      = (7 + 1, Err ErrPacketTooLarge)" by (rule Build_too_large)
  moreover have "(7 :: 32 word) + 1 = 8" by simp
  ultimately show ?thesis by (simp only:)
qed

section \<open>Identifications\<close>

text \<open>The identifications of \<open>n\<close> calls from the counter value \<open>g\<close>.\<close>

fun next_ids :: "nat \<Rightarrow> 32 word \<Rightarrow> 16 word list" where
  "next_ids 0 g = []"
| "next_ids (Suc n) g = (let (g', i) = Next g in i # next_ids n g')"

lemma next_ids_eq: "next_ids n g = map (\<lambda>k. ucast (g + 1 + of_nat k)) [0..<n]"
proof (induction n arbitrary: g)
  case (Suc n)
  have "[0..<Suc n] = 0 # map Suc [0..<n]" by (simp add: map_Suc_upt upt_conv_Cons del: upt_Suc)
  then show ?case by (simp add: Next_def Suc Let_def comp_def algebra_simps del: upt_Suc)
qed simp

lemma ucast_add_of_nat: "ucast (g + of_nat k :: 32 word) = (ucast g + of_nat k :: 16 word)"
  by (rule unsigned_word_eqI [where ?'a = nat])
    (simp add: unsigned_ucast_eq take_bit_eq_mod unat_word_ariths unat_of_nat mod_mod_cancel mod_add_left_eq mod_add_right_eq mod_add_eq)

lemma ids_distinct: "n \<le> 65536 \<Longrightarrow> distinct (next_ids n g)"
proof -
  assume n: "n \<le> 65536"
  have "inj_on (\<lambda>k. ucast (g + 1 + of_nat k) :: 16 word) {0..<n}"
  proof (rule inj_onI)
    fix i j
    assume "i \<in> {0..<n}" "j \<in> {0..<n}"
      and "ucast (g + 1 + of_nat i) = (ucast (g + 1 + of_nat j) :: 16 word)"
    then have "of_nat i = (of_nat j :: 16 word)" "i < 65536" "j < 65536"
      using n by (simp_all add: ucast_add_of_nat)
    then have "unat (of_nat i :: 16 word) = unat (of_nat j :: 16 word)" by simp
    with \<open>i < 65536\<close> \<open>j < 65536\<close> show "i = j" by (simp add: unat_of_nat)
  qed
  then show ?thesis by (simp add: next_ids_eq distinct_map)
qed

text \<open>
  Any 65536 consecutive calls of the identification counter return pairwise
  different identifications, also across the wrap-around of either word size.
\<close>

theorem Next_ids_distinct: "n \<le> 65536 \<Longrightarrow> distinct (next_ids n g)"
  by (rule ids_distinct)

theorem Next_ids_distinct_witness:
  "next_ids 3 0xFFFFFFFE = [0xFFFF, 0, 1] \<and> distinct (next_ids 3 0xFFFFFFFE)"
proof
  show "next_ids 3 0xFFFFFFFE = [0xFFFF, 0, 1]" by code_simp
  show "distinct (next_ids 3 0xFFFFFFFE)" by (rule Next_ids_distinct) simp
qed

end
