(* ===== verification/Fragmentation.thy ===== *)
theory Fragmentation
  imports Ip_Builder
begin

text \<open>
  \<^verbatim>\<open>internal/ip/fragment.go\<close>: splitting a packet into fragments that fit an MTU. The loop is a
  partial function, since it would not end if a fragment carried no payload; the lemmas give
  its closed form (the \<open>i\<close>-th fragment carries the \<open>i\<close>-th block of the payload), from which the
  properties of the fragments follow.
\<close>

section \<open>The code\<close>

definition NeedsFragmentation :: "int \<Rightarrow> int \<Rightarrow> bool" where
  "NeedsFragmentation packetLen mtu \<longleftrightarrow> packetLen > mtu"

text \<open>The header of one fragment: its offset, total length and MF flag.\<close>

definition frag_header :: "ip_header \<Rightarrow> nat \<Rightarrow> nat \<Rightarrow> bool \<Rightarrow> ip_header" where
  "frag_header header offset fragmentPayloadLen isLast =
     header\<lparr>ip_FragOffset := ip_FragOffset header + of_nat (offset div 8),
            ip_TotalLen := of_nat (HeaderLen header + fragmentPayloadLen),
            ip_Flags := (if \<not> isLast then ip_Flags header OR FlagMF else ip_Flags header)\<rparr>"

text \<open>The loop \<open>for offset < payloadLen\<close>, with the fragments collected so far.\<close>

partial_function (option) frag_loop ::
  "ip_header \<Rightarrow> bytes \<Rightarrow> nat \<Rightarrow> nat \<Rightarrow> bytes list \<Rightarrow> (ip_error, bytes list) outcome option" where
  "frag_loop header payload maxp offset fragments =
     (if offset < length payload then
        (let remaining = length payload - offset;
             isLast = (remaining \<le> maxp);
             flen = (if remaining \<le> maxp then remaining else maxp)
         in case seal_header (frag_header header offset flen isLast) of
              Err e \<Rightarrow> Some (Err e)
            | Panic \<Rightarrow> Some Panic
            | Ok headerBytes \<Rightarrow>
                frag_loop header payload maxp (offset + flen)
                  (fragments @ [headerBytes @ take flen (drop offset payload)]))
      else Some (Ok fragments))"

text \<open>\<open>(mtu - headerLen) &^ 7\<close>: the payload per fragment is a multiple of 8.\<close>

definition block_size :: "int \<Rightarrow> nat \<Rightarrow> nat" where
  "block_size mtu headerLen = nat ((mtu - int headerLen) AND NOT 7)"

definition Fragment :: "bytes \<Rightarrow> int \<Rightarrow> (ip_error, bytes list) outcome option" where
  "Fragment packet mtu =
     (if \<not> NeedsFragmentation (int (length packet)) mtu then Some (Ok [packet])
      else case ParseHeader packet of
        Err e \<Rightarrow> Some (Err e)
      | Panic \<Rightarrow> Some Panic
      | Ok header \<Rightarrow>
          if ip_Flags header AND FlagDF \<noteq> 0 then Some (Err ErrDontFragment)
          else let headerLen = HeaderLen header
          in if mtu < int headerLen + 8 then Some (Err ErrMTUTooSmall)
          else let maxPayloadPerFragment = block_size mtu headerLen;
                   payload = slice_bytes (Payload header packet)
          in frag_loop header payload maxPayloadPerFragment 0 [])"

section \<open>The closed form of the loop\<close>

text \<open>The number of blocks of \<open>m\<close> bytes in \<open>n\<close>, and the \<open>i\<close>-th fragment.\<close>

definition n_blocks :: "nat \<Rightarrow> nat \<Rightarrow> nat" where
  "n_blocks n m = (n + m - 1) div m"

definition frag_at_header :: "ip_header \<Rightarrow> nat \<Rightarrow> nat \<Rightarrow> nat \<Rightarrow> ip_header" where
  "frag_at_header h n m i = sealed (frag_header h (i * m) (min m (n - i * m)) (Suc i = n_blocks n m))"

definition frag_payload :: "bytes \<Rightarrow> nat \<Rightarrow> nat \<Rightarrow> bytes" where
  "frag_payload payload m i = take m (drop (i * m) payload)"

definition frag_at :: "ip_header \<Rightarrow> bytes \<Rightarrow> nat \<Rightarrow> nat \<Rightarrow> bytes" where
  "frag_at h payload m i =
     header_bytes (frag_at_header h (length payload) m i) @ frag_payload payload m i"

lemma less_n_blocks: "0 < m \<Longrightarrow> k < n_blocks n m \<longleftrightarrow> k * m < n"
proof -
  assume m: "0 < m"
  have a: "p + m \<le> n + m - 1 \<longleftrightarrow> p < n" for p using m by arith
  have "k < n_blocks n m \<longleftrightarrow> Suc k * m \<le> n + m - 1"
    using less_eq_div_iff_mult_less_eq [OF m, of "Suc k" "n + m - 1"]
    unfolding n_blocks_def Suc_le_eq [of k "(n + m - 1) div m"] .
  also have "\<dots> \<longleftrightarrow> k * m < n" using a [of "k * m"] by (simp only: mult_Suc add.commute)
  finally show ?thesis .
qed

lemma n_blocks_last:
  assumes "0 < m" "k < n_blocks n m"
  shows "Suc k = n_blocks n m \<longleftrightarrow> n - k * m \<le> m"
proof -
  have "Suc k = n_blocks n m \<longleftrightarrow> \<not> Suc k < n_blocks n m" using assms(2) by auto
  also have "\<dots> \<longleftrightarrow> \<not> k * m + m < n"
    by (simp only: less_n_blocks [OF assms(1)] mult_Suc add.commute)
  also have "\<dots> \<longleftrightarrow> n - k * m \<le> m" by linarith
  finally show ?thesis .
qed

lemma frag_header_HeaderLen [simp]: "HeaderLen (frag_header h off n l) = HeaderLen h"
  by (simp add: frag_header_def HeaderLen_def)

lemma frag_loop_closed:
  assumes "20 \<le> HeaderLen h" "0 < m" "k \<le> n_blocks (length payload) m"
  shows "frag_loop h payload m (min (k * m) (length payload)) fs =
    Some (Ok (fs @ map (frag_at h payload m) [k..<n_blocks (length payload) m]))"
  using assms(3)
proof (induction "n_blocks (length payload) m - k" arbitrary: k fs)
  case 0
  then have "k = n_blocks (length payload) m" by simp
  then have "length payload \<le> k * m" using less_n_blocks [OF assms(2), of k "length payload"] by simp
  then show ?case using 0 by (subst frag_loop.simps) simp
next
  case (Suc d)
  let ?n = "length payload"
  have k: "k < n_blocks ?n m" using Suc.hyps(2) by simp
  then have lt: "k * m < ?n" by (simp add: less_n_blocks assms(2))
  define flen where "flen = min m (?n - k * m)"
  have last: "(?n - k * m \<le> m) = (Suc k = n_blocks ?n m)"
    using n_blocks_last [OF assms(2) k] by simp
  have step: "k * m + flen = min (Suc k * m) ?n" using lt by (auto simp: flen_def)
  have flen: "(if ?n - k * m \<le> m then ?n - k * m else m) = flen" by (simp add: flen_def)
  have chunk: "header_bytes (sealed (frag_header h (k * m) flen (?n - k * m \<le> m)))
      @ take flen (drop (k * m) payload) = frag_at h payload m k"
    unfolding frag_at_def frag_at_header_def frag_payload_def last flen_def
    by (cases "m \<le> ?n - k * m") simp_all
  have "frag_loop h payload m (k * m) fs
      = frag_loop h payload m (k * m + flen) (fs @ [frag_at h payload m k])"
    using lt assms(1)
    by (subst frag_loop.simps) (simp add: Let_def flen seal_header_eq chunk)
  also have "\<dots> = Some (Ok ((fs @ [frag_at h payload m k]) @
      map (frag_at h payload m) [Suc k..<n_blocks ?n m]))"
    unfolding step using Suc.hyps(2) k by (intro Suc.hyps(1)) simp_all
  finally show ?case using lt k by (simp add: upt_conv_Cons)
qed

lemma frag_loop_eq:
  assumes "20 \<le> HeaderLen h" "0 < m"
  shows "frag_loop h payload m 0 [] =
    Some (Ok (map (frag_at h payload m) [0..<n_blocks (length payload) m]))"
  using frag_loop_closed [OF assms, of 0 payload "[]"] by simp

text \<open>The block size is the largest multiple of 8 that fits.\<close>

lemma block_size:
  assumes "int hl + 8 \<le> mtu"
  shows "8 dvd block_size mtu hl" "8 \<le> block_size mtu hl" "int hl + int (block_size mtu hl) \<le> mtu"
proof -
  define x where "x = mtu - int hl"
  have m: "(7 :: int) = mask 3" by (simp add: mask_eq_exp_minus_1)
  have "x AND NOT 7 = push_bit 3 (drop_bit 3 x)"
    unfolding m by (rule bit_eqI) (auto simp: bit_simps not_less)
  then have "x AND NOT 7 = 8 * (x div 8)" by (simp add: push_bit_eq_mult drop_bit_eq_div)
  then have e: "block_size mtu hl = nat (8 * (x div 8))"
    by (simp only: block_size_def x_def [symmetric])
  have "8 \<le> x" using assms by (simp add: x_def)
  then have b: "block_size mtu hl = 8 * nat (x div 8)" "0 < x div 8" "8 * (x div 8) \<le> x"
    by (simp_all add: e nat_mult_distrib)
  then show "8 dvd block_size mtu hl" "8 \<le> block_size mtu hl"
    "int hl + int (block_size mtu hl) \<le> mtu" by (auto simp: x_def)
qed

section \<open>One fragment\<close>

lemma flags_cases:
  assumes "unat (f :: byte) < 8"
  obtains "f = 0" | "f = 1" | "f = 2" | "f = 3" | "f = 4" | "f = 5" | "f = 6" | "f = 7"
proof -
  have e: "f = k" if "unat f = unat k" for k
    using that by (rule unsigned_word_eqI)
  from assms consider "unat f = 0" | "unat f = 1" | "unat f = 2" | "unat f = 3" | "unat f = 4"
    | "unat f = 5" | "unat f = 6" | "unat f = 7" by linarith
  then show thesis
    using e [of 0] e [of 1] e [of 2] e [of 3] e [of 4] e [of 5] e [of 6] e [of 7] that
    by cases simp_all
qed

lemma flags_MF:
  assumes "unat (f :: byte) < 8"
  shows "unat (f OR FlagMF) < 8" "(f OR FlagMF) AND FlagMF \<noteq> 0"
    "(f OR FlagMF) AND FlagDF = f AND FlagDF"
  using assms by (auto simp: FlagMF_def FlagDF_def elim!: flags_cases)

text \<open>
  The setting of the next lemmas: a well-formed header, blocks of a multiple of 8 bytes, and a
  payload that ends within the range of the 13-bit offset field.
\<close>

definition frag_setting :: "ip_header \<Rightarrow> nat \<Rightarrow> nat \<Rightarrow> bool" where
  "frag_setting h n m \<longleftrightarrow> header_wf h \<and> 8 dvd m \<and> 8 \<le> m \<and> HeaderLen h + m \<le> 65535
     \<and> unat (ip_FragOffset h) * 8 + n \<le> 65536"

lemma frag_setting_pos: "frag_setting h n m \<Longrightarrow> 0 < m"
  by (simp add: frag_setting_def)

lemma frag_chunk_len:
  "length payload = n \<Longrightarrow> length (frag_payload payload m i) = min m (n - i * m)"
  by (simp add: frag_payload_def)

lemma frag_chunk_pos: "0 < m \<Longrightarrow> i < n_blocks n m \<Longrightarrow> 0 < min m (n - i * m)"
  by (simp add: less_n_blocks)

lemma frag_offset:
  assumes "frag_setting h n m" "i < n_blocks n m"
  shows "unat (ip_FragOffset (frag_at_header h n m i)) = unat (ip_FragOffset h) + i * m div 8"
    and "unat (ip_FragOffset (frag_at_header h n m i)) < 8192"
    and "unat (ip_FragOffset (frag_at_header h n m i)) * 8 = unat (ip_FragOffset h) * 8 + i * m"
proof -
  have m: "8 dvd i * m" "i * m < n" using assms by (auto simp: frag_setting_def less_n_blocks)
  then have d: "8 * (i * m div 8) = i * m" by simp
  have "unat (ip_FragOffset h) * 8 + n \<le> 65536" using assms by (simp add: frag_setting_def)
  with m d have b: "unat (ip_FragOffset h) + i * m div 8 < 8192" by linarith
  then have "unat (of_nat (i * m div 8) :: 16 word) = i * m div 8"
    by (intro unat_of_nat16) linarith
  with b show off: "unat (ip_FragOffset (frag_at_header h n m i)) = unat (ip_FragOffset h) + i * m div 8"
    by (simp add: frag_at_header_def frag_header_def unat_word_ariths)
  show "unat (ip_FragOffset (frag_at_header h n m i)) < 8192" using off b by simp
  show "unat (ip_FragOffset (frag_at_header h n m i)) * 8 = unat (ip_FragOffset h) * 8 + i * m"
    using off d by simp
qed

lemma frag_TotalLen:
  assumes "frag_setting h n m"
  shows "unat (ip_TotalLen (frag_at_header h n m i)) = HeaderLen h + min m (n - i * m)"
proof -
  have "HeaderLen h + m \<le> 65535" using assms by (simp add: frag_setting_def)
  then have "HeaderLen h + min m (n - i * m) \<le> 65535" by linarith
  then show ?thesis
    using unat_of_nat16 by (simp add: frag_at_header_def frag_header_def del: of_nat_add)
qed

lemma frag_at_header_simps [simp]:
  "HeaderLen (frag_at_header h n m i) = HeaderLen h"
  "ip_ID (frag_at_header h n m i) = ip_ID h"
  "ip_Protocol (frag_at_header h n m i) = ip_Protocol h"
  "ip_Src (frag_at_header h n m i) = ip_Src h"
  "ip_Dst (frag_at_header h n m i) = ip_Dst h"
  "ip_Options (frag_at_header h n m i) = ip_Options h"
  "ip_Flags (frag_at_header h n m i) =
     (if Suc i = n_blocks n m then ip_Flags h else ip_Flags h OR FlagMF)"
  by (simp_all add: frag_at_header_def) (simp_all add: frag_header_def)

lemma frag_at_header_wf:
  assumes "frag_setting h n m" "i < n_blocks n m"
  shows "header_wf (frag_at_header h n m i)"
proof -
  have wf: "header_wf h" using assms by (simp add: frag_setting_def)
  have "ip_Version (frag_at_header h n m i) = ip_Version h"
    "ip_IHL (frag_at_header h n m i) = ip_IHL h"
    by (simp_all add: frag_at_header_def frag_header_def)
  then show ?thesis
    using wf frag_offset(2) [OF assms] frag_TotalLen [OF assms(1), of i] flags_MF(1)
    by (simp add: header_wf_def)
qed

lemma frag_at_parses:
  assumes "frag_setting h (length payload) m" "i < n_blocks (length payload) m"
  shows "ParseHeader (frag_at h payload m i) = Ok (frag_at_header h (length payload) m i)"
    and "drop (HeaderLen h) (frag_at h payload m i) = frag_payload payload m i"
    and "take (HeaderLen h) (frag_at h payload m i) = header_bytes (frag_at_header h (length payload) m i)"
    and "length (frag_at h payload m i) = HeaderLen h + length (frag_payload payload m i)"
    and "VerifyChecksum (header_bytes (frag_at_header h (length payload) m i))"
proof -
  have l: "length (header_bytes (frag_at_header h (length payload) m i)) = HeaderLen h"
    using assms header_wf_HeaderLen by (simp add: frag_setting_def)
  show "ParseHeader (frag_at h payload m i) = Ok (frag_at_header h (length payload) m i)"
    unfolding frag_at_def by (rule ParseHeader_header_bytes [OF frag_at_header_wf [OF assms]])
  show "drop (HeaderLen h) (frag_at h payload m i) = frag_payload payload m i"
    "take (HeaderLen h) (frag_at h payload m i) = header_bytes (frag_at_header h (length payload) m i)"
    "length (frag_at h payload m i) = HeaderLen h + length (frag_payload payload m i)"
    by (simp_all add: frag_at_def l)
  show "VerifyChecksum (header_bytes (frag_at_header h (length payload) m i))"
    unfolding frag_at_header_def using assms header_wf_HeaderLen
    by (intro sealed_verifies) (simp add: frag_setting_def)
qed

text \<open>The blocks put together are the payload.\<close>

lemma concat_frag_payload:
  assumes "0 < m"
  shows "concat (map (frag_payload payload m) [0..<n_blocks (length payload) m]) = payload"
proof -
  have "concat (map (frag_payload payload m) [0..<k]) = take (k * m) payload" for k
  proof (induction k)
    case (Suc k)
    have "take (Suc k * m) payload = take (k * m) payload @ frag_payload payload m k"
      by (simp only: mult_Suc add.commute [of m] take_add frag_payload_def)
    with Suc show ?case by simp
  qed simp
  moreover have "length payload \<le> n_blocks (length payload) m * m"
    using less_n_blocks [OF assms, of "n_blocks (length payload) m" "length payload"] by simp
  ultimately show ?thesis by simp
qed

section \<open>All fragments\<close>

lemma Fragment_blocks:
  assumes "ParseHeader packet = Ok h" "mtu < int (length packet)" "ip_Flags h AND FlagDF = 0"
    and "int (HeaderLen h) + 8 \<le> mtu" "5 \<le> unat (ip_IHL h)"
  shows "Fragment packet mtu = Some (Ok (map (frag_at h (drop (HeaderLen h) packet) (block_size mtu (HeaderLen h)))
      [0..<n_blocks (length packet - HeaderLen h) (block_size mtu (HeaderLen h))]))"
proof -
  have "20 \<le> HeaderLen h" using assms(5) by (simp add: HeaderLen_def)
  moreover have "0 < block_size mtu (HeaderLen h)" using block_size(2) [OF assms(4)] by linarith
  ultimately show ?thesis
    using assms
    by (simp add: Fragment_def NeedsFragmentation_def Let_def slice_bytes_Payload frag_loop_eq)
qed

lemma Fragment_setting:
  assumes "ParseHeader packet = Ok h" "mtu < int (length packet)" "length packet \<le> 65535"
    and "int (HeaderLen h) + 8 \<le> mtu" "5 \<le> unat (ip_IHL h)"
    and "unat (ip_FragOffset h) * 8 + (length packet - HeaderLen h) \<le> 65536"
  shows "frag_setting h (length packet - HeaderLen h) (block_size mtu (HeaderLen h))"
  using assms block_size [OF assms(4)] ParseHeader_wf [OF assms(1,5)]
  by (simp add: frag_setting_def)

text \<open>A header of less than 20 bytes cannot be written, so the first fragment panics.\<close>

lemma Fragment_short_header:
  assumes "ParseHeader packet = Ok h" "mtu < int (length packet)" "ip_Flags h AND FlagDF = 0"
    and "int (HeaderLen h) + 8 \<le> mtu" "unat (ip_IHL h) < 5"
  shows "Fragment packet mtu = Some Panic"
proof -
  have "Marshal (frag_header h 0 n l\<lparr>ip_Checksum := 0\<rparr>) = Panic" for n l
  proof (rule Marshal_short_panics)
    show "HeaderLen (frag_header h 0 n l\<lparr>ip_Checksum := 0\<rparr>) < 20"
      using assms(5) by (simp add: HeaderLen_def frag_header_def)
  qed (simp_all add: frag_header_def ParseHeader_OkD(8,9) [OF assms(1)])
  then have s: "seal_header (frag_header h 0 n l) = Panic" for n l
    by (simp add: seal_header_def Let_def)
  have "HeaderLen h < length packet" using assms(2,4) by simp
  then have "frag_loop h (drop (HeaderLen h) packet) m 0 [] = Some Panic" for m
    by (subst frag_loop.simps) (simp add: Let_def s)
  then show ?thesis
    using assms by (simp add: Fragment_def NeedsFragmentation_def Let_def slice_bytes_Payload)
qed

lemma ParseHeader_no_panic: "ParseHeader raw \<noteq> Panic"
  by (simp add: ParseHeader_def Let_def)

lemma Fragment_total: "\<exists>r. Fragment packet mtu = Some r"
proof (cases "ParseHeader packet")
  case (Ok h)
  consider "\<not> mtu < int (length packet)" | "ip_Flags h AND FlagDF \<noteq> 0"
    | "mtu < int (HeaderLen h) + 8" | "mtu < int (length packet)" "ip_Flags h AND FlagDF = 0"
      "int (HeaderLen h) + 8 \<le> mtu" by linarith
  then show ?thesis
  proof cases
    case 4
    then show ?thesis
      using Fragment_blocks [OF Ok] Fragment_short_header [OF Ok] by (meson not_less)
  qed (auto simp: Fragment_def NeedsFragmentation_def Ok Let_def)
qed (auto simp: Fragment_def NeedsFragmentation_def)

text \<open>The fragments, one by one, in the form the properties need.\<close>

lemma Fragment_list:
  assumes "ParseHeader packet = Ok h" "mtu < int (length packet)" "length packet \<le> 65535"
    and "int (HeaderLen h) + 8 \<le> mtu" "5 \<le> unat (ip_IHL h)" "ip_Flags h AND FlagDF = 0"
    and "unat (ip_FragOffset h) * 8 + (length packet - HeaderLen h) \<le> 65536"
  obtains m n where "frag_setting h (length (drop (HeaderLen h) packet)) m"
    and "n = n_blocks (length (drop (HeaderLen h) packet)) m" "0 < n"
    and "int (HeaderLen h) + int m \<le> mtu"
    and "Fragment packet mtu = Some (Ok (map (frag_at h (drop (HeaderLen h) packet) m) [0..<n]))"
proof
  let ?m = "block_size mtu (HeaderLen h)"
  show "frag_setting h (length (drop (HeaderLen h) packet)) ?m"
    using Fragment_setting [OF assms(1-5,7)] by simp
  have "0 < ?m" using block_size(2) [OF assms(4)] by linarith
  moreover have "HeaderLen h < length packet" using assms(2,4) by simp
  ultimately show "0 < n_blocks (length (drop (HeaderLen h) packet)) ?m"
    by (simp add: less_n_blocks)
  show "int (HeaderLen h) + int ?m \<le> mtu" by (rule block_size(3) [OF assms(4)])
  show "Fragment packet mtu = Some (Ok (map (frag_at h (drop (HeaderLen h) packet) ?m)
      [0..<n_blocks (length (drop (HeaderLen h) packet)) ?m]))"
    using Fragment_blocks [OF assms(1,2,6,4,5)] by simp
qed simp

lemma frag_offset_prefix:
  assumes "frag_setting h (length payload) m" "i < n_blocks (length payload) m"
  shows "length (concat (map (frag_payload payload m) [0..<i])) = i * m"
proof -
  have "concat (map (frag_payload payload m) [0..<k]) = take (k * m) payload" for k
  proof (induction k)
    case (Suc k)
    have "take (Suc k * m) payload = take (k * m) payload @ frag_payload payload m k"
      by (simp only: mult_Suc add.commute [of m] take_add frag_payload_def)
    with Suc show ?case by simp
  qed simp
  moreover have "i * m < length payload" using assms by (simp add: frag_setting_def less_n_blocks)
  ultimately show ?thesis by simp
qed

lemma frag_piece:
  assumes "frag_setting h (length payload) m" "i < n_blocks (length payload) m"
    and "int (HeaderLen h) + int m \<le> mtu"
  shows "int (length (frag_at h payload m i)) \<le> mtu
    \<and> VerifyChecksum (take (HeaderLen h) (frag_at h payload m i))
    \<and> (\<exists>fh. ParseHeader (frag_at h payload m i) = Ok fh
         \<and> unat (ip_TotalLen fh) = length (frag_at h payload m i)
         \<and> h = fh\<lparr>ip_TotalLen := ip_TotalLen h, ip_Flags := ip_Flags h,
                   ip_FragOffset := ip_FragOffset h, ip_Checksum := ip_Checksum h\<rparr>)"
proof -
  note p = frag_at_parses [OF assms(1,2)]
  let ?fh = "frag_at_header h (length payload) m i"
  have l: "length (frag_at h payload m i) = HeaderLen h + min m (length payload - i * m)"
    using p(4) frag_chunk_len [OF refl, of payload] by simp
  then have "int (length (frag_at h payload m i)) \<le> mtu" using assms(3) by simp
  moreover have "unat (ip_TotalLen ?fh) = length (frag_at h payload m i)"
    using l frag_TotalLen [OF assms(1)] by simp
  moreover have "h = ?fh\<lparr>ip_TotalLen := ip_TotalLen h, ip_Flags := ip_Flags h,
      ip_FragOffset := ip_FragOffset h, ip_Checksum := ip_Checksum h\<rparr>"
    by (simp add: frag_at_header_def sealed_def frag_header_def)
  ultimately show ?thesis using p(1,3,5) by auto
qed

text \<open>
  \<open>Fragment\<close> always returns: for every packet and every MTU, negative ones included,
  the loop ends (with fragments, an error, or the panic of an unwritable header).
\<close>

theorem Fragment_returns: "\<exists>r. Fragment packet mtu = Some r"
  by (rule Fragment_total)

text \<open>
  Property C8. A packet that exceeds the MTU, may be fragmented and has a complete header is
  split into a non-empty list of packets, each of which fits the MTU, parses to the original
  header up to offset, length, MF and checksum, states its own length, and has a valid header
  checksum; their payloads put together in order are the original payload.
\<close>

theorem Fragment_pieces:
  assumes "ParseHeader packet = Ok h" "mtu < int (length packet)" "length packet \<le> 65535"
    and "int (HeaderLen h) + 8 \<le> mtu" "5 \<le> unat (ip_IHL h)" "ip_Flags h AND FlagDF = 0"
    and "unat (ip_FragOffset h) * 8 + (length packet - HeaderLen h) \<le> 65536"
  shows "\<exists>frs. Fragment packet mtu = Some (Ok frs) \<and> frs \<noteq> []
    \<and> (\<forall>f \<in> set frs. int (length f) \<le> mtu \<and> VerifyChecksum (take (HeaderLen h) f)
        \<and> (\<exists>fh. ParseHeader f = Ok fh \<and> unat (ip_TotalLen fh) = length f
             \<and> h = fh\<lparr>ip_TotalLen := ip_TotalLen h, ip_Flags := ip_Flags h,
                       ip_FragOffset := ip_FragOffset h, ip_Checksum := ip_Checksum h\<rparr>))
    \<and> concat (map (drop (HeaderLen h)) frs) = drop (HeaderLen h) packet"
proof -
  let ?p = "drop (HeaderLen h) packet"
  obtain m n where s: "frag_setting h (length ?p) m" and n: "n = n_blocks (length ?p) m" "0 < n"
    and m: "int (HeaderLen h) + int m \<le> mtu"
    and F: "Fragment packet mtu = Some (Ok (map (frag_at h ?p m) [0..<n]))"
    using Fragment_list [OF assms] .
  have "map (drop (HeaderLen h)) (map (frag_at h ?p m) [0..<n]) = map (frag_payload ?p m) [0..<n]"
    using frag_at_parses(2) [OF s] n(1) by simp
  then have "concat (map (drop (HeaderLen h)) (map (frag_at h ?p m) [0..<n])) = ?p"
    using concat_frag_payload [OF frag_setting_pos [OF s]] n(1) by (simp only:)
  then show ?thesis
    unfolding F using n(2) frag_piece [OF s _ m] n(1)
    by (intro exI conjI [OF refl]) auto
qed

text \<open>Hypotheses of a concrete packet: 20 bytes of header, 20 of payload, an MTU of 30.\<close>

definition sample_packet :: bytes where
  "sample_packet =
     [0x45, 0, 0, 40, 0x12, 0x34, 0, 0, 64, 17, 0, 0, 10, 0, 0, 1, 10, 0, 0, 2,
      0, 1, 2, 3, 4, 5, 6, 7, 8, 9, 10, 11, 12, 13, 14, 15, 16, 17, 18, 19]"

definition sample_header :: ip_header where
  "sample_header =
     \<lparr>ip_Version = 4, ip_IHL = 5, ip_TOS = 0, ip_TotalLen = 40, ip_ID = 0x1234, ip_Flags = 0,
      ip_FragOffset = 0, ip_TTL = 64, ip_Protocol = 17, ip_Checksum = 0, ip_Src = [10, 0, 0, 1],
      ip_Dst = [10, 0, 0, 2], ip_Options = []\<rparr>"

lemma sample_parses: "ParseHeader sample_packet = Ok sample_header"
  by code_simp

lemma sample_facts:
  "length sample_packet = 40" "HeaderLen sample_header = 20" "unat (ip_IHL sample_header) = 5"
  "ip_Flags sample_header AND FlagDF = 0" "ip_FragOffset sample_header = 0"
  by (simp_all add: sample_packet_def sample_header_def HeaderLen_def)

theorem Fragment_pieces_witness:
  "\<exists>frs. Fragment sample_packet 30 = Some (Ok frs) \<and> frs \<noteq> []
    \<and> (\<forall>f \<in> set frs. int (length f) \<le> 30) \<and> concat (map (drop 20) frs) = drop 20 sample_packet"
  using Fragment_pieces [OF sample_parses, of 30] by (auto simp: sample_facts)

text \<open>
  The \<open>i\<close>-th fragment states, in units of 8 bytes, the original offset plus the
  payload bytes of the fragments before it, without wrapping around; every fragment but the
  last has MF set, and the last one keeps the flags of the original.
\<close>

theorem Fragment_offsets:
  assumes "ParseHeader packet = Ok h" "mtu < int (length packet)" "length packet \<le> 65535"
    and "int (HeaderLen h) + 8 \<le> mtu" "5 \<le> unat (ip_IHL h)" "ip_Flags h AND FlagDF = 0"
    and "unat (ip_FragOffset h) * 8 + (length packet - HeaderLen h) \<le> 65536"
    and "Fragment packet mtu = Some (Ok frs)" "i < length frs" "ParseHeader (frs ! i) = Ok fh"
  shows "unat (ip_FragOffset fh) * 8 =
      unat (ip_FragOffset h) * 8 + length (concat (map (drop (HeaderLen h)) (take i frs)))
    \<and> ip_Flags fh = (if Suc i = length frs then ip_Flags h else ip_Flags h OR FlagMF)"
proof -
  let ?p = "drop (HeaderLen h) packet"
  obtain m n where s: "frag_setting h (length ?p) m" and n: "n = n_blocks (length ?p) m" "0 < n"
    and F: "Fragment packet mtu = Some (Ok (map (frag_at h ?p m) [0..<n]))"
    using Fragment_list [OF assms(1-7)] .
  then have frs: "frs = map (frag_at h ?p m) [0..<n]" and i: "i < n" using assms(8,9) by simp_all
  then have "fh = frag_at_header h (length ?p) m i"
    using assms(10) frag_at_parses(1) [OF s, of i] n(1) by simp
  moreover have "map (drop (HeaderLen h)) (take i frs) = map (frag_payload ?p m) [0..<i]"
    using frag_at_parses(2) [OF s] i n(1) by (simp add: frs take_map)
  ultimately show ?thesis
    using frag_offset(3) [OF s, of i] frag_offset_prefix [OF s, of i] i n(1)
    by (simp_all only: length_map length_upt frs frag_at_header_simps) simp_all
qed

lemma sample_fragments: "Fragment sample_packet 30 = Some (Ok (map
    (frag_at sample_header (drop 20 sample_packet) 8) [0..<3]))"
proof -
  have "block_size 30 20 = 8" by (simp add: block_size_def)
  moreover have "n_blocks 20 8 = 3" by (simp add: n_blocks_def)
  ultimately show ?thesis
    using Fragment_blocks [OF sample_parses, of 30] by (simp add: sample_facts)
qed

theorem Fragment_offsets_witness:
  "\<exists>fh. ParseHeader (frag_at sample_header (drop 20 sample_packet) 8 1) = Ok fh
     \<and> unat (ip_FragOffset fh) * 8 = 8 \<and> ip_Flags fh = FlagMF"
proof -
  let ?frs = "map (frag_at sample_header (drop 20 sample_packet) 8) [0..<3]"
  have s: "frag_setting sample_header (length (drop 20 sample_packet)) 8"
    by (simp add: frag_setting_def sample_facts header_wf_def) (simp add: sample_header_def)
  have b: "n_blocks (length (drop 20 sample_packet)) 8 = 3" by (simp add: sample_facts n_blocks_def)
  let ?fh = "frag_at_header sample_header (length (drop 20 sample_packet)) 8 1"
  have P: "ParseHeader (?frs ! 1) = Ok ?fh"
    using frag_at_parses(1) [OF s, of 1] b by simp
  have "drop 20 (frag_at sample_header (drop 20 sample_packet) 8 0) = frag_payload (drop 20 sample_packet) 8 0"
    using frag_at_parses(2) [OF s, of 0] b by (simp add: sample_facts)
  then have l: "length (concat (map (drop (HeaderLen sample_header)) (take 1 ?frs))) = 8"
    by (simp add: sample_facts upt_rec frag_payload_def)
  have o: "unat (ip_FragOffset ?fh) * 8 = unat (ip_FragOffset sample_header) * 8
      + length (concat (map (drop (HeaderLen sample_header)) (take 1 ?frs)))
    \<and> ip_Flags ?fh = (if Suc 1 = length ?frs then ip_Flags sample_header
        else ip_Flags sample_header OR FlagMF)"
    by (rule Fragment_offsets [OF sample_parses _ _ _ _ _ _ sample_fragments _ P])
      (simp_all add: sample_facts)
  then have "unat (ip_FragOffset ?fh) * 8 = 8" unfolding l by (simp add: sample_facts)
  moreover have "ip_Flags ?fh = FlagMF"
    using conjunct2 [OF o] by (simp add: sample_header_def)
  ultimately show ?thesis using P by simp
qed

text \<open>
  The refusals: a packet that fits is returned as it is; otherwise a parse error
  is passed on, a packet with DF set is refused, and so is an MTU without room for the header
  and one block of 8 bytes.
\<close>

theorem Fragment_refusals:
  "(int (length packet) \<le> mtu \<longrightarrow> Fragment packet mtu = Some (Ok [packet]))
   \<and> (mtu < int (length packet) \<longrightarrow>
      (ParseHeader packet = Err e \<longrightarrow> Fragment packet mtu = Some (Err e))
      \<and> (ParseHeader packet = Ok h \<and> ip_Flags h AND FlagDF \<noteq> 0 \<longrightarrow>
         Fragment packet mtu = Some (Err ErrDontFragment))
      \<and> (ParseHeader packet = Ok h \<and> ip_Flags h AND FlagDF = 0 \<and> mtu < int (HeaderLen h) + 8 \<longrightarrow>
         Fragment packet mtu = Some (Err ErrMTUTooSmall)))"
  by (simp add: Fragment_def NeedsFragmentation_def)

theorem Fragment_refusals_witness:
  "Fragment sample_packet 40 = Some (Ok [sample_packet])
   \<and> Fragment [0x45] 0 = Some (Err ErrTooShort)
   \<and> Fragment (sample_packet[6 := 0x40]) 30 = Some (Err ErrDontFragment)
   \<and> Fragment sample_packet 27 = Some (Err ErrMTUTooSmall)"
proof (intro conjI)
  show "Fragment sample_packet 40 = Some (Ok [sample_packet])"
    using Fragment_refusals [of sample_packet 40] by (simp add: sample_facts)
  show "Fragment [0x45] 0 = Some (Err ErrTooShort)"
    using Fragment_refusals [of "[0x45]" 0 ErrTooShort]
    by (simp add: ParseHeader_def MinHeaderLen_def)
  have "ParseHeader (sample_packet[6 := 0x40]) = Ok (sample_header\<lparr>ip_Flags := 2\<rparr>)" by code_simp
  then show "Fragment (sample_packet[6 := 0x40]) 30 = Some (Err ErrDontFragment)"
    using Fragment_refusals [of "sample_packet[6 := 0x40]" 30 ErrTooShort "sample_header\<lparr>ip_Flags := 2\<rparr>"]
    by (simp add: sample_facts FlagDF_def)
  show "Fragment sample_packet 27 = Some (Err ErrMTUTooSmall)"
    using Fragment_refusals [of sample_packet 27 ErrTooShort sample_header] sample_parses
    by (simp add: sample_facts)
qed

text \<open>
  The parser accepts an IHL below 5, and \<open>Fragment\<close> then panics on every such
  packet that needs fragmentation: the header it copies is too short to be written.
\<close>

theorem Fragment_short_header_panics:
  assumes "ParseHeader packet = Ok h" "mtu < int (length packet)" "ip_Flags h AND FlagDF = 0"
    and "int (HeaderLen h) + 8 \<le> mtu" "unat (ip_IHL h) < 5"
  shows "Fragment packet mtu = Some Panic"
  using assms by (rule Fragment_short_header)

theorem Fragment_short_header_panics_witness:
  "Fragment (sample_packet[0 := 0x41]) 30 = Some Panic"
proof -
  have "ParseHeader (sample_packet[0 := 0x41]) = Ok (sample_header\<lparr>ip_IHL := 1\<rparr>)" by code_simp
  then show ?thesis
    by (rule Fragment_short_header_panics) (simp_all add: sample_facts HeaderLen_def)
qed

end
