(* ===== verification/Reassembly.thy ===== *)
theory Reassembly
  imports Fragmentation "HOL-Library.Multiset"
begin

text \<open>
  \<^verbatim>\<open>internal/ip/reassembly.go\<close>: the reassembly buffer. Its state is a map of fragment groups
  and the statistics; \<open>Add\<close> stores one fragment and delivers a packet when the group's byte
  count matches its length, \<open>cleanup\<close> drops groups older than 30 seconds. Go ranges over a map
  in an order of its own choosing, so the order of the copies in \<open>reassemble\<close> is an argument.
  The lemmas show an invariant of the buffer, the independence of groups, the round trip of
  the fragments of a packet in any order, and what hostile fragments can do.
\<close>

section \<open>The code\<close>

record reassembly_stats =
  rs_GroupsActive :: int
  rs_FragmentsAdded :: int
  rs_Reassembled :: int
  rs_Evicted :: int

record fragment_key =
  fk_src :: bytes
  fk_dst :: bytes
  fk_id :: "16 word"
  fk_proto :: byte

record fragment_group =
  fg_fragments :: "(16 word \<times> bytes) list"
  fg_totalLen :: int
  fg_received :: int
  fg_createdAt :: int

record reassembly_buffer =
  rb_groups :: "(fragment_key \<times> fragment_group) list"
  rb_stats :: reassembly_stats

definition NewReassemblyBuffer :: reassembly_buffer where
  "NewReassemblyBuffer = \<lparr>rb_groups = [], rb_stats =
     \<lparr>rs_GroupsActive = 0, rs_FragmentsAdded = 0, rs_Reassembled = 0, rs_Evicted = 0\<rparr>\<rparr>"

text \<open>The order in which one \<open>range\<close> over a fragment map visits its entries.\<close>

type_synonym range_order = "(16 word \<times> bytes) list \<Rightarrow> (16 word \<times> bytes) list"

definition is_range_order :: "range_order \<Rightarrow> bool" where
  "is_range_order ord \<longleftrightarrow> (\<forall>m. mset (ord m) = mset m)"

definition key_of :: "ip_header \<Rightarrow> fragment_key" where
  "key_of header =
     \<lparr>fk_src = ip4_field (ip_Src header), fk_dst = ip4_field (ip_Dst header),
      fk_id = ip_ID header, fk_proto = ip_Protocol header\<rparr>"

text \<open>
  The loop of \<open>reassemble\<close> that copies the payloads. A stored fragment that did not parse would
  be a nil header, whose use panics; so does a byte offset beyond the packet.
\<close>

fun copy_fragments :: "nat \<Rightarrow> (16 word \<times> bytes) list \<Rightarrow> bytes \<Rightarrow> (ip_error, bytes) outcome" where
  "copy_fragments headerLen [] fullPacket = Ok fullPacket"
| "copy_fragments headerLen ((offset, frag) # rest) fullPacket =
     (case ParseHeader frag of
        Ok fragHeader \<Rightarrow>
          obind (buf_copy_from (headerLen + unat offset * 8)
                   (slice_bytes (Payload fragHeader frag)) fullPacket)
            (copy_fragments headerLen rest)
      | _ \<Rightarrow> Panic)"

definition reassembled_header :: "ip_header \<Rightarrow> int \<Rightarrow> ip_header" where
  "reassembled_header header fullPacketLen =
     header\<lparr>ip_Flags := ip_Flags header AND NOT FlagMF, ip_FragOffset := 0,
            ip_TotalLen := of_int fullPacketLen\<rparr>"

definition reassemble :: "range_order \<Rightarrow> fragment_group \<Rightarrow> (ip_error, bytes) outcome" where
  "reassemble ord grp =
     (case map_get (fg_fragments grp) 0 of
        None \<Rightarrow> Err ErrInvalidFragment
      | Some firstFrag \<Rightarrow>
          obind (ParseHeader firstFrag) (\<lambda>header.
            let headerLen = HeaderLen header;
                fullPacketLen = int headerLen + fg_totalLen grp
            in if fullPacketLen < 0 then Panic
            else obind (seal_header (reassembled_header header fullPacketLen)) (\<lambda>headerBytes.
              obind (buf_copy_from 0 headerBytes (replicate (nat fullPacketLen) 0))
                (copy_fragments headerLen (ord (fg_fragments grp))))))"

definition new_group :: "int \<Rightarrow> fragment_group" where
  "new_group now = \<lparr>fg_fragments = [], fg_totalLen = -1, fg_received = 0, fg_createdAt = now\<rparr>"

text \<open>A fragment of an offset that is already stored is dropped.\<close>

definition store_fragment :: "ip_header \<Rightarrow> bytes \<Rightarrow> fragment_group \<Rightarrow> fragment_group" where
  "store_fragment header fragment grp =
     (let offset = ip_FragOffset header * 8;
          payloadLen = length (slice_bytes (Payload header fragment));
          grp = (if map_get (fg_fragments grp) (ip_FragOffset header) = None
                   then grp\<lparr>fg_fragments := map_put (ip_FragOffset header) fragment (fg_fragments grp),
                              fg_received := fg_received grp + int payloadLen\<rparr>
                   else grp);
          isLast = (ip_Flags header AND FlagMF = 0)
      in if isLast then grp\<lparr>fg_totalLen := int (unat offset) + int payloadLen\<rparr> else grp)"

definition is_fragment :: "ip_header \<Rightarrow> bool" where
  "is_fragment header \<longleftrightarrow> ip_Flags header AND FlagMF \<noteq> 0 \<or> ip_FragOffset header > 0"

definition group_complete :: "fragment_group \<Rightarrow> bool" where
  "group_complete grp \<longleftrightarrow> fg_totalLen grp > 0 \<and> fg_received grp = fg_totalLen grp"

text \<open>
  \<open>Add\<close> at the time \<open>now\<close>: the new buffer and the packets passed to \<open>onComplete\<close>, or the parse
  error, or the panic of the reassembly (which leaves the mutex locked).
\<close>

definition Add ::
  "range_order \<Rightarrow> int \<Rightarrow> bytes \<Rightarrow> reassembly_buffer \<Rightarrow>
   (ip_error, reassembly_buffer \<times> bytes list) outcome" where
  "Add ord now fragment b =
     (case ParseHeader fragment of
        Err e \<Rightarrow> Err e
      | Panic \<Rightarrow> Panic
      | Ok header \<Rightarrow>
        if \<not> is_fragment header then Ok (b, [fragment])
        else let key = key_of header;
                 old = map_get (rb_groups b) key;
                 stats = rb_stats b;
                 grp = (case old of Some g \<Rightarrow> g | None \<Rightarrow> new_group now);
                 stats = (case old of
                     Some _ \<Rightarrow> stats
                   | None \<Rightarrow> stats\<lparr>rs_GroupsActive := rs_GroupsActive stats + 1\<rparr>);
                 stats = (if map_get (fg_fragments grp) (ip_FragOffset header) = None
                   then stats\<lparr>rs_FragmentsAdded := rs_FragmentsAdded stats + 1\<rparr> else stats);
                 grp = store_fragment header fragment grp;
                 groups = map_put key grp (rb_groups b)
        in if group_complete grp then
             (let stats' = stats\<lparr>rs_GroupsActive := rs_GroupsActive stats - 1\<rparr>
              in case reassemble ord grp of
                Panic \<Rightarrow> Panic
              | Err e \<Rightarrow> Ok (\<lparr>rb_groups = map_del key groups, rb_stats = stats'\<rparr>, [])
              | Ok reassembled \<Rightarrow>
                  Ok (\<lparr>rb_groups = map_del key groups,
                       rb_stats = stats'\<lparr>rs_Reassembled := rs_Reassembled stats' + 1\<rparr>\<rparr>,
                      [reassembled]))
           else Ok (\<lparr>rb_groups = groups, rb_stats = stats\<rparr>, []))"

text \<open>The loop of \<open>cleanup\<close> over the entries of the group map; times are in nanoseconds.\<close>

definition group_timeout :: int where "group_timeout = 30 * 1000000000"

fun cleanup_loop ::
  "int \<Rightarrow> (fragment_key \<times> fragment_group) list \<Rightarrow> reassembly_buffer \<Rightarrow> reassembly_buffer" where
  "cleanup_loop now [] b = b"
| "cleanup_loop now ((key, grp) # rest) b =
     cleanup_loop now rest
       (if now - fg_createdAt grp > group_timeout
        then b\<lparr>rb_groups := map_del key (rb_groups b),
               rb_stats := (rb_stats b)\<lparr>rs_GroupsActive := rs_GroupsActive (rb_stats b) - 1,
                                        rs_Evicted := rs_Evicted (rb_stats b) + 1\<rparr>\<rparr>
        else b)"

definition cleanup :: "int \<Rightarrow> reassembly_buffer \<Rightarrow> reassembly_buffer" where
  "cleanup now b = cleanup_loop now (rb_groups b) b"

definition Stats :: "reassembly_buffer \<Rightarrow> reassembly_stats" where
  "Stats b = rb_stats b"

text \<open>A sequence of calls of \<open>Add\<close>, each with its own range order and time.\<close>

fun add_all ::
  "(range_order \<times> int \<times> bytes) list \<Rightarrow> reassembly_buffer \<Rightarrow>
   (ip_error, reassembly_buffer \<times> bytes list) outcome" where
  "add_all [] b = Ok (b, [])"
| "add_all ((ord, now, frag) # ops) b =
     obind (Add ord now frag b) (\<lambda>(b', out).
       obind (add_all ops b') (\<lambda>(b'', out'). Ok (b'', out @ out')))"

section \<open>The invariant of the buffer\<close>

text \<open>The payload bytes of a stored fragment.\<close>

definition frag_payload_len :: "bytes \<Rightarrow> nat" where
  "frag_payload_len frag =
     (case ParseHeader frag of Ok h \<Rightarrow> length (slice_bytes (Payload h frag)) | _ \<Rightarrow> 0)"

definition frags_inv :: "fragment_key \<Rightarrow> fragment_group \<Rightarrow> bool" where
  "frags_inv key g \<longleftrightarrow>
     map_ok (fg_fragments g)
     \<and> (\<forall>(off, frag) \<in> set (fg_fragments g). \<exists>h. ParseHeader frag = Ok h \<and> is_fragment h
          \<and> ip_FragOffset h = off \<and> key_of h = key)
     \<and> fg_received g = (\<Sum>(off, frag) \<leftarrow> fg_fragments g. int (frag_payload_len frag))
     \<and> fg_totalLen g \<ge> -1"

definition group_inv :: "fragment_key \<Rightarrow> fragment_group \<Rightarrow> bool" where
  "group_inv key g \<longleftrightarrow> frags_inv key g \<and> fg_fragments g \<noteq> [] \<and> \<not> group_complete g"

definition buffer_inv :: "reassembly_buffer \<Rightarrow> bool" where
  "buffer_inv b \<longleftrightarrow>
     map_ok (rb_groups b) \<and> rs_GroupsActive (rb_stats b) = int (length (rb_groups b))
     \<and> (\<forall>k g. map_get (rb_groups b) k = Some g \<longrightarrow> group_inv k g)"

lemma NewReassemblyBuffer_inv: "buffer_inv NewReassemblyBuffer"
  by (simp add: buffer_inv_def NewReassemblyBuffer_def)

lemma frags_inv_new: "frags_inv key (new_group now)"
  by (simp add: frags_inv_def new_group_def)

lemma map_put_nonempty: "map_put k v m \<noteq> []"
  by (cases m) (auto split: prod.splits)

lemma store_fragment_fragments:
  "fg_fragments (store_fragment h frag g) =
     (if map_get (fg_fragments g) (ip_FragOffset h) = None
      then fg_fragments g @ [(ip_FragOffset h, frag)] else fg_fragments g)"
  by (simp add: store_fragment_def Let_def map_put_new)

lemma store_fragment_received:
  "fg_received (store_fragment h frag g) =
     (if map_get (fg_fragments g) (ip_FragOffset h) = None
      then fg_received g + int (length (slice_bytes (Payload h frag))) else fg_received g)"
  by (simp add: store_fragment_def Let_def)

lemma store_fragment_totalLen:
  "fg_totalLen (store_fragment h frag g) =
     (if ip_Flags h AND FlagMF = 0
      then int (unat (ip_FragOffset h * 8)) + int (length (slice_bytes (Payload h frag)))
      else fg_totalLen g)"
  by (simp add: store_fragment_def Let_def)

lemma store_fragment_createdAt [simp]:
  "fg_createdAt (store_fragment h frag g) = fg_createdAt g"
  by (simp add: store_fragment_def Let_def)

lemma store_fragment_nonempty: "fg_fragments (store_fragment h frag g) \<noteq> []"
  by (auto simp: store_fragment_fragments)

lemma frags_inv_store:
  assumes "frags_inv (key_of h) g" "ParseHeader frag = Ok h" "is_fragment h"
  shows "frags_inv (key_of h) (store_fragment h frag g)"
proof -
  let ?g = "store_fragment h frag g" and ?off = "ip_FragOffset h"
  have "map_ok (fg_fragments ?g)"
    using assms(1) by (auto simp: frags_inv_def store_fragment_fragments map_of_eq_None_iff)
  moreover have "\<forall>(off, frag) \<in> set (fg_fragments ?g). \<exists>h'. ParseHeader frag = Ok h'
      \<and> is_fragment h' \<and> ip_FragOffset h' = off \<and> key_of h' = key_of h"
    using assms by (auto simp: frags_inv_def store_fragment_fragments)
  moreover have "fg_received ?g = (\<Sum>(off, frag) \<leftarrow> fg_fragments ?g. int (frag_payload_len frag))"
  proof (cases "map_get (fg_fragments g) ?off = None")
    case True
    then have "fg_fragments ?g = fg_fragments g @ [(?off, frag)]"
      "fg_received ?g = fg_received g + int (frag_payload_len frag)"
      using assms(2)
      unfolding store_fragment_fragments store_fragment_received frag_payload_len_def
      by (simp_all del: map_of_eq_None_iff)
    then show ?thesis using assms(1) by (simp add: frags_inv_def)
  next
    case False
    have "fg_fragments ?g = fg_fragments g" "fg_received ?g = fg_received g"
      by (simp_all only: store_fragment_fragments store_fragment_received False if_False)
    then show ?thesis using assms(1) by (simp add: frags_inv_def)
  qed
  moreover have "-1 \<le> fg_totalLen ?g"
  proof -
    have "-1 \<le> int k + int l" for k l by linarith
    moreover have "-1 \<le> fg_totalLen g" using assms(1) by (simp add: frags_inv_def)
    ultimately show ?thesis unfolding store_fragment_totalLen by (simp only: split: if_split) blast
  qed
  ultimately show ?thesis by (simp add: frags_inv_def)
qed

section \<open>One call of \<open>Add\<close>\<close>

text \<open>The group a fragment joins, and the buffer after storing it, before any reassembly.\<close>

definition joined :: "int \<Rightarrow> ip_header \<Rightarrow> bytes \<Rightarrow> reassembly_buffer \<Rightarrow> fragment_group" where
  "joined now h frag b = store_fragment h frag
     (case map_get (rb_groups b) (key_of h) of Some g \<Rightarrow> g | None \<Rightarrow> new_group now)"

definition joined_stats :: "ip_header \<Rightarrow> reassembly_buffer \<Rightarrow> reassembly_stats" where
  "joined_stats h b =
     (let s = rb_stats b;
          isNew = (case map_get (rb_groups b) (key_of h) of None \<Rightarrow> True
                   | Some g \<Rightarrow> map_get (fg_fragments g) (ip_FragOffset h) = None)
      in s\<lparr>rs_GroupsActive := rs_GroupsActive s +
             (if map_get (rb_groups b) (key_of h) = None then 1 else 0),
           rs_FragmentsAdded := rs_FragmentsAdded s + (if isNew then 1 else 0)\<rparr>)"

lemma Add_pass: "ParseHeader frag = Ok h \<Longrightarrow> \<not> is_fragment h \<Longrightarrow> Add ord now frag b = Ok (b, [frag])"
  by (simp add: Add_def)

lemma Add_store:
  assumes "ParseHeader frag = Ok h" "is_fragment h" "\<not> group_complete (joined now h frag b)"
  shows "Add ord now frag b =
    Ok (\<lparr>rb_groups = map_put (key_of h) (joined now h frag b) (rb_groups b),
         rb_stats = joined_stats h b\<rparr>, [])"
  using assms
  by (auto simp: Add_def joined_def joined_stats_def Let_def new_group_def split: option.splits)

lemma Add_complete:
  assumes "ParseHeader frag = Ok h" "is_fragment h" "group_complete (joined now h frag b)"
  shows "Add ord now frag b =
    (let s = joined_stats h b; s' = s\<lparr>rs_GroupsActive := rs_GroupsActive s - 1\<rparr>;
         gs = map_del (key_of h) (map_put (key_of h) (joined now h frag b) (rb_groups b))
     in case reassemble ord (joined now h frag b) of
          Panic \<Rightarrow> Panic
        | Err e \<Rightarrow> Ok (\<lparr>rb_groups = gs, rb_stats = s'\<rparr>, [])
        | Ok p \<Rightarrow> Ok (\<lparr>rb_groups = gs, rb_stats = s'\<lparr>rs_Reassembled := rs_Reassembled s' + 1\<rparr>\<rparr>, [p]))"
  using assms
  by (auto simp: Add_def joined_def joined_stats_def Let_def new_group_def
      split: option.splits outcome.splits)

lemma joined_frags_inv:
  assumes "buffer_inv b" "ParseHeader frag = Ok h" "is_fragment h"
  shows "frags_inv (key_of h) (joined now h frag b)"
  unfolding joined_def
proof (rule frags_inv_store [OF _ assms(2,3)])
  show "frags_inv (key_of h) (case map_get (rb_groups b) (key_of h) of
      None \<Rightarrow> new_group now | Some g \<Rightarrow> g)"
    using assms(1) by (auto simp: buffer_inv_def group_inv_def frags_inv_new split: option.splits)
qed

lemma joined_stats_active:
  assumes "buffer_inv b"
  shows "rs_GroupsActive (joined_stats h b) = int (length (map_put (key_of h) g (rb_groups b)))"
  using assms gm.length_put [of "rb_groups b" "key_of h" g]
  by (auto simp: buffer_inv_def joined_stats_def Let_def split: option.splits)

lemma length_map_del_put:
  "map_ok m \<Longrightarrow> Suc (length (map_del k (map_put k v m))) = length (map_put k v m)"
  by (rule gm.length_del) (auto simp: distinct_update update_conv')

lemma Add_inv:
  assumes "buffer_inv b" "Add ord now frag b = Ok (b', out)"
  shows "buffer_inv b'"
proof (cases "ParseHeader frag")
  case (Ok h)
  let ?m = "map_put (key_of h) (joined now h frag b) (rb_groups b)"
  have ok: "map_ok (rb_groups b)" using assms(1) by (simp add: buffer_inv_def)
  then have ok': "map_ok ?m" "map_ok (map_del (key_of h) ?m)"
    by (simp_all add: distinct_update distinct_delete)
  have len: "rs_GroupsActive (joined_stats h b) = int (length ?m)"
    "rs_GroupsActive (joined_stats h b) - 1 = int (length (map_del (key_of h) ?m))"
    using joined_stats_active [OF assms(1), of h "joined now h frag b"]
      length_map_del_put [OF ok, of "key_of h" "joined now h frag b"] by simp_all
  have old: "map_get (rb_groups b) k = Some g \<Longrightarrow> group_inv k g" for k g
    using assms(1) by (simp add: buffer_inv_def)
  consider "\<not> is_fragment h" | "is_fragment h" "\<not> group_complete (joined now h frag b)"
    | "is_fragment h" "group_complete (joined now h frag b)" by blast
  then show ?thesis
  proof cases
    case 1
    then show ?thesis using assms Add_pass [OF Ok] by simp
  next
    case 2
    have "group_inv (key_of h) (joined now h frag b)"
      using joined_frags_inv [OF assms(1) Ok 2(1)] 2(2) store_fragment_nonempty
      by (simp add: group_inv_def joined_def)
    then show ?thesis
      using assms(2) Add_store [OF Ok 2] ok' len old
      by (auto simp: buffer_inv_def update_conv' split: if_splits)
  next
    case 3
    have "map_get (map_del (key_of h) ?m) k = Some g \<Longrightarrow> group_inv k g" for k g
      using old by (auto simp: update_conv' delete_conv' split: if_splits)
    then show ?thesis
      using assms(2) ok'(2) len(2)
      by (auto simp: Add_complete [OF Ok 3] Let_def buffer_inv_def split: outcome.splits)
  qed
qed (use assms in \<open>auto simp: Add_def\<close>)


section \<open>Eviction\<close>

definition expired :: "int \<Rightarrow> fragment_group \<Rightarrow> bool" where
  "expired now g \<longleftrightarrow> now - fg_createdAt g > group_timeout"

lemma cleanup_loop_eq:
  "cleanup_loop now es b =
    (let dead = filter (\<lambda>e. expired now (snd e)) es
     in \<lparr>rb_groups = filter (\<lambda>e. fst e \<notin> fst ` set dead) (rb_groups b),
         rb_stats = (rb_stats b)\<lparr>
           rs_GroupsActive := rs_GroupsActive (rb_stats b) - int (length dead),
           rs_Evicted := rs_Evicted (rb_stats b) + int (length dead)\<rparr>\<rparr>)"
proof (induction es arbitrary: b)
  case Nil
  then show ?case by simp
next
  case (Cons e es)
  obtain k g where e: "e = (k, g)" by (cases e)
  have f: "filter (\<lambda>e. fst e \<notin> S) (map_del k xs) = filter (\<lambda>e. fst e \<noteq> k \<and> fst e \<notin> S) xs"
    for S and xs :: "(fragment_key \<times> fragment_group) list"
    by (simp add: AList.delete_eq case_prod_beta eq_commute)
  show ?case
    by (simp add: e Cons Let_def expired_def [symmetric] f)
qed

lemma cleanup_eq:
  assumes "map_ok (rb_groups b)"
  shows "cleanup now b =
    (let dead = filter (\<lambda>e. expired now (snd e)) (rb_groups b)
     in \<lparr>rb_groups = filter (\<lambda>e. \<not> expired now (snd e)) (rb_groups b),
         rb_stats = (rb_stats b)\<lparr>
           rs_GroupsActive := rs_GroupsActive (rb_stats b) - int (length dead),
           rs_Evicted := rs_Evicted (rb_stats b) + int (length dead)\<rparr>\<rparr>)"
proof -
  have "k \<notin> fst ` set (filter (\<lambda>e. expired now (snd e)) (rb_groups b)) \<longleftrightarrow> \<not> expired now g"
    if "(k, g) \<in> set (rb_groups b)" for k g
  proof
    assume "k \<notin> fst ` set (filter (\<lambda>e. expired now (snd e)) (rb_groups b))"
    then show "\<not> expired now g" using that by (force simp: image_iff)
  next
    assume n: "\<not> expired now g"
    show "k \<notin> fst ` set (filter (\<lambda>e. expired now (snd e)) (rb_groups b))"
    proof
      assume "k \<in> fst ` set (filter (\<lambda>e. expired now (snd e)) (rb_groups b))"
      then obtain g' where g': "(k, g') \<in> set (rb_groups b)" "expired now g'" by auto
      then have "g' = g" using eq_key_imp_eq_value [OF assms g'(1) that] by simp
      then show False using n g'(2) by simp
    qed
  qed
  then have "filter (\<lambda>e. fst e \<notin> fst ` set (filter (\<lambda>e. expired now (snd e)) (rb_groups b))) (rb_groups b)
      = filter (\<lambda>e. \<not> expired now (snd e)) (rb_groups b)"
    by (intro filter_cong) auto
  then show ?thesis by (simp add: cleanup_def cleanup_loop_eq Let_def)
qed

lemma cleanup_inv:
  assumes "buffer_inv b"
  shows "buffer_inv (cleanup now b)"
proof -
  let ?gs = "rb_groups b"
  have ok: "map_ok ?gs" using assms by (simp add: buffer_inv_def)
  have d: "map_ok (filter P ?gs)" for P using ok by (rule distinct_map_filter)
  have "length (filter (\<lambda>e. expired now (snd e)) ?gs) + length (filter (\<lambda>e. \<not> expired now (snd e)) ?gs)
      = length ?gs"
    using sum_length_filter_compl [of "\<lambda>e. expired now (snd e)" ?gs] by simp
  moreover have "group_inv k g" if "map_get (filter P ?gs) k = Some g" for P k g
    using that assms gm.get_entries_iff [OF d, of P k g] gm.get_entries_iff [OF ok, of k g]
    by (auto simp: buffer_inv_def)
  ultimately show ?thesis
    using assms d by (auto simp: cleanup_eq [OF ok] Let_def buffer_inv_def)
qed

section \<open>The reassembly of a complete group\<close>

lemma copy_fragments_Panic_iff:
  assumes "\<forall>(off, frag) \<in> set es. \<exists>h. ParseHeader frag = Ok h"
  shows "copy_fragments hl es buf = Panic \<longleftrightarrow> (\<exists>(off, frag) \<in> set es. length buf < hl + unat off * 8)"
  using assms
proof (induction es arbitrary: buf)
  case (Cons e es)
  obtain off frag where e: "e = (off, frag)" by (cases e)
  obtain h where h: "ParseHeader frag = Ok h" using Cons.prems e by auto
  have IH: "copy_fragments hl es buf' = Panic \<longleftrightarrow>
      (\<exists>(off, frag) \<in> set es. length buf' < hl + unat off * 8)" for buf'
    using Cons by simp
  show ?case
  proof (cases "buf_copy_from (hl + unat off * 8) (slice_bytes (Payload h frag)) buf :: (ip_error, bytes) outcome")
    case (Ok buf')
    then have "length buf' = length buf" by (rule buf_copy_from_length)
    moreover have "(buf_copy_from (hl + unat off * 8) (slice_bytes (Payload h frag)) buf
        :: (ip_error, bytes) outcome) \<noteq> Panic" using Ok by simp
    then have "\<not> length buf < hl + unat off * 8" by (simp only: buf_copy_from_Panic_iff not_False_eq_True)
    ultimately show ?thesis by (simp add: e h Ok IH)
  next
    case (Err err)
    then show ?thesis by (simp add: buf_copy_from_def buf_copy_def split: if_splits)
  next
    case Panic
    then have "length buf < hl + unat off * 8" by (simp only: buf_copy_from_Panic_iff)
    then show ?thesis using Panic by (simp add: e h)
  qed
qed simp

lemma copy_fragments_no_Err: "copy_fragments hl es buf \<noteq> Err e"
proof (induction es arbitrary: buf)
  case (Cons x es)
  then show ?case
    by (cases x) (auto simp: obind_Err_iff buf_copy_from_def buf_copy_def split: outcome.splits if_splits)
qed simp

lemma copy_fragments_length: "copy_fragments hl es buf = Ok buf' \<Longrightarrow> length buf' = length buf"
proof (induction es arbitrary: buf)
  case (Cons x es)
  then show ?case
    by (cases x) (auto simp: obind_Ok_iff dest: buf_copy_from_length split: outcome.splits)
qed simp

lemma range_order_set: "is_range_order ord \<Longrightarrow> set (ord m) = set m"
  unfolding is_range_order_def by (metis set_mset_mset)

text \<open>
  When \<open>reassemble\<close> panics: the first fragment's header is too short to be written, or some
  stored fragment starts behind the end the last fragment announced.
\<close>

lemma reassembled_header_HeaderLen [simp]: "HeaderLen (reassembled_header h n) = HeaderLen h"
  by (simp add: reassembled_header_def HeaderLen_def)

lemma reassemble_Panic_iff:
  assumes "frags_inv key g" "group_complete g" "is_range_order ord"
    and "map_get (fg_fragments g) 0 = Some first" "ParseHeader first = Ok h"
  shows "reassemble ord g = Panic \<longleftrightarrow>
    unat (ip_IHL h) < 5 \<or> (\<exists>(off, frag) \<in> set (fg_fragments g). fg_totalLen g < int (unat off * 8))"
proof (cases "unat (ip_IHL h) < 5")
  case True
  let ?h = "reassembled_header h (int (HeaderLen h) + fg_totalLen g)\<lparr>ip_Checksum := 0\<rparr>"
  have "Marshal ?h = Panic"
    using True ParseHeader_OkD(8,9) [OF assms(5)]
    by (intro Marshal_short_panics) (simp_all add: reassembled_header_def HeaderLen_def)
  then show ?thesis
    using True assms(4,5) by (simp add: reassemble_def Let_def seal_header_def)
next
  case False
  then have l: "20 \<le> HeaderLen h" by (simp add: HeaderLen_def)
  have t: "0 < fg_totalLen g" using assms(2) by (simp add: group_complete_def)
  let ?n = "nat (int (HeaderLen h) + fg_totalLen g)"
  let ?hb = "header_bytes (sealed (reassembled_header h (int (HeaderLen h) + fg_totalLen g)))"
  obtain buf where buf: "(buf_copy_from 0 ?hb (replicate ?n 0) :: (ip_error, bytes) outcome) = Ok buf"
    by (simp add: buf_copy_from_def buf_copy_def)
  have len: "length buf = ?n" using buf_copy_from_length [OF buf] by simp
  have ps: "\<forall>(off, frag) \<in> set (ord (fg_fragments g)). \<exists>h. ParseHeader frag = Ok h"
    using assms(1) range_order_set [OF assms(3)] by (fastforce simp: frags_inv_def)
  have "reassemble ord g = copy_fragments (HeaderLen h) (ord (fg_fragments g)) buf"
    using t l by (simp add: reassemble_def assms(4,5) Let_def seal_header_eq buf)
  then have "reassemble ord g = Panic \<longleftrightarrow>
      (\<exists>(off, frag) \<in> set (fg_fragments g). ?n < HeaderLen h + unat off * 8)"
    by (simp add: copy_fragments_Panic_iff [OF ps] len range_order_set [OF assms(3)])
  moreover have "?n < HeaderLen h + unat off * 8 \<longleftrightarrow> fg_totalLen g < int (unat off * 8)" for off :: "16 word"
    using t by linarith
  ultimately show ?thesis using False by simp
qed

lemma reassemble_no_first: "map_get (fg_fragments g) 0 = None \<Longrightarrow> reassemble ord g = Err ErrInvalidFragment"
  by (simp add: reassemble_def)

section \<open>The fragments of one packet, in any order\<close>

text \<open>
  The setting of the round trip: an unfragmented packet with header \<open>h\<close> and a correct checksum,
  cut in \<open>n\<close> blocks of \<open>m\<close> bytes.
\<close>

definition trip_setting :: "ip_header \<Rightarrow> bytes \<Rightarrow> nat \<Rightarrow> nat \<Rightarrow> bool" where
  "trip_setting h payload m n \<longleftrightarrow>
     frag_setting h (length payload) m \<and> n = n_blocks (length payload) m \<and> 2 \<le> n
     \<and> ip_FragOffset h = 0 \<and> ip_Flags h AND FlagMF = 0 \<and> sealed h = h
     \<and> unat (ip_TotalLen h) = HeaderLen h + length payload"

definition frag_off :: "nat \<Rightarrow> nat \<Rightarrow> 16 word" where
  "frag_off m i = of_nat (i * m div 8)"

definition entries_of :: "ip_header \<Rightarrow> bytes \<Rightarrow> nat \<Rightarrow> nat list \<Rightarrow> (16 word \<times> bytes) list" where
  "entries_of h payload m js = map (\<lambda>i. (frag_off m i, frag_at h payload m i)) js"

text \<open>The group after the fragments \<open>js\<close> have arrived in this order.\<close>

definition group_of :: "ip_header \<Rightarrow> bytes \<Rightarrow> nat \<Rightarrow> nat \<Rightarrow> int \<Rightarrow> nat list \<Rightarrow> fragment_group" where
  "group_of h payload m n t js =
     \<lparr>fg_fragments = entries_of h payload m js,
      fg_totalLen = (if n - 1 \<in> set js then int (length payload) else -1),
      fg_received = (\<Sum>i \<leftarrow> js. int (length (frag_payload payload m i))),
      fg_createdAt = t\<rparr>"

lemma trip_frag_off:
  assumes "trip_setting h payload m n" "i < n"
  shows "unat (frag_off m i) * 8 = i * m"
    and "ip_FragOffset (frag_at_header h (length payload) m i) = frag_off m i"
    and "unat (frag_off m i * 8) = i * m"
proof -
  have s: "frag_setting h (length payload) m" and i: "i < n_blocks (length payload) m"
    and z: "ip_FragOffset h = 0" using assms by (simp_all add: trip_setting_def)
  show o: "ip_FragOffset (frag_at_header h (length payload) m i) = frag_off m i"
    by (simp add: frag_at_header_def frag_header_def frag_off_def z)
  show u: "unat (frag_off m i) * 8 = i * m"
    using frag_offset(3) [OF s i] by (simp only: o) (simp add: z)
  have "i * m < length payload" using i s by (simp add: frag_setting_def less_n_blocks)
  moreover have "length payload \<le> 65536" using s by (simp add: frag_setting_def)
  ultimately have "unat (frag_off m i) * 8 < 65536" using u by simp
  then show "unat (frag_off m i * 8) = i * m" using u by (simp add: unat_word_ariths)
qed

lemma trip_pos: "trip_setting h payload m n \<Longrightarrow> 0 < m"
  by (auto simp: trip_setting_def dest: frag_setting_pos)

lemma frag_off_inj:
  assumes "trip_setting h payload m n" "i < n" "j < n" "frag_off m i = frag_off m j"
  shows "i = j"
proof -
  have "i * m = j * m" using trip_frag_off(1) [OF assms(1)] assms(2-4) by metis
  then show ?thesis using trip_pos [OF assms(1)] by simp
qed

lemma trip_parses:
  assumes "trip_setting h payload m n" "i < n"
  shows "ParseHeader (frag_at h payload m i) = Ok (frag_at_header h (length payload) m i)"
    and "slice_bytes (Payload (frag_at_header h (length payload) m i) (frag_at h payload m i))
      = frag_payload payload m i"
  using assms frag_at_parses(1,2) [of h payload m i]
  by (simp_all add: trip_setting_def slice_bytes_Payload)

lemma trip_key [simp]: "key_of (frag_at_header h n m i) = key_of h"
  by (simp add: key_of_def)

lemma trip_is_fragment:
  assumes "trip_setting h payload m n" "i < n"
  shows "is_fragment (frag_at_header h (length payload) m i)"
    and "ip_Flags (frag_at_header h (length payload) m i) AND FlagMF = 0 \<longleftrightarrow> Suc i = n"
proof -
  have s: "frag_setting h (length payload) m" and n: "n = n_blocks (length payload) m" "2 \<le> n"
    and f: "ip_Flags h AND FlagMF = 0"
    using assms by (simp_all add: trip_setting_def)
  have "unat (ip_Flags h) < 8" using s by (simp add: frag_setting_def header_wf_def)
  note MF = flags_MF(2) [OF this]
  show F: "ip_Flags (frag_at_header h (length payload) m i) AND FlagMF = 0 \<longleftrightarrow> Suc i = n"
    using MF f n(1) by simp
  have "frag_off m i \<noteq> 0" if "Suc i = n"
  proof
    assume "frag_off m i = 0"
    then have "i * m = 0" using trip_frag_off(1) [OF assms] by simp
    then show False using that n(2) trip_pos [OF assms(1)] by simp
  qed
  then show "is_fragment (frag_at_header h (length payload) m i)"
    using F trip_frag_off(2) [OF assms] by (auto simp: is_fragment_def word_neq_0_conv)
qed

lemma map_get_entries:
  assumes "trip_setting h payload m n" "set js \<subseteq> {..<n}" "i < n"
  shows "map_get (entries_of h payload m js) (frag_off m i) =
    (if i \<in> set js then Some (frag_at h payload m i) else None)"
  using assms(2)
proof (induction js)
  case (Cons j js)
  then show ?case
    using frag_off_inj [OF assms(1,3), of j] by (auto simp: entries_of_def)
qed (simp add: entries_of_def)

lemma trip_last_len:
  assumes "trip_setting h payload m n"
  shows "(n - 1) * m + length (frag_payload payload m (n - 1)) = length payload"
proof -
  have n: "n - 1 < n_blocks (length payload) m" "Suc (n - 1) = n_blocks (length payload) m"
    using assms by (auto simp: trip_setting_def)
  have "length payload - (n - 1) * m \<le> m"
    using n_blocks_last [OF trip_pos [OF assms] n(1)] n(2) by simp
  moreover have "(n - 1) * m < length payload"
    using n(1) by (simp add: less_n_blocks trip_pos [OF assms])
  ultimately show ?thesis by (simp add: frag_payload_def)
qed

lemma store_group_of:
  assumes "trip_setting h payload m n" "set js \<subseteq> {..<n}" "i < n" "i \<notin> set js"
  shows "store_fragment (frag_at_header h (length payload) m i) (frag_at h payload m i)
      (group_of h payload m n t js) = group_of h payload m n t (js @ [i])"
proof -
  have last: "int (unat (frag_off m i * 8)) + int (length (frag_payload payload m i)) = int (length payload)"
    if "Suc i = n"
  proof -
    have "i * m + length (frag_payload payload m i) = length payload"
      using that trip_last_len [OF assms(1)] by auto
    then show ?thesis unfolding trip_frag_off(3) [OF assms(1,3)] by linarith
  qed
  have none: "map_get (entries_of h payload m js) (frag_off m i) = None"
    using map_get_entries [OF assms(1-3)] assms(4) by simp
  show ?thesis
  proof (rule fragment_group.equality)
    show "fg_fragments (store_fragment (frag_at_header h (length payload) m i) (frag_at h payload m i)
        (group_of h payload m n t js)) = fg_fragments (group_of h payload m n t (js @ [i]))"
      unfolding store_fragment_fragments
      by (simp only: group_of_def fragment_group.select_convs trip_frag_off(2) [OF assms(1,3)] none
          simp_thms if_True) (simp add: entries_of_def)
    show "fg_received (store_fragment (frag_at_header h (length payload) m i) (frag_at h payload m i)
        (group_of h payload m n t js)) = fg_received (group_of h payload m n t (js @ [i]))"
      unfolding store_fragment_received trip_parses(2) [OF assms(1,3)]
      by (simp only: group_of_def fragment_group.select_convs trip_frag_off(2) [OF assms(1,3)] none
          simp_thms if_True) simp
    have "n - 1 = i \<longleftrightarrow> Suc i = n" using assms(3) by auto
    then show "fg_totalLen (store_fragment (frag_at_header h (length payload) m i) (frag_at h payload m i)
        (group_of h payload m n t js)) = fg_totalLen (group_of h payload m n t (js @ [i]))"
      unfolding store_fragment_totalLen trip_parses(2) [OF assms(1,3)] trip_frag_off(2) [OF assms(1,3)]
        trip_is_fragment(2) [OF assms(1,3)]
      using last by (auto simp: group_of_def)
  qed (simp_all add: group_of_def)
qed

lemma group_complete_of:
  assumes "trip_setting h payload m n" "distinct js" "set js \<subseteq> {..<n}"
  shows "group_complete (group_of h payload m n t js) \<longleftrightarrow> set js = {..<n}"
proof -
  let ?len = "\<lambda>i. length (frag_payload payload m i)"
  have n: "n = n_blocks (length payload) m" "2 \<le> n" using assms(1) by (simp_all add: trip_setting_def)
  have pos: "0 < ?len i" if "i < n" for i
    using frag_chunk_pos [OF trip_pos [OF assms(1)], of i "length payload"] that n(1)
    by (simp add: frag_chunk_len)
  have "length payload = length (concat (map (frag_payload payload m) [0..<n]))"
    using concat_frag_payload [OF trip_pos [OF assms(1)]] n(1) by simp
  also have "\<dots> = sum_list (map ?len [0..<n])" by (simp add: length_concat comp_def)
  also have "\<dots> = (\<Sum>i<n. ?len i)" by (simp add: sum_list_distinct_conv_sum_set atLeast0LessThan)
  finally have all: "(\<Sum>i<n. ?len i) = length payload" by simp
  have part: "(\<Sum>i \<leftarrow> js. int (?len i)) = int (\<Sum>i \<in> set js. ?len i)"
    using assms(2) by (simp add: sum_list_distinct_conv_sum_set)
  show ?thesis
  proof
    assume "set js = {..<n}"
    moreover have "0 < length payload"
      using less_n_blocks [OF trip_pos [OF assms(1)], of 0 "length payload"] n by simp
    ultimately show "group_complete (group_of h payload m n t js)"
      using part all n(2) by (simp add: group_complete_def group_of_def)
  next
    assume c: "group_complete (group_of h payload m n t js)"
    show "set js = {..<n}"
    proof (rule ccontr)
      assume "set js \<noteq> {..<n}"
      then obtain k where k: "k < n" "k \<notin> set js" using assms(3) by blast
      have "(\<Sum>i \<in> set js. ?len i) < (\<Sum>i<n. ?len i)"
        using k pos by (intro sum_strict_mono2 [OF _ assms(3), of k]) auto
      moreover have "int (\<Sum>i \<in> set js. ?len i) = int (length payload)"
        using c unfolding group_complete_def group_of_def part by (simp split: if_splits)
      ultimately show False using all by linarith
    qed
  qed
qed

text \<open>The copies: every block lands at its place, whatever the order.\<close>

lemma copy_block:
  assumes "trip_setting h payload m n" "i < n" "length hdr = hl" "length buf = length payload"
  obtains buf' where "(buf_copy_from (hl + unat (frag_off m i) * 8) (frag_payload payload m i) (hdr @ buf)
      :: (ip_error, bytes) outcome) = Ok (hdr @ buf')"
    and "length buf' = length payload"
    and "\<And>p. p < length payload \<Longrightarrow> buf' ! p = (if p div m = i then payload ! p else buf ! p)"
proof
  have m: "0 < m" using assms(1) by (rule trip_pos)
  have im: "i * m < length payload" using assms(1,2) by (auto simp: trip_setting_def less_n_blocks m)
  let ?b = "take (i * m) buf @ frag_payload payload m i @ drop (i * m + length (frag_payload payload m i)) buf"
  show "(buf_copy_from (hl + unat (frag_off m i) * 8) (frag_payload payload m i) (hdr @ buf)
      :: (ip_error, bytes) outcome) = Ok (hdr @ ?b)"
    using im assms(3,4)
    by (simp add: buf_copy_from_def buf_copy_def trip_frag_off(1) [OF assms(1,2)] frag_payload_def min_def)
  show "length ?b = length payload" using im assms(4) by (auto simp: frag_payload_def min_def)
  fix p assume p: "p < length payload"
  have "p div m = i \<longleftrightarrow> i * m \<le> p \<and> p < i * m + m"
  proof
    assume "p div m = i"
    then show "i * m \<le> p \<and> p < i * m + m"
      using div_times_less_eq_dividend [of p m] dividend_less_div_times [OF m, of p]
      by (auto simp: add.commute)
  next
    assume "i * m \<le> p \<and> p < i * m + m"
    then show "p div m = i" by (intro div_nat_eqI) (simp_all add: mult.commute)
  qed
  then show "?b ! p = (if p div m = i then payload ! p else buf ! p)"
    using p im assms(4)
    by (auto simp: nth_append frag_payload_def min_def not_less)
qed

lemma copy_entries:
  assumes "trip_setting h payload m n" "length hdr = hl"
    and "set es \<subseteq> set (entries_of h payload m [0..<n])" "length buf = length payload"
  shows "\<exists>buf'. copy_fragments hl es (hdr @ buf) = Ok (hdr @ buf') \<and> length buf' = length payload
    \<and> (\<forall>p < length payload. buf' ! p =
        (if (frag_off m (p div m), frag_at h payload m (p div m)) \<in> set es then payload ! p else buf ! p))"
  using assms(3,4)
proof (induction es arbitrary: buf)
  case (Cons e es)
  obtain i where i: "i < n" and e: "e = (frag_off m i, frag_at h payload m i)"
    using Cons.prems(1) by (auto simp: entries_of_def)
  obtain b where b: "(buf_copy_from (hl + unat (frag_off m i) * 8) (frag_payload payload m i) (hdr @ buf)
      :: (ip_error, bytes) outcome) = Ok (hdr @ b)" "length b = length payload"
    and bp: "\<And>p. p < length payload \<Longrightarrow> b ! p = (if p div m = i then payload ! p else buf ! p)"
    using copy_block [OF assms(1) i assms(2) Cons.prems(2)] by metis
  obtain buf' where IH: "copy_fragments hl es (hdr @ b) = Ok (hdr @ buf')" "length buf' = length payload"
    "\<And>p. p < length payload \<Longrightarrow> buf' ! p =
      (if (frag_off m (p div m), frag_at h payload m (p div m)) \<in> set es then payload ! p else b ! p)"
    using Cons.IH [OF _ b(2)] Cons.prems(1) by auto
  have "p div m < n" if "p < length payload" for p
    using that assms(1) trip_pos [OF assms(1)]
    by (simp add: trip_setting_def less_n_blocks le_less_trans [OF div_times_less_eq_dividend])
  then have "(frag_off m (p div m), frag_at h payload m (p div m)) = e \<longleftrightarrow> p div m = i"
    if "p < length payload" for p
    using frag_off_inj [OF assms(1) _ i] that by (auto simp: e)
  then show ?case
    using IH bp b(1) by (auto simp: e trip_parses [OF assms(1) i])
qed simp

lemma trip_header:
  assumes "trip_setting h payload m n"
  shows "sealed (reassembled_header (frag_at_header h (length payload) m 0)
      (int (HeaderLen h) + int (length payload))) = h"
proof -
  let ?f = "frag_at_header h (length payload) m 0"
  let ?r = "reassembled_header ?f (int (HeaderLen h) + int (length payload))"
  have z: "ip_FragOffset h = 0" "ip_Flags h AND FlagMF = 0" "sealed h = h"
    and T: "unat (ip_TotalLen h) = HeaderLen h + length payload"
    and wf: "unat (ip_Flags h) < 8"
    using assms by (simp_all add: trip_setting_def frag_setting_def header_wf_def)
  have "(of_nat (HeaderLen h + length payload) :: 16 word) = ip_TotalLen h"
    by (simp only: T [symmetric] of_nat_unat ucast_id)
  then have tl: "(of_nat (HeaderLen h) + of_nat (length payload) :: 16 word) = ip_TotalLen h"
    by (simp only: of_nat_add)
  have fl: "(ip_Flags h OR FlagMF) AND NOT FlagMF = ip_Flags h" "ip_Flags h AND NOT FlagMF = ip_Flags h"
    using wf z(2) by (auto simp: FlagMF_def elim!: flags_cases)
  have "?r = h\<lparr>ip_Checksum := ip_Checksum ?f\<rparr>"
    by (rule ip_header.equality)
      (simp_all add: reassembled_header_def tl fl z, simp_all add: frag_at_header_def frag_header_def)
  then have "sealed ?r = sealed h" by (simp add: sealed_def)
  then show ?thesis by (simp add: z)
qed

lemma reassemble_trip:
  assumes "trip_setting h payload m n" "set js = {..<n}" "is_range_order ord"
  shows "reassemble ord (group_of h payload m n t js) = Ok (header_bytes h @ payload)"
proof -
  let ?g = "group_of h payload m n t js" and ?f = "frag_at_header h (length payload) m 0"
  have s: "frag_setting h (length payload) m" and n: "2 \<le> n" "n = n_blocks (length payload) m"
    using assms(1) by (simp_all add: trip_setting_def)
  have n0: "0 < n" using n by simp
  have hl: "20 \<le> HeaderLen h" using s header_wf_HeaderLen by (simp add: frag_setting_def)
  have first: "map_get (fg_fragments ?g) 0 = Some (frag_at h payload m 0)"
    using map_get_entries [OF assms(1), of js 0] assms(2) n0 by (simp add: group_of_def frag_off_def)
  have tot: "fg_totalLen ?g = int (length payload)" using assms(2) n by (simp add: group_of_def)
  have seal: "seal_header (reassembled_header ?f (int (HeaderLen h) + int (length payload)))
      = Ok (header_bytes h)"
    using hl by (simp add: seal_header_eq trip_header [OF assms(1)])
  have l: "length (header_bytes h) = HeaderLen h" using hl by simp
  have c: "(buf_copy_from 0 (header_bytes h) (replicate (HeaderLen h + length payload) 0)
      :: (ip_error, bytes) outcome) = Ok (header_bytes h @ replicate (length payload) 0)"
    by (simp add: buf_copy_from_def buf_copy_def l)
  have es: "set (ord (fg_fragments ?g)) = set (entries_of h payload m [0..<n])"
    using range_order_set [OF assms(3)] assms(2) by (auto simp: group_of_def entries_of_def)
  obtain buf' where b: "copy_fragments (HeaderLen h) (ord (fg_fragments ?g))
      (header_bytes h @ replicate (length payload) 0) = Ok (header_bytes h @ buf')"
    "length buf' = length payload" and bp: "\<forall>p < length payload. buf' ! p =
      (if (frag_off m (p div m), frag_at h payload m (p div m)) \<in> set (ord (fg_fragments ?g))
       then payload ! p else replicate (length payload) 0 ! p)"
    using copy_entries [OF assms(1) l, of "ord (fg_fragments ?g)" "replicate (length payload) 0"] es
    by auto
  have "p div m < n" if "p < length payload" for p
    using that n trip_pos [OF assms(1)]
    by (simp add: less_n_blocks le_less_trans [OF div_times_less_eq_dividend])
  then have "buf' = payload"
    using bp b(2) unfolding es by (intro nth_equalityI) (auto simp: entries_of_def)
  moreover have "nat (int (HeaderLen h) + int (length payload)) = HeaderLen h + length payload"
    by simp
  ultimately show ?thesis
    using b(1) c seal
    by (simp add: reassemble_def first trip_parses(1) [OF assms(1) n0] Let_def tot)
qed

text \<open>The buffer after the fragments \<open>js\<close>, on top of a buffer without their key.\<close>

definition trip_buffer ::
  "reassembly_buffer \<Rightarrow> ip_header \<Rightarrow> bytes \<Rightarrow> nat \<Rightarrow> nat \<Rightarrow> int \<Rightarrow> nat list \<Rightarrow> reassembly_buffer" where
  "trip_buffer b h payload m n t js =
     (if js = [] then b
      else \<lparr>rb_groups = rb_groups b @ [(key_of h, group_of h payload m n t js)],
            rb_stats = (rb_stats b)\<lparr>
              rs_GroupsActive := rs_GroupsActive (rb_stats b) + 1,
              rs_FragmentsAdded := rs_FragmentsAdded (rb_stats b) + int (length js)\<rparr>\<rparr>)"

lemma trip_joined:
  fixes now t :: int
  assumes "trip_setting h payload m n" "set js \<subseteq> {..<n}" "i < n" "i \<notin> set js"
    and "map_get (rb_groups b) (key_of h) = None"
  defines "t' \<equiv> if js = [] then now else t"
  shows "joined now (frag_at_header h (length payload) m i) (frag_at h payload m i)
      (trip_buffer b h payload m n t js) = group_of h payload m n t' (js @ [i])"
    and "map_put (key_of h) (group_of h payload m n t' (js @ [i])) (rb_groups (trip_buffer b h payload m n t js))
      = rb_groups b @ [(key_of h, group_of h payload m n t' (js @ [i]))]"
    and "joined_stats (frag_at_header h (length payload) m i) (trip_buffer b h payload m n t js)
      = rb_stats (trip_buffer b h payload m n t' (js @ [i]))"
proof -
  have new: "new_group now = group_of h payload m n now []"
    using assms(1) by (simp add: new_group_def group_of_def entries_of_def)
  have g: "(case map_get (rb_groups (trip_buffer b h payload m n t js)) (key_of h) of
      None \<Rightarrow> new_group now | Some g \<Rightarrow> g) = group_of h payload m n t' js"
    using assms(5) by (simp add: trip_buffer_def t'_def new map_get_last del: map_of_append)
  show "joined now (frag_at_header h (length payload) m i) (frag_at h payload m i)
      (trip_buffer b h payload m n t js) = group_of h payload m n t' (js @ [i])"
    unfolding joined_def trip_key g by (rule store_group_of [OF assms(1-4)])
  show "map_put (key_of h) (group_of h payload m n t' (js @ [i])) (rb_groups (trip_buffer b h payload m n t js))
      = rb_groups b @ [(key_of h, group_of h payload m n t' (js @ [i]))]"
    using assms(5) by (simp add: trip_buffer_def map_put_new map_put_last)
  have "map_get (fg_fragments (group_of h payload m n t js))
      (ip_FragOffset (frag_at_header h (length payload) m i)) = None"
    using map_get_entries [OF assms(1-3)] assms(4) trip_frag_off(2) [OF assms(1,3)]
    by (simp add: group_of_def)
  then show "joined_stats (frag_at_header h (length payload) m i) (trip_buffer b h payload m n t js)
      = rb_stats (trip_buffer b h payload m n t' (js @ [i]))"
    using assms(5)
    by (simp add: joined_stats_def Let_def trip_buffer_def map_get_last del: map_of_append)
qed

lemma trip_step:
  assumes "trip_setting h payload m n" "set js \<subseteq> {..<n}" "i < n" "i \<notin> set js" "distinct js"
    and "map_get (rb_groups b) (key_of h) = None" "is_range_order ord"
  shows "Add ord now (frag_at h payload m i) (trip_buffer b h payload m n t js) =
    (if set (js @ [i]) = {..<n}
     then Ok (b\<lparr>rb_stats := (rb_stats b)\<lparr>
                  rs_FragmentsAdded := rs_FragmentsAdded (rb_stats b) + int (length (js @ [i])),
                  rs_Reassembled := rs_Reassembled (rb_stats b) + 1\<rparr>\<rparr>, [header_bytes h @ payload])
     else Ok (trip_buffer b h payload m n (if js = [] then now else t) (js @ [i]), []))"
proof -
  note P = trip_parses(1) [OF assms(1,3)] and F = trip_is_fragment(1) [OF assms(1,3)]
  note J = trip_joined [OF assms(1-4,6), where now = now and t = t]
  have c: "group_complete (group_of h payload m n (if js = [] then now else t) (js @ [i]))
      \<longleftrightarrow> set (js @ [i]) = {..<n}"
    using assms(2-5) by (intro group_complete_of [OF assms(1)]) auto
  show ?thesis
  proof (cases "set (js @ [i]) = {..<n}")
    case True
    have "group_complete (joined now (frag_at_header h (length payload) m i) (frag_at h payload m i)
        (trip_buffer b h payload m n t js))" unfolding J(1) c by (rule True)
    from Add_complete [OF P F this, where ord = ord]
    have "Add ord now (frag_at h payload m i) (trip_buffer b h payload m n t js) =
        Ok (b\<lparr>rb_stats := (rb_stats b)\<lparr>
                  rs_FragmentsAdded := rs_FragmentsAdded (rb_stats b) + int (length (js @ [i])),
                  rs_Reassembled := rs_Reassembled (rb_stats b) + 1\<rparr>\<rparr>, [header_bytes h @ payload])"
      unfolding J trip_key reassemble_trip [OF assms(1) True assms(7)] Let_def outcome.case
        map_del_last [OF assms(6)]
      by (simp add: trip_buffer_def)
    then show ?thesis using True by simp
  next
    case False
    have "\<not> group_complete (joined now (frag_at_header h (length payload) m i) (frag_at h payload m i)
        (trip_buffer b h payload m n t js))" unfolding J(1) c by (rule False)
    from Add_store [OF P F this]
    have "Add ord now (frag_at h payload m i) (trip_buffer b h payload m n t js) =
        Ok (trip_buffer b h payload m n (if js = [] then now else t) (js @ [i]), [])"
      unfolding J trip_key by (simp add: trip_buffer_def)
    then show ?thesis using False by (simp only: if_False)
  qed
qed

lemma add_all_trip:
  assumes "trip_setting h payload m n" "map_get (rb_groups b) (key_of h) = None"
    and "\<forall>(ord, now, f) \<in> set ops. is_range_order ord"
    and "map (\<lambda>(ord, now, f). f) ops = map (frag_at h payload m) ks" "ops \<noteq> []"
    and "distinct (js @ ks)" "set (js @ ks) = {..<n}"
  shows "add_all ops (trip_buffer b h payload m n t js) =
    Ok (b\<lparr>rb_stats := (rb_stats b)\<lparr>
                  rs_FragmentsAdded := rs_FragmentsAdded (rb_stats b) + int n,
                  rs_Reassembled := rs_Reassembled (rb_stats b) + 1\<rparr>\<rparr>, [header_bytes h @ payload])"
  using assms(3-7)
proof (induction ops arbitrary: js ks t)
  case (Cons op ops)
  obtain ord now f where op: "op = (ord, now, f)" by (cases op)
  obtain i ks' where ks: "ks = i # ks'" "f = frag_at h payload m i"
    "map (\<lambda>(ord, now, f). f) ops = map (frag_at h payload m) ks'"
    using Cons.prems(2) by (cases ks) (auto simp: op)
  have pre: "set js \<subseteq> {..<n}" "i < n" "i \<notin> set js" "distinct js" "is_range_order ord"
    using Cons.prems ks op by auto
  note step = trip_step [OF assms(1) pre(1-4) assms(2) pre(5), of now t]
  show ?case
  proof (cases "ops = []")
    case True
    then have "ks' = []" using ks by simp
    then have "set (js @ [i]) = {..<n}" "distinct (js @ [i])" using Cons.prems ks by simp_all
    moreover from this have "length (js @ [i]) = n"
      using distinct_card [of "js @ [i]"] by (simp only: card_lessThan)
    ultimately show ?thesis
      unfolding op ks(2) True by (simp only: add_all.simps step if_True obind.simps) simp
  next
    case False
    then have "ks' \<noteq> []" using ks by auto
    then obtain k where "k \<in> set ks'" by (cases ks') auto
    then have "set (js @ [i]) \<noteq> {..<n}" using Cons.prems ks by auto
    moreover have "add_all ops (trip_buffer b h payload m n (if js = [] then now else t) (js @ [i])) =
      Ok (b\<lparr>rb_stats := (rb_stats b)\<lparr>
                  rs_FragmentsAdded := rs_FragmentsAdded (rb_stats b) + int n,
                  rs_Reassembled := rs_Reassembled (rb_stats b) + 1\<rparr>\<rparr>, [header_bytes h @ payload])"
      using Cons.prems ks False by (intro Cons.IH [of ks']) auto
    ultimately show ?thesis
      unfolding op ks(2) by (simp only: add_all.simps step if_False obind.simps) simp
  qed
qed simp

section \<open>What is delivered\<close>

lemma copy_fragments_prefix:
  "copy_fragments hl es (hdr @ buf) = Ok p \<Longrightarrow> length hdr = hl \<Longrightarrow>
   take hl p = hdr \<and> length p = hl + length buf"
proof (induction es arbitrary: buf)
  case (Cons e es)
  obtain off frag where e: "e = (off, frag)" by (cases e)
  from Cons.prems obtain h b where h: "ParseHeader frag = Ok h"
    and b: "(buf_copy_from (hl + unat off * 8) (slice_bytes (Payload h frag)) (hdr @ buf)
        :: (ip_error, bytes) outcome) = Ok b"
      "copy_fragments hl es b = Ok p"
    by (auto simp: e obind_Ok_iff split: outcome.splits)
  have l: "length b = length (hdr @ buf)" using b(1) by (rule buf_copy_from_length)
  have "take hl b = hdr"
    using b(1) Cons.prems(2) by (auto simp: buf_copy_from_def buf_copy_def split: if_splits)
  then have "b = hdr @ drop hl b" using append_take_drop_id [of hl b] by simp
  then show ?case using Cons.IH [of "drop hl b"] b(2) Cons.prems(2) l by simp
qed auto

lemma reassemble_delivers:
  assumes "frags_inv key g" "group_complete g" "reassemble ord g = Ok p"
  shows "\<exists>h. key_of h = key \<and> take (HeaderLen h) p = header_bytes h
    \<and> VerifyChecksum (header_bytes h) \<and> int (length p) = int (HeaderLen h) + fg_totalLen g
    \<and> ip_TotalLen h = of_nat (length p) \<and> ip_FragOffset h = 0 \<and> ip_Flags h AND FlagMF = 0"
proof -
  obtain first where first: "map_get (fg_fragments g) 0 = Some first"
    using assms(3) by (auto simp: reassemble_def split: option.splits)
  obtain f where f: "ParseHeader first = Ok f" "key_of f = key"
    using map_of_SomeD [OF first] assms(1) by (auto simp: frags_inv_def)
  have t: "0 < fg_totalLen g" using assms(2) by (simp add: group_complete_def)
  have l: "20 \<le> HeaderLen f"
  proof (rule ccontr)
    assume n: "\<not> 20 \<le> HeaderLen f"
    have "Marshal (reassembled_header f (int (HeaderLen f) + fg_totalLen g)\<lparr>ip_Checksum := 0\<rparr>) = Panic"
      using n ParseHeader_OkD(8,9) [OF f(1)]
      by (intro Marshal_short_panics) (simp_all add: reassembled_header_def HeaderLen_def)
    then show False
      using assms(3) t by (simp add: reassemble_def first f Let_def seal_header_def)
  qed
  define h where "h = sealed (reassembled_header f (int (HeaderLen f) + fg_totalLen g))"
  have hl: "HeaderLen h = HeaderLen f" by (simp add: h_def)
  have lh: "length (header_bytes h) = HeaderLen f" using l by (simp add: hl)
  let ?n = "nat (int (HeaderLen f) + fg_totalLen g)"
  have n: "HeaderLen f \<le> ?n" using t by simp
  have "(buf_copy_from 0 (header_bytes h) (replicate ?n 0) :: (ip_error, bytes) outcome)
      = Ok (header_bytes h @ replicate (?n - HeaderLen f) 0)"
    using n by (simp add: buf_copy_from_def buf_copy_def lh)
  then have c: "copy_fragments (HeaderLen f) (ord (fg_fragments g))
      (header_bytes h @ replicate (?n - HeaderLen f) 0) = Ok p"
    using assms(3) t l
    by (simp add: reassemble_def first f Let_def seal_header_eq flip: h_def split: if_splits)
  have p: "take (HeaderLen h) p = header_bytes h" "length p = ?n"
    using copy_fragments_prefix [OF c lh] n by (simp_all add: hl)
  have "(of_int (int (HeaderLen f) + fg_totalLen g) :: 16 word) = of_nat ?n"
    using t by (simp only: of_nat_nat)
  then have "ip_TotalLen h = of_nat (length p)" by (simp add: h_def reassembled_header_def p(2))
  moreover have "ip_Flags h AND FlagMF = 0"
    by (simp add: h_def reassembled_header_def and.assoc)
  moreover have "VerifyChecksum (header_bytes h)" unfolding h_def by (rule sealed_verifies) (simp add: l)
  moreover have "key_of h = key" using f(2) by (simp add: h_def reassembled_header_def key_of_def)
  ultimately show ?thesis
    using p t by (intro exI [of _ h]) (simp add: hl, simp add: h_def reassembled_header_def)
qed

section \<open>Properties\<close>

lemma mset_eq_map:
  "image_mset f M = mset xs \<Longrightarrow> \<exists>ks. xs = map f ks \<and> mset ks = M"
proof (induction xs arbitrary: M)
  case (Cons x xs)
  then obtain a N where M: "M = add_mset a N" "f a = x" "image_mset f N = mset xs"
    using msed_map_invR [of f M x "mset xs"] by auto
  with Cons.IH [of N] obtain ks where "xs = map f ks" "mset ks = N" by blast
  with M show ?case by (intro exI [of _ "a # ks"]) simp
qed simp

lemma trip_settingI:
  assumes "ParseHeader packet = Ok h" "unat (ip_TotalLen h) = length packet"
    and "seal_header h = Ok (take (HeaderLen h) packet)" "ip_FragOffset h = 0"
    and "ip_Flags h AND FlagMF = 0" "5 \<le> unat (ip_IHL h)"
    and "mtu < int (length packet)" "int (HeaderLen h) + 8 \<le> mtu" "ip_Flags h AND FlagDF = 0"
  obtains m n where "trip_setting h (drop (HeaderLen h) packet) m n"
    and "Fragment packet mtu = Some (Ok (map (frag_at h (drop (HeaderLen h) packet) m) [0..<n]))"
    and "header_bytes h = take (HeaderLen h) packet"
proof -
  let ?p = "drop (HeaderLen h) packet"
  have l: "20 \<le> HeaderLen h" using assms(6) by (simp add: HeaderLen_def)
  have len: "length packet \<le> 65535"
    using assms(2) unsigned_less [of "ip_TotalLen h", where ?'a = nat] by simp
  have off: "unat (ip_FragOffset h) * 8 + (length packet - HeaderLen h) \<le> 65536"
    using assms(4) len by simp
  obtain m n where s: "frag_setting h (length ?p) m" and n: "n = n_blocks (length ?p) m" "0 < n"
    and m: "int (HeaderLen h) + int m \<le> mtu"
    and F: "Fragment packet mtu = Some (Ok (map (frag_at h ?p m) [0..<n]))"
    using Fragment_list [OF assms(1,7) len assms(8,6,9) off] .
  have hb: "header_bytes h = take (HeaderLen h) packet" by (rule ParseHeader_bytes [OF assms(1,6)])
  then have "header_bytes (sealed h) = header_bytes h" using assms(3) by (simp add: seal_header_eq l)
  then have "get16 (header_bytes (sealed h)) 10 = get16 (header_bytes h) 10" by simp
  then have "ip_Checksum (sealed h) = ip_Checksum h"
    using l by (simp add: header_bytes_checksum_field(1))
  then have z: "sealed h = h" by (simp add: sealed_def)
  have "1 * m < length ?p" using m assms(7) by simp
  then have "2 \<le> n" using n(1) less_n_blocks [OF frag_setting_pos [OF s], of 1 "length ?p"] by simp
  moreover have "unat (ip_TotalLen h) = HeaderLen h + length ?p"
    using assms(2) ParseHeader_OkD(2) [OF assms(1)] by simp
  ultimately have "trip_setting h ?p m n"
    using s n(1) z assms(4,5) by (simp add: trip_setting_def)
  then show thesis using F hb that by blast
qed

text \<open>The fragments of a packet, added in any order.\<close>

lemma add_all_fragments:
  assumes "ParseHeader packet = Ok h" "unat (ip_TotalLen h) = length packet"
    and "seal_header h = Ok (take (HeaderLen h) packet)" "ip_FragOffset h = 0"
    and "ip_Flags h AND FlagMF = 0" "5 \<le> unat (ip_IHL h)"
    and "mtu < int (length packet)" "int (HeaderLen h) + 8 \<le> mtu" "ip_Flags h AND FlagDF = 0"
    and "Fragment packet mtu = Some (Ok frs)"
    and "mset (map (\<lambda>(ord, now, f). f) ops) = mset frs"
    and "\<forall>(ord, now, f) \<in> set ops. is_range_order ord"
    and "map_get (rb_groups b) (key_of h) = None"
  shows "add_all ops b = Ok (b\<lparr>rb_stats := (rb_stats b)\<lparr>
      rs_FragmentsAdded := rs_FragmentsAdded (rb_stats b) + int (length frs),
      rs_Reassembled := rs_Reassembled (rb_stats b) + 1\<rparr>\<rparr>, [packet])"
proof -
  let ?p = "drop (HeaderLen h) packet"
  obtain m n where s: "trip_setting h ?p m n"
    and F: "Fragment packet mtu = Some (Ok (map (frag_at h ?p m) [0..<n]))"
    and hb: "header_bytes h = take (HeaderLen h) packet"
    using trip_settingI [OF assms(1-9)] .
  have frs: "frs = map (frag_at h ?p m) [0..<n]" using F assms(10) by simp
  obtain ks where ks: "map (\<lambda>(ord, now, f). f) ops = map (frag_at h ?p m) ks" "mset ks = mset [0..<n]"
    using mset_eq_map [of "frag_at h ?p m" "mset [0..<n]" "map (\<lambda>(ord, now, f). f) ops"] assms(11)
    by (auto simp: frs)
  have d: "distinct ks" "set ks = {..<n}"
    using mset_eq_imp_distinct_iff [OF ks(2)] mset_eq_setD [OF ks(2)]
    by (simp_all only: distinct_upt set_upt atLeast0LessThan)
  have n: "2 \<le> n" using s by (simp add: trip_setting_def)
  have ne: "ops \<noteq> []"
  proof
    assume "ops = []"
    then have "set ks = {}" using ks(1) by simp
    then show False using d(2) n by (simp add: lessThan_empty_iff)
  qed
  have "add_all ops (trip_buffer b h ?p m n 0 []) = Ok (b\<lparr>rb_stats := (rb_stats b)\<lparr>
      rs_FragmentsAdded := rs_FragmentsAdded (rb_stats b) + int n,
      rs_Reassembled := rs_Reassembled (rb_stats b) + 1\<rparr>\<rparr>, [header_bytes h @ ?p])"
    using d by (intro add_all_trip [OF s assms(13,12) ks(1) ne]) simp_all
  then show ?thesis by (simp add: trip_buffer_def hb frs)
qed

text \<open>
  Property C2. The fragments of a packet, handed to \<open>Add\<close> in any order, at any times, with any
  order of the map ranges, on any buffer that has no group of their key, deliver the packet
  once, bit for bit, with the last fragment and nothing before; the groups are as before and
  the statistics count the fragments and one reassembled packet.
\<close>

theorem Reassembly_roundtrip:
  assumes "ParseHeader packet = Ok h" "unat (ip_TotalLen h) = length packet"
    and "seal_header h = Ok (take (HeaderLen h) packet)" "ip_FragOffset h = 0"
    and "ip_Flags h AND FlagMF = 0" "5 \<le> unat (ip_IHL h)"
    and "mtu < int (length packet)" "int (HeaderLen h) + 8 \<le> mtu" "ip_Flags h AND FlagDF = 0"
    and "Fragment packet mtu = Some (Ok frs)"
    and "mset (map (\<lambda>(ord, now, f). f) ops) = mset frs"
    and "\<forall>(ord, now, f) \<in> set ops. is_range_order ord"
    and "map_get (rb_groups b) (key_of h) = None"
  shows "add_all ops b = Ok (b\<lparr>rb_stats := (rb_stats b)\<lparr>
      rs_FragmentsAdded := rs_FragmentsAdded (rb_stats b) + int (length frs),
      rs_Reassembled := rs_Reassembled (rb_stats b) + 1\<rparr>\<rparr>, [packet])"
  using assms by (rule add_all_fragments)

text \<open>The sample packet with its checksum, the fragments of it and a buffer to add them to.\<close>

definition good_packet :: bytes where
  "good_packet = sample_packet[10 := 0x54, 11 := 0x8F]"

definition good_header :: ip_header where
  "good_header = sample_header\<lparr>ip_Checksum := 0x548F\<rparr>"

lemma good_facts:
  "ParseHeader good_packet = Ok good_header" "unat (ip_TotalLen good_header) = length good_packet"
  "seal_header good_header = Ok (take (HeaderLen good_header) good_packet)"
  "ip_FragOffset good_header = 0" "ip_Flags good_header = 0" "unat (ip_IHL good_header) = 5"
  "length good_packet = 40" "HeaderLen good_header = 20"
  by code_simp+

lemma id_range_order: "is_range_order id" and rev_range_order: "is_range_order rev"
  by (simp_all add: is_range_order_def)

theorem Reassembly_roundtrip_witness:
  "\<exists>frs b. Fragment good_packet 30 = Some (Ok frs) \<and> length frs = 3
    \<and> add_all (map (\<lambda>f. (rev, 7, f)) (rev frs)) NewReassemblyBuffer = Ok (b, [good_packet])
    \<and> rb_groups b = []"
proof -
  have "block_size 30 20 = 8" "n_blocks 20 8 = 3" by (simp_all add: block_size_def n_blocks_def)
  then obtain frs where F: "Fragment good_packet 30 = Some (Ok frs)" "length frs = 3"
    using Fragment_blocks [OF good_facts(1), of 30] by (simp add: good_facts)
  have "add_all (map (\<lambda>f. (rev, 7, f)) (rev frs)) NewReassemblyBuffer =
      Ok (NewReassemblyBuffer\<lparr>rb_stats := (rb_stats NewReassemblyBuffer)\<lparr>
        rs_FragmentsAdded := rs_FragmentsAdded (rb_stats NewReassemblyBuffer) + int (length frs),
        rs_Reassembled := rs_Reassembled (rb_stats NewReassemblyBuffer) + 1\<rparr>\<rparr>, [good_packet])"
    using good_facts F(1) rev_range_order
    by (intro Reassembly_roundtrip [OF good_facts(1), of 30])
      (auto simp: comp_def NewReassemblyBuffer_def)
  then show ?thesis using F by (auto simp: NewReassemblyBuffer_def)
qed

text \<open>The buffers that calls of \<open>Add\<close> and \<open>cleanup\<close> lead to.\<close>

inductive buffer_reachable :: "reassembly_buffer \<Rightarrow> bool" where
  init: "buffer_reachable NewReassemblyBuffer"
| add: "buffer_reachable b \<Longrightarrow> Add ord now frag b = Ok (b', out) \<Longrightarrow> buffer_reachable b'"
| tick: "buffer_reachable b \<Longrightarrow> buffer_reachable (cleanup now b)"

lemma reachable_inv: "buffer_reachable b \<Longrightarrow> buffer_inv b"
  by (induction rule: buffer_reachable.induct) (auto intro: NewReassemblyBuffer_inv Add_inv cleanup_inv)

text \<open>
  Property C9. In every reachable buffer the group count of the statistics is the number of
  groups, every group is incomplete and not empty, its byte count is the sum of the payloads it
  stores, and every stored fragment parses, is a fragment, and is filed under its own key and
  offset.
\<close>

theorem Reassembly_invariant:
  assumes "buffer_reachable b"
  shows "rs_GroupsActive (Stats b) = int (length (rb_groups b)) \<and> map_ok (rb_groups b)
    \<and> (\<forall>k g. map_get (rb_groups b) k = Some g \<longrightarrow>
        \<not> group_complete g \<and> fg_fragments g \<noteq> [] \<and> map_ok (fg_fragments g)
        \<and> fg_received g = (\<Sum>(off, frag) \<leftarrow> fg_fragments g. int (frag_payload_len frag))
        \<and> (\<forall>off frag. map_get (fg_fragments g) off = Some frag \<longrightarrow>
            (\<exists>h. ParseHeader frag = Ok h \<and> is_fragment h \<and> ip_FragOffset h = off \<and> key_of h = k)))"
proof -
  note inv = reachable_inv [OF assms]
  have "\<exists>h. ParseHeader frag = Ok h \<and> is_fragment h \<and> ip_FragOffset h = off \<and> key_of h = k"
    if "frags_inv k g" "map_get (fg_fragments g) off = Some frag" for k g off frag
    using that(1) map_of_SomeD [OF that(2)] by (fastforce simp: frags_inv_def)
  moreover have "group_inv k g" if "map_get (rb_groups b) k = Some g" for k g
    using inv that by (simp add: buffer_inv_def)
  then have "frags_inv k g \<and> \<not> group_complete g \<and> fg_fragments g \<noteq> []"
    if "map_get (rb_groups b) k = Some g" for k g
    using that by (simp add: group_inv_def)
  moreover have "map_ok (fg_fragments g)
      \<and> fg_received g = (\<Sum>(off, frag) \<leftarrow> fg_fragments g. int (frag_payload_len frag))"
    if "frags_inv k g" for k g using that by (simp add: frags_inv_def)
  moreover have "rs_GroupsActive (Stats b) = int (length (rb_groups b))" "map_ok (rb_groups b)"
    using inv by (simp_all add: buffer_inv_def Stats_def)
  ultimately show ?thesis by blast
qed

text \<open>Three fragments of one datagram: the second starts behind the end the third announces.\<close>

definition hostile :: "byte \<Rightarrow> byte \<Rightarrow> bytes" where
  "hostile fl off = [0x45, 0, 0, 28, 0x12, 0x34, fl, off, 64, 17, 0, 0, 10, 0, 0, 1, 10, 0, 0, 2,
     1, 2, 3, 4, 5, 6, 7, 8]"

definition hostile_key :: fragment_key where
  "hostile_key = \<lparr>fk_src = [10, 0, 0, 1], fk_dst = [10, 0, 0, 2], fk_id = 0x1234, fk_proto = 17\<rparr>"

definition hostile_buffer :: reassembly_buffer where
  "hostile_buffer =
     \<lparr>rb_groups = [(hostile_key, \<lparr>fg_fragments = [(0, hostile 0x20 0), (100, hostile 0x20 100)],
        fg_totalLen = -1, fg_received = 16, fg_createdAt = 0\<rparr>)],
      rb_stats = \<lparr>rs_GroupsActive = 1, rs_FragmentsAdded = 2, rs_Reassembled = 0, rs_Evicted = 0\<rparr>\<rparr>"

definition hostile_header :: "byte \<Rightarrow> 16 word \<Rightarrow> ip_header" where
  "hostile_header fl off = sample_header\<lparr>ip_TotalLen := 28, ip_Flags := fl, ip_FragOffset := off\<rparr>"

lemma hostile_parses:
  "ParseHeader (hostile 0x20 0) = Ok (hostile_header 1 0)"
  "ParseHeader (hostile 0x20 100) = Ok (hostile_header 1 100)"
  "ParseHeader (hostile 0 2) = Ok (hostile_header 0 2)"
  by code_simp+

lemma hostile_adds:
  "Add id 0 (hostile 0x20 0) NewReassemblyBuffer = Ok (
     \<lparr>rb_groups = [(hostile_key, \<lparr>fg_fragments = [(0, hostile 0x20 0)],
        fg_totalLen = -1, fg_received = 8, fg_createdAt = 0\<rparr>)],
      rb_stats = \<lparr>rs_GroupsActive = 1, rs_FragmentsAdded = 1, rs_Reassembled = 0, rs_Evicted = 0\<rparr>\<rparr>, [])"
  "Add id 0 (hostile 0x20 100)
     \<lparr>rb_groups = [(hostile_key, \<lparr>fg_fragments = [(0, hostile 0x20 0)],
        fg_totalLen = -1, fg_received = 8, fg_createdAt = 0\<rparr>)],
      rb_stats = \<lparr>rs_GroupsActive = 1, rs_FragmentsAdded = 1, rs_Reassembled = 0, rs_Evicted = 0\<rparr>\<rparr>
   = Ok (hostile_buffer, [])"
  by code_simp+

lemma hostile_reachable: "buffer_reachable hostile_buffer"
  using buffer_reachable.add [OF buffer_reachable.add [OF buffer_reachable.init hostile_adds(1)] hostile_adds(2)] .

theorem Reassembly_invariant_witness:
  "rs_GroupsActive (Stats hostile_buffer) = 1 \<and> map_ok (rb_groups hostile_buffer)"
  using Reassembly_invariant [OF hostile_reachable] by (simp add: hostile_buffer_def)

text \<open>
  Property C34. \<open>Add\<close> panics (with the mutex held) exactly when the new fragment completes its
  group by byte count, the group has a fragment of offset 0, and either that fragment's header
  is shorter than 20 bytes or some stored fragment starts behind the announced end.
\<close>

theorem Add_panics_iff:
  assumes "buffer_reachable b" "is_range_order ord" "ParseHeader frag = Ok h" "is_fragment h"
  shows "Add ord now frag b = Panic \<longleftrightarrow>
    group_complete (joined now h frag b)
    \<and> (\<exists>first f. map_get (fg_fragments (joined now h frag b)) 0 = Some first \<and> ParseHeader first = Ok f
        \<and> (unat (ip_IHL f) < 5 \<or> (\<exists>(off, _) \<in> set (fg_fragments (joined now h frag b)).
             fg_totalLen (joined now h frag b) < int (unat off * 8))))"
proof (cases "group_complete (joined now h frag b)")
  case True
  let ?g = "joined now h frag b"
  have inv: "frags_inv (key_of h) ?g" by (rule joined_frags_inv [OF reachable_inv [OF assms(1)] assms(3,4)])
  have "Add ord now frag b = Panic \<longleftrightarrow> reassemble ord ?g = Panic"
    by (simp add: Add_complete [OF assms(3,4) True] Let_def split: outcome.splits)
  moreover have "reassemble ord ?g = Panic \<longleftrightarrow>
      (\<exists>first f. map_get (fg_fragments ?g) 0 = Some first \<and> ParseHeader first = Ok f
        \<and> (unat (ip_IHL f) < 5 \<or> (\<exists>(off, _) \<in> set (fg_fragments ?g). fg_totalLen ?g < int (unat off * 8))))"
  proof (cases "map_get (fg_fragments ?g) 0")
    case None
    then show ?thesis by (simp add: reassemble_no_first)
  next
    case (Some first)
    obtain f where f: "ParseHeader first = Ok f"
      using map_of_SomeD [OF Some] inv by (auto simp: frags_inv_def)
    show ?thesis using reassemble_Panic_iff [OF inv True assms(2) Some f] Some f by simp
  qed
  ultimately show ?thesis using True by simp
next
  case False
  then show ?thesis by (simp add: Add_store [OF assms(3,4)])
qed

theorem Add_panics_iff_witness: "Add id 0 (hostile 0 2) hostile_buffer = Panic"
proof -
  have j: "joined 0 (hostile_header 0 2) (hostile 0 2) hostile_buffer =
    \<lparr>fg_fragments = [(0, hostile 0x20 0), (100, hostile 0x20 100), (2, hostile 0 2)],
     fg_totalLen = 24, fg_received = 24, fg_createdAt = 0\<rparr>" by code_simp
  have "is_fragment (hostile_header 0 2)" by code_simp
  from Add_panics_iff [OF hostile_reachable id_range_order hostile_parses(3) this, of 0]
  show ?thesis unfolding j using hostile_parses(1) by (simp add: group_complete_def)
qed

text \<open>
  Property C35. Whatever fragments were added, a packet that \<open>Add\<close> delivers for a fragment is
  unfragmented, carries the addresses, id and protocol of its group under a valid header
  checksum, and is as long as its header plus the announced length; its 16-bit length field
  holds that length modulo 65536.
\<close>

theorem Add_delivers:
  assumes "buffer_reachable b" "ParseHeader frag = Ok h" "is_fragment h"
    and "Add ord now frag b = Ok (b', out)" "p \<in> set out"
  shows "out = [p] \<and> (\<exists>h'. key_of h' = key_of h \<and> take (HeaderLen h') p = header_bytes h'
    \<and> VerifyChecksum (take (HeaderLen h') p)
    \<and> int (length p) = int (HeaderLen h') + fg_totalLen (joined now h frag b)
    \<and> ip_TotalLen h' = of_nat (length p) \<and> ip_FragOffset h' = 0 \<and> ip_Flags h' AND FlagMF = 0)"
proof (cases "group_complete (joined now h frag b)")
  case True
  have inv: "frags_inv (key_of h) (joined now h frag b)"
    by (rule joined_frags_inv [OF reachable_inv [OF assms(1)] assms(2,3)])
  have "out = [p] \<and> reassemble ord (joined now h frag b) = Ok p"
    using assms(4,5) by (auto simp: Add_complete [OF assms(2,3) True] Let_def split: outcome.splits)
  then show ?thesis using reassemble_delivers [OF inv True] by fastforce
next
  case False
  then show ?thesis using assms(4,5) by (simp add: Add_store [OF assms(2,3)])
qed

definition first_half :: bytes where
  "first_half = [0x45, 0, 0, 28, 0x12, 0x34, 0x20, 0, 64, 17, 0, 0, 10, 0, 0, 1, 10, 0, 0, 2,
     1, 2, 3, 4, 5, 6, 7, 8]"

definition second_half :: bytes where
  "second_half = [0x45, 0, 0, 22, 0x12, 0x34, 0, 1, 64, 17, 0, 0, 10, 0, 0, 1, 10, 0, 0, 2, 9, 10]"

definition half_buffer :: reassembly_buffer where
  "half_buffer =
     \<lparr>rb_groups = [(hostile_key, \<lparr>fg_fragments = [(0, first_half)],
        fg_totalLen = -1, fg_received = 8, fg_createdAt = 5\<rparr>)],
      rb_stats = \<lparr>rs_GroupsActive = 1, rs_FragmentsAdded = 1, rs_Reassembled = 0, rs_Evicted = 0\<rparr>\<rparr>"

definition whole_packet :: bytes where
  "whole_packet = [0x45, 0, 0, 30, 0x12, 0x34, 0, 0, 64, 17, 0x54, 0x99, 10, 0, 0, 1, 10, 0, 0, 2,
     1, 2, 3, 4, 5, 6, 7, 8, 9, 10]"

lemma half_adds:
  "Add id 5 first_half NewReassemblyBuffer = Ok (half_buffer, [])"
  "Add id 9 second_half half_buffer = Ok (
     \<lparr>rb_groups = [], rb_stats =
       \<lparr>rs_GroupsActive = 0, rs_FragmentsAdded = 2, rs_Reassembled = 1, rs_Evicted = 0\<rparr>\<rparr>, [whole_packet])"
  "ParseHeader second_half = Ok (sample_header\<lparr>ip_TotalLen := 22, ip_FragOffset := 1\<rparr>)"
  by code_simp+

lemma half_reachable: "buffer_reachable half_buffer"
  by (rule buffer_reachable.add [OF buffer_reachable.init half_adds(1)])

theorem Add_delivers_witness:
  "\<exists>h'. key_of h' = hostile_key \<and> VerifyChecksum (take (HeaderLen h') whole_packet)"
proof -
  let ?h = "sample_header\<lparr>ip_TotalLen := 22, ip_FragOffset := 1\<rparr>"
  have f: "is_fragment ?h" "key_of ?h = hostile_key" by code_simp+
  show ?thesis
    using Add_delivers [OF half_reachable half_adds(3) f(1) half_adds(2), of whole_packet] f(2) by auto
qed

text \<open>
  Groups do not interfere: \<open>Add\<close> of a fragment changes no group of another key,
  and \<open>Add\<close> of a packet that is no fragment delivers it unchanged and changes nothing.
\<close>

theorem Add_frame:
  assumes "ParseHeader frag = Ok h" "Add ord now frag b = Ok (b', out)"
  shows "(is_fragment h \<longrightarrow> (\<forall>k. k \<noteq> key_of h \<longrightarrow>
      map_get (rb_groups b') k = map_get (rb_groups b) k))
    \<and> (\<not> is_fragment h \<longrightarrow> b' = b \<and> out = [frag])"
proof (cases "is_fragment h")
  case True
  show ?thesis
  proof (cases "group_complete (joined now h frag b)")
    case c: True
    show ?thesis
      using assms(2) True
      by (auto simp: Add_complete [OF assms(1) True c] Let_def delete_conv' update_conv'
          split: outcome.splits)
  next
    case False
    then show ?thesis using assms(2) True by (auto simp: Add_store [OF assms(1) True] update_conv')
  qed
next
  case False
  then show ?thesis using assms(2) Add_pass [OF assms(1) False] by simp
qed

theorem Add_frame_witness:
  "map_get (rb_groups half_buffer) (hostile_key\<lparr>fk_id := 7\<rparr>) = None"
proof -
  have P: "ParseHeader first_half = Ok (sample_header\<lparr>ip_TotalLen := 28, ip_Flags := 1\<rparr>)" by code_simp
  have f: "is_fragment (sample_header\<lparr>ip_TotalLen := 28, ip_Flags := 1\<rparr>)"
    "hostile_key\<lparr>fk_id := 7\<rparr> \<noteq> key_of (sample_header\<lparr>ip_TotalLen := 28, ip_Flags := 1\<rparr>)" by code_simp+
  show ?thesis
    using Add_frame [OF P half_adds(1)] f by (simp add: NewReassemblyBuffer_def)
qed

text \<open>
  \<open>cleanup\<close> removes exactly the groups older than 30 seconds, keeps the others as
  they are, counts what it evicts, and leaves the other counters alone.
\<close>

theorem cleanup_evicts:
  assumes "buffer_reachable b"
  shows "map_get (rb_groups (cleanup now b)) k =
      (case map_get (rb_groups b) k of
         Some g \<Rightarrow> if now - fg_createdAt g > 30000000000 then None else Some g
       | None \<Rightarrow> None)
    \<and> rs_Evicted (Stats (cleanup now b)) - rs_Evicted (Stats b)
        = int (length (rb_groups b)) - int (length (rb_groups (cleanup now b)))
    \<and> rs_Reassembled (Stats (cleanup now b)) = rs_Reassembled (Stats b)
    \<and> rs_FragmentsAdded (Stats (cleanup now b)) = rs_FragmentsAdded (Stats b)"
proof -
  let ?gs = "rb_groups b" and ?keep = "\<lambda>e :: fragment_key \<times> fragment_group. \<not> expired now (snd e)"
  have ok: "map_ok ?gs" using reachable_inv [OF assms] by (simp add: buffer_inv_def)
  have "length (filter (\<lambda>e. expired now (snd e)) ?gs) + length (filter ?keep ?gs) = length ?gs"
    by (rule sum_length_filter_compl)
  then show ?thesis
    using map_get_filter [OF ok, of "\<lambda>g. \<not> expired now g" k]
    by (auto simp: cleanup_eq [OF ok] Let_def Stats_def expired_def group_timeout_def split: option.splits)
qed

theorem cleanup_evicts_witness:
  "map_get (rb_groups (cleanup 30000000006 half_buffer)) hostile_key = None
   \<and> rb_groups (cleanup 30000000005 half_buffer) = rb_groups half_buffer"
proof
  show "map_get (rb_groups (cleanup 30000000006 half_buffer)) hostile_key = None"
    using cleanup_evicts [OF half_reachable, of 30000000006 hostile_key]
    by (simp add: half_buffer_def)
  show "rb_groups (cleanup 30000000005 half_buffer) = rb_groups half_buffer" by code_simp
qed

end
