(* ===== verification/Reassembly_Service.thy ===== *)
theory Reassembly_Service
  imports Reassembly
begin

text \<open>
  The reassembly buffer in time: fragments that arrive, interleaved with the ticker goroutine of
  \<open>Start\<close> (\<^verbatim>\<open>internal/ip/reassembly.go\<close>), and what a group that never completes costs. Both sides
  hold the mutex for a whole call, so a step is a call. The last section is an attack on the
  completeness test, which counts bytes and does not look at offsets.
\<close>

section \<open>The ticker goroutine\<close>

record service =
  sv_buffer :: reassembly_buffer
  sv_now :: int
  sv_tick :: int
  sv_alive :: bool

text \<open>
  \<open>Start\<close> begins with a running ticker; \<open>sv_tick\<close> is the time of its last tick, or of the start.
  The ticks of a running goroutine come at most \<open>period\<close> apart (10 seconds, and whatever the
  scheduler adds), and time does not run backwards.
\<close>

definition Start :: "int \<Rightarrow> reassembly_buffer \<Rightarrow> service" where
  "Start now b = \<lparr>sv_buffer = b, sv_now = now, sv_tick = now, sv_alive = True\<rparr>"

inductive service_step :: "int \<Rightarrow> service \<Rightarrow> service \<Rightarrow> bool" for period where
  fragment: "sv_now s \<le> now \<Longrightarrow> (sv_alive s \<longrightarrow> now \<le> sv_tick s + period) \<Longrightarrow>
    Add ord now frag (sv_buffer s) = Ok (b, out) \<Longrightarrow>
    service_step period s (s\<lparr>sv_buffer := b, sv_now := now\<rparr>)"
| rejected: "sv_now s \<le> now \<Longrightarrow> (sv_alive s \<longrightarrow> now \<le> sv_tick s + period) \<Longrightarrow>
    Add ord now frag (sv_buffer s) = Err e \<Longrightarrow> service_step period s (s\<lparr>sv_now := now\<rparr>)"
| tick: "sv_alive s \<Longrightarrow> sv_now s \<le> now \<Longrightarrow> now \<le> sv_tick s + period \<Longrightarrow>
    service_step period s (s\<lparr>sv_buffer := cleanup now (sv_buffer s), sv_now := now, sv_tick := now\<rparr>)"
| context_done: "service_step period s (s\<lparr>sv_alive := False\<rparr>)"

section \<open>The age of groups\<close>

text \<open>\<open>Add\<close> creates at most the group of its fragment, and never changes a time stamp.\<close>

lemma Add_createdAt:
  assumes "Add ord now frag b = Ok (b', out)" "map_get (rb_groups b') k = Some g"
  shows "fg_createdAt g = now \<or> (\<exists>g0. map_get (rb_groups b) k = Some g0 \<and> fg_createdAt g0 = fg_createdAt g)"
  using assms
  by (auto simp: Add_def Let_def update_conv' delete_conv' new_group_def store_fragment_createdAt
      split: outcome.splits if_splits option.splits)

definition service_inv :: "int \<Rightarrow> service \<Rightarrow> bool" where
  "service_inv period s \<longleftrightarrow>
     buffer_reachable (sv_buffer s) \<and> sv_tick s \<le> sv_now s
     \<and> (sv_alive s \<longrightarrow> sv_now s \<le> sv_tick s + period)
     \<and> (\<forall>k g. map_get (rb_groups (sv_buffer s)) k = Some g \<longrightarrow>
          fg_createdAt g \<le> sv_now s \<and> sv_tick s \<le> fg_createdAt g + group_timeout)"

lemma cleanup_get:
  assumes "buffer_reachable b"
  shows "map_get (rb_groups (cleanup now b)) k =
    (case map_get (rb_groups b) k of
       Some g \<Rightarrow> if now - fg_createdAt g > group_timeout then None else Some g | None \<Rightarrow> None)"
proof -
  have "map_ok (rb_groups b)" using reachable_inv [OF assms] by (simp add: buffer_inv_def)
  then show ?thesis
    using map_get_filter [of "rb_groups b" "\<lambda>g. \<not> expired now g" k]
    by (simp add: cleanup_eq Let_def expired_def split: option.splits)
qed

lemma service_step_inv:
  assumes "service_step period s s'" "service_inv period s"
  shows "service_inv period s'"
  using assms(1)
proof cases
  case (fragment now ord frag b out)
  have "fg_createdAt g \<le> now \<and> sv_tick s \<le> fg_createdAt g + group_timeout"
    if "map_get (rb_groups b) k = Some g" for k g
    using Add_createdAt [OF fragment(4) that] assms(2) fragment(2)
    by (force simp: service_inv_def group_timeout_def)
  moreover have "buffer_reachable b"
    using assms(2) fragment(4) by (auto simp: service_inv_def intro: buffer_reachable.add)
  ultimately show ?thesis using fragment assms(2) by (auto simp: service_inv_def)
next
  case (rejected now ord frag e)
  then show ?thesis using assms(2) by (fastforce simp: service_inv_def)
next
  case (tick now)
  have r: "buffer_reachable (sv_buffer s)" using assms(2) by (simp add: service_inv_def)
  have "fg_createdAt g \<le> now \<and> now \<le> fg_createdAt g + group_timeout"
    if "map_get (rb_groups (cleanup now (sv_buffer s))) k = Some g" for k g
    using that assms(2) tick(3) by (force simp: cleanup_get [OF r] service_inv_def split: option.splits if_splits)
  moreover have "buffer_reachable (cleanup now (sv_buffer s))" using r by (rule buffer_reachable.tick)
  ultimately show ?thesis using tick assms(2) by (auto simp: service_inv_def)
next
  case context_done
  then show ?thesis using assms(2) by (simp add: service_inv_def)
qed

lemma service_run_inv:
  assumes "(service_step period)\<^sup>*\<^sup>* (Start t0 NewReassemblyBuffer) s" "0 \<le> period"
  shows "service_inv period s"
  using assms(1)
proof (induction rule: rtranclp_induct)
  case base
  show ?case
    using buffer_reachable.init assms(2) by (simp add: service_inv_def Start_def) (simp add: NewReassemblyBuffer_def)
next
  case (step s s')
  then show ?case by (blast intro: service_step_inv)
qed

section \<open>Properties\<close>



section \<open>Overlapping fragments\<close>

text \<open>
  Three fragments of one packet, all of whose payload bytes are 1: the bytes 0 to 15, 8 to 15
  once more, and 24 to 31 as the last. Together they have as many bytes as the packet is long.
\<close>

definition overlap_header :: "16 word \<Rightarrow> byte \<Rightarrow> 16 word \<Rightarrow> ip_header" where
  "overlap_header len fl off =
     \<lparr>ip_Version = 4, ip_IHL = 5, ip_TOS = 0, ip_TotalLen = len, ip_ID = 7, ip_Flags = fl,
      ip_FragOffset = off, ip_TTL = 64, ip_Protocol = ProtoUDP, ip_Checksum = 0, ip_Src = [10, 0, 0, 1],
      ip_Dst = [10, 0, 0, 2], ip_Options = []\<rparr>"

definition overlap_fragments :: "bytes list" where
  "overlap_fragments =
     [header_bytes (overlap_header 36 FlagMF 0) @ replicate 16 1,
      header_bytes (overlap_header 28 FlagMF 1) @ replicate 8 1,
      header_bytes (overlap_header 28 0 3) @ replicate 8 1]"


end
