(* ===== verification/Reassembly_Traffic.thy ===== *)
theory Reassembly_Traffic
  imports Reassembly
begin

text \<open>
  Many packets at once. The buffer of \<^verbatim>\<open>internal/ip/reassembly.go\<close> is shared: every fragment is
  added by a goroutine of its own, \<open>Add\<close> holds the mutex while it works on the groups and has
  released it when it calls \<open>onComplete\<close>, and the ticker goroutine runs \<open>cleanup\<close> between them.
  The lemmas show that the fragments of different packets, however they are mixed, do not get
  into each other's way.
\<close>

section \<open>Goroutines\<close>

text \<open>A call of \<open>Add\<close>, before its locked section and before the call of \<open>onComplete\<close>.\<close>

datatype add_task = Adding bytes | Delivering bytes

record traffic =
  tf_buffer :: reassembly_buffer
  tf_now :: int
  tf_tasks :: "add_task multiset"
  tf_called :: "bytes list"
  tf_delivered :: "bytes list"

definition traffic_start :: "int \<Rightarrow> traffic" where
  "traffic_start t0 =
     \<lparr>tf_buffer = NewReassemblyBuffer, tf_now = t0, tf_tasks = {#}, tf_called = [], tf_delivered = []\<rparr>"

inductive traffic_step :: "traffic \<Rightarrow> traffic \<Rightarrow> bool" where
  call: "traffic_step s (s\<lparr>tf_tasks := add_mset (Adding f) (tf_tasks s), tf_called := tf_called s @ [f]\<rparr>)"
| add: "tf_tasks s = add_mset (Adding f) ts \<Longrightarrow> tf_now s \<le> now \<Longrightarrow> is_range_order ord \<Longrightarrow>
    Add ord now f (tf_buffer s) = Ok (b, out) \<Longrightarrow>
    traffic_step s (s\<lparr>tf_buffer := b, tf_now := now, tf_tasks := image_mset Delivering (mset out) + ts\<rparr>)"
| reject: "tf_tasks s = add_mset (Adding f) ts \<Longrightarrow> Add ord now f (tf_buffer s) = Err e \<Longrightarrow>
    traffic_step s (s\<lparr>tf_tasks := ts\<rparr>)"
| deliver: "tf_tasks s = add_mset (Delivering p) ts \<Longrightarrow>
    traffic_step s (s\<lparr>tf_tasks := ts, tf_delivered := tf_delivered s @ [p]\<rparr>)"
| tick: "tf_now s \<le> now \<Longrightarrow>
    traffic_step s (s\<lparr>tf_buffer := cleanup now (tf_buffer s), tf_now := now\<rparr>)"

text \<open>The fragments that are to be added and the packets that are to be delivered.\<close>

fun task_adding :: "add_task \<Rightarrow> bytes multiset" where
  "task_adding (Adding f) = {#f#}"
| "task_adding (Delivering p) = {#}"

fun task_delivering :: "add_task \<Rightarrow> bytes multiset" where
  "task_delivering (Adding f) = {#}"
| "task_delivering (Delivering p) = {#p#}"

definition adding :: "add_task multiset \<Rightarrow> bytes multiset" where
  "adding ts = \<Sum>\<^sub># (image_mset task_adding ts)"

definition delivering :: "add_task multiset \<Rightarrow> bytes multiset" where
  "delivering ts = \<Sum>\<^sub># (image_mset task_delivering ts)"

lemma adding_simps [simp]:
  "adding {#} = {#}" "adding (add_mset t ts) = task_adding t + adding ts"
  "adding (image_mset Delivering P + ts) = adding ts"
  "delivering {#} = {#}" "delivering (add_mset t ts) = task_delivering t + delivering ts"
  "delivering (image_mset Delivering P + ts) = P + delivering ts"
  by (induction P; simp add: adding_def delivering_def)+

section \<open>Packets on their way\<close>

text \<open>A packet with its header, cut into \<open>tp_n\<close> blocks of \<open>tp_m\<close> bytes.\<close>

record trip =
  tp_h :: ip_header
  tp_payload :: bytes
  tp_m :: nat
  tp_n :: nat

definition trip_ok :: "trip \<Rightarrow> bool" where
  "trip_ok T \<longleftrightarrow> trip_setting (tp_h T) (tp_payload T) (tp_m T) (tp_n T)"

definition trip_frag :: "trip \<Rightarrow> nat \<Rightarrow> bytes" where
  "trip_frag T i = frag_at (tp_h T) (tp_payload T) (tp_m T) i"

definition trip_packet :: "trip \<Rightarrow> bytes" where
  "trip_packet T = header_bytes (tp_h T) @ tp_payload T"

definition trip_id :: "trip \<Rightarrow> fragment_key" where
  "trip_id T = key_of (tp_h T)"

definition trip_frags :: "trip list \<Rightarrow> bytes list" where
  "trip_frags Ts = concat (map (\<lambda>T. map (trip_frag T) [0..<tp_n T]) Ts)"

text \<open>What the buffer holds of a packet of which the fragments \<open>js\<close> have arrived.\<close>

definition stored :: "trip \<Rightarrow> int \<Rightarrow> nat list \<Rightarrow> fragment_group option" where
  "stored T t js =
     (if js = [] \<or> set js = {..<tp_n T} then None
      else Some (group_of (tp_h T) (tp_payload T) (tp_m T) (tp_n T) t js))"

lemma trip_add:
  assumes "trip_ok T" "set js \<subseteq> {..<tp_n T}" "i < tp_n T" "i \<notin> set js" "distinct js"
    and "map_get (rb_groups b) (trip_id T) = stored T t js" "is_range_order ord"
  obtains b' where
    "Add ord now (trip_frag T i) b = Ok (b', if set (js @ [i]) = {..<tp_n T} then [trip_packet T] else [])"
    "map_get (rb_groups b') =
      (map_get (rb_groups b))(trip_id T := stored T (if js = [] then now else t) (js @ [i]))"
    "rs_FragmentsAdded (rb_stats b') = rs_FragmentsAdded (rb_stats b) + 1"
    "rs_Reassembled (rb_stats b') = rs_Reassembled (rb_stats b) + (if set (js @ [i]) = {..<tp_n T} then 1 else 0)"
    "rs_Evicted (rb_stats b') = rs_Evicted (rb_stats b)"
proof -
  note ok = assms(1) [unfolded trip_ok_def]
  let ?h = "frag_at_header (tp_h T) (length (tp_payload T)) (tp_m T) i"
  let ?g = "group_of (tp_h T) (tp_payload T) (tp_m T) (tp_n T) (if js = [] then now else t) (js @ [i])"
  note P = trip_parses(1) [OF ok assms(3)] and F = trip_is_fragment(1) [OF ok assms(3)]
  have new: "new_group now = group_of (tp_h T) (tp_payload T) (tp_m T) (tp_n T) now []"
    using ok by (simp add: new_group_def group_of_def entries_of_def)
  have ne: "set js \<noteq> {..<tp_n T}" using assms(3,4) by auto
  have g: "(case map_get (rb_groups b) (trip_id T) of None \<Rightarrow> new_group now | Some g \<Rightarrow> g)
      = group_of (tp_h T) (tp_payload T) (tp_m T) (tp_n T) (if js = [] then now else t) js"
    unfolding assms(6) stored_def by (simp add: new ne)
  have j: "joined now ?h (trip_frag T i) b = ?g"
    unfolding joined_def trip_key trip_frag_def trip_id_def [symmetric] g
    by (rule store_group_of [OF ok assms(2-4)])
  have "map_get (entries_of (tp_h T) (tp_payload T) (tp_m T) js) (frag_off (tp_m T) i) = None"
    using map_get_entries [OF ok assms(2,3)] assms(4) by simp
  then have s: "joined_stats ?h b = (rb_stats b)\<lparr>
           rs_GroupsActive := rs_GroupsActive (rb_stats b) + (if js = [] then 1 else 0),
           rs_FragmentsAdded := rs_FragmentsAdded (rb_stats b) + 1\<rparr>"
    unfolding joined_stats_def trip_key trip_id_def [symmetric] assms(6) stored_def Let_def
    by (simp add: ne group_of_def trip_frag_off(2) [OF ok assms(3)])
  have c: "group_complete ?g \<longleftrightarrow> set (js @ [i]) = {..<tp_n T}"
    using assms(2-5) by (intro group_complete_of [OF ok]) auto
  show thesis
  proof (cases "set (js @ [i]) = {..<tp_n T}")
    case True
    then have "group_complete (joined now ?h (trip_frag T i) b)" by (simp only: j c)
    note A = Add_complete [OF P F this [unfolded trip_frag_def], where ord = ord,
        folded trip_frag_def, unfolded j s trip_key, folded trip_id_def,
        unfolded reassemble_trip [OF ok True assms(7)] outcome.case Let_def, folded trip_packet_def]
    show ?thesis
      by (rule that, unfold if_P [OF True], rule A)
        (simp_all add: delete_conv' update_conv' stored_def True [simplified])
  next
    case False
    then have "\<not> group_complete (joined now ?h (trip_frag T i) b)" by (simp only: j c) simp
    note A = Add_store [OF P F this [unfolded trip_frag_def], where ord = ord,
        folded trip_frag_def, unfolded j s trip_key, folded trip_id_def]
    show ?thesis
      by (rule that, unfold if_not_P [OF False], rule A)
        (simp_all add: update_conv' stored_def False [simplified])
  qed
qed

section \<open>The invariant\<close>

text \<open>Packets that can be told apart.\<close>

definition apart :: "trip list \<Rightarrow> bool" where
  "apart Ts \<longleftrightarrow> list_all trip_ok Ts \<and> distinct (map trip_id Ts)"

lemma apart_D:
  "apart Ts \<Longrightarrow> T \<in> set Ts \<Longrightarrow> trip_ok T"
  "apart Ts \<Longrightarrow> T \<in> set Ts \<Longrightarrow> T' \<in> set Ts \<Longrightarrow> trip_id T = trip_id T' \<Longrightarrow> T = T'"
  "apart Ts \<Longrightarrow> distinct Ts"
  by (auto simp: apart_def list_all_iff distinct_map dest: inj_onD)

lemma trip_frag_inj:
  assumes "apart Ts" "T \<in> set Ts" "T' \<in> set Ts" "i < tp_n T" "i' < tp_n T'" "trip_frag T i = trip_frag T' i'"
  shows "T = T' \<and> i = i'"
proof -
  note ok = apart_D(1) [OF assms(1,2), unfolded trip_ok_def] apart_D(1) [OF assms(1,3), unfolded trip_ok_def]
  have h: "frag_at_header (tp_h T) (length (tp_payload T)) (tp_m T) i
      = frag_at_header (tp_h T') (length (tp_payload T')) (tp_m T') i'"
    using trip_parses(1) [OF ok(1) assms(4)] trip_parses(1) [OF ok(2) assms(5)] assms(6)
    by (simp add: trip_frag_def)
  from arg_cong [OF this, of key_of] have T: "T = T'"
    using apart_D(2) [OF assms(1-3)] by (simp add: trip_id_def)
  from arg_cong [OF h, of ip_FragOffset] have "frag_off (tp_m T) i = frag_off (tp_m T) i'"
    using T trip_frag_off(2) [OF ok(1) assms(4)] trip_frag_off(2) [OF ok(2) assms(5)] by simp
  then show ?thesis using T frag_off_inj [OF ok(1) assms(4)] assms(5) by simp
qed

lemma distinct_trip_frags: "apart Ts \<Longrightarrow> distinct (trip_frags Ts)"
proof -
  assume a: "apart Ts"
  have "distinct (concat (map (\<lambda>T. map (trip_frag T) [0..<tp_n T]) Us))" if "set Us \<subseteq> set Ts" "distinct Us" for Us
    using that
  proof (induction Us)
    case (Cons U Us)
    have "inj_on (trip_frag U) (set [0..<tp_n U])"
      using trip_frag_inj [OF a, of U U] Cons.prems(1) by (auto intro!: inj_onI)
    moreover have "trip_frag U i \<noteq> trip_frag T j" if "i < tp_n U" "T \<in> set Us" "j < tp_n T" for T i j
      using trip_frag_inj [OF a, of U T i j] that Cons.prems by auto
    ultimately show ?case using Cons by (auto simp: distinct_map)
  qed simp
  then show ?thesis using apart_D(3) [OF a] by (simp add: trip_frags_def)
qed

text \<open>The fragments of a packet among those that have been added, and whether they are all.\<close>

definition progress :: "trip \<Rightarrow> (trip \<times> nat) list \<Rightarrow> nat list" where
  "progress T added = map snd (filter (\<lambda>x. fst x = T) added)"

definition arrived :: "(trip \<times> nat) list \<Rightarrow> trip \<Rightarrow> bool" where
  "arrived added T \<longleftrightarrow> set (progress T added) = {..<tp_n T}"

lemma progress_snoc:
  "progress T (added @ [(T', i)]) = (if T = T' then progress T added @ [i] else progress T added)"
  by (simp add: progress_def)

lemma set_progress: "i \<in> set (progress T added) \<longleftrightarrow> (T, i) \<in> set added"
  by (force simp: progress_def)

lemma distinct_progress: "distinct added \<Longrightarrow> distinct (progress T added)"
  by (auto simp: progress_def distinct_map inj_on_def)

definition traffic_inv :: "trip list \<Rightarrow> int \<Rightarrow> traffic \<Rightarrow> (trip \<times> nat) list \<Rightarrow> bool" where
  "traffic_inv Ts t0 s added \<longleftrightarrow>
     set added \<subseteq> (SIGMA T:set Ts. {..<tp_n T}) \<and> distinct added
     \<and> mset (tf_called s) = adding (tf_tasks s) + mset (map (\<lambda>(T, i). trip_frag T i) added)
     \<and> mset (tf_delivered s) + delivering (tf_tasks s) = mset (map trip_packet (filter (arrived added) Ts))
     \<and> (\<forall>T \<in> set Ts. \<exists>t \<ge> t0. map_get (rb_groups (tf_buffer s)) (trip_id T) = stored T t (progress T added))
     \<and> (\<forall>k. k \<notin> trip_id ` set Ts \<longrightarrow> map_get (rb_groups (tf_buffer s)) k = None)
     \<and> buffer_inv (tf_buffer s) \<and> t0 \<le> tf_now s
     \<and> rs_FragmentsAdded (rb_stats (tf_buffer s)) = int (length added)
     \<and> rs_Reassembled (rb_stats (tf_buffer s)) = int (length (filter (arrived added) Ts))
     \<and> rs_Evicted (rb_stats (tf_buffer s)) = 0"

lemma mset_filter_insert:
  "distinct xs \<Longrightarrow> x \<in> set xs \<Longrightarrow> \<not> P x \<Longrightarrow> (\<And>y. y \<noteq> x \<Longrightarrow> Q y = P y) \<Longrightarrow>
   mset (filter Q xs) = (if Q x then add_mset x (mset (filter P xs)) else mset (filter P xs))"
proof (induction xs)
  case (Cons y ys)
  show ?case
  proof (cases "y = x")
    case True
    then have "Q z = P z" if "z \<in> set ys" for z using Cons.prems(1,4) that by (metis distinct.simps(2))
    then have "filter Q ys = filter P ys" by (intro filter_cong) simp_all
    then show ?thesis using True Cons.prems(3) by simp
  next
    case False
    then show ?thesis using Cons by auto
  qed
qed simp

text \<open>A fragment that is to be added is one of those expected, and not among those that were.\<close>

lemma pending_fragment:
  assumes "traffic_inv Ts t0 s added" "apart Ts" "mset (tf_called s) \<subseteq># mset (trip_frags Ts)"
    and "Adding f \<in># tf_tasks s"
  obtains T i where "f = trip_frag T i" "T \<in> set Ts" "i < tp_n T" "(T, i) \<notin> set added"
proof -
  note inv = assms(1) [unfolded traffic_inv_def]
  obtain ts where "tf_tasks s = add_mset (Adding f) ts" using assms(4) by (meson mset_add)
  then have a: "f \<in># adding (tf_tasks s)" by simp
  then have "f \<in># mset (tf_called s)" using inv by simp
  then have "f \<in> set (trip_frags Ts)" using mset_subset_eqD [OF assms(3)] by simp
  then obtain T i where f: "f = trip_frag T i" "T \<in> set Ts" "i < tp_n T"
    by (auto simp: trip_frags_def)
  have "count (mset (tf_called s)) f \<le> count (mset (trip_frags Ts)) f"
    using assms(3) by (rule mset_subset_eq_count)
  also have "\<dots> \<le> 1"
    using distinct_trip_frags [OF assms(2)] by (simp add: distinct_count_atmost_1)
  finally have "count (adding (tf_tasks s)) f + count (mset (map (\<lambda>(T, i). trip_frag T i) added)) f \<le> 1"
    using inv by (metis count_union)
  moreover have "1 \<le> count (adding (tf_tasks s)) f" using a by simp
  ultimately have "count (mset (map (\<lambda>(T, i). trip_frag T i) added)) f = 0" by linarith
  then have "f \<notin># mset (map (\<lambda>(T, i). trip_frag T i) added)" by (rule count_eq_zero_iff [THEN iffD1])
  then have "(T, i) \<notin> set added" using f(1) by force
  then show thesis using f that by blast
qed

lemma add_keeps:
  assumes "traffic_inv Ts t0 s added" "apart Ts" "mset (tf_called s) \<subseteq># mset (trip_frags Ts)"
    and "tf_tasks s = add_mset (Adding f) ts" "tf_now s \<le> now" "is_range_order ord"
  obtains b out added' where "Add ord now f (tf_buffer s) = Ok (b, out)"
    "traffic_inv Ts t0 (s\<lparr>tf_buffer := b, tf_now := now, tf_tasks := image_mset Delivering (mset out) + ts\<rparr>) added'"
proof -
  note inv = assms(1) [unfolded traffic_inv_def]
  obtain T i where f: "f = trip_frag T i" and T: "T \<in> set Ts" "i < tp_n T" and n: "(T, i) \<notin> set added"
    using pending_fragment [OF assms(1-3), of f] assms(4) by auto
  let ?js = "progress T added" and ?added = "added @ [(T, i)]"
  have js: "set ?js \<subseteq> {..<tp_n T}" "i \<notin> set ?js" "distinct ?js"
    using inv n distinct_progress by (auto simp: set_progress)
  obtain t where t: "t0 \<le> t" "map_get (rb_groups (tf_buffer s)) (trip_id T) = stored T t ?js"
    using inv T(1) by blast
  have p: "progress T ?added = ?js @ [i]" "\<And>U. U \<noteq> T \<Longrightarrow> progress U ?added = progress U added"
    by (simp_all add: progress_snoc)
  have c: "arrived ?added T \<longleftrightarrow> set (?js @ [i]) = {..<tp_n T}" by (simp only: arrived_def p)
  have "\<not> arrived added T" using js(2) T(2) by (auto simp: arrived_def)
  then have F: "mset (filter (arrived ?added) Ts) =
      (if arrived ?added T then add_mset T (mset (filter (arrived added) Ts)) else mset (filter (arrived added) Ts))"
    using apart_D(3) [OF assms(2)] T(1) by (intro mset_filter_insert) (simp_all add: arrived_def p(2))
  obtain b' where A: "Add ord now f (tf_buffer s) = Ok (b', if arrived ?added T then [trip_packet T] else [])"
    and g: "map_get (rb_groups b') =
      (map_get (rb_groups (tf_buffer s)))(trip_id T := stored T (if ?js = [] then now else t) (?js @ [i]))"
    and st: "rs_FragmentsAdded (rb_stats b') = rs_FragmentsAdded (rb_stats (tf_buffer s)) + 1"
      "rs_Reassembled (rb_stats b') = rs_Reassembled (rb_stats (tf_buffer s)) + (if arrived ?added T then 1 else 0)"
      "rs_Evicted (rb_stats b') = rs_Evicted (rb_stats (tf_buffer s))"
    using trip_add [OF apart_D(1) [OF assms(2) T(1)] js(1) T(2) js(2,3) t(2) assms(6), of now] unfolding f c by blast
  let ?out = "if arrived ?added T then [trip_packet T] else []"
  let ?s = "s\<lparr>tf_buffer := b', tf_now := now, tf_tasks := image_mset Delivering (mset ?out) + ts\<rparr>"
  have "buffer_inv b'" using inv A by (blast intro: Add_inv)
  moreover have "\<exists>t \<ge> t0. map_get (rb_groups b') (trip_id U) = stored U t (progress U ?added)" if "U \<in> set Ts" for U
  proof (cases "U = T")
    case True
    then show ?thesis using t(1) inv assms(5) by (intro exI [of _ "if ?js = [] then now else t"]) (simp add: g p(1))
  next
    case False
    then have "trip_id U \<noteq> trip_id T" using apart_D(2) [OF assms(2) that T(1)] by blast
    then show ?thesis using inv that False by (simp add: g p(2))
  qed
  moreover have "map_get (rb_groups b') k = None" if "k \<notin> trip_id ` set Ts" for k
    using inv that T(1) by (auto simp: g)
  moreover have "mset (tf_delivered s) + delivering ts = image_mset trip_packet (mset (filter (arrived added) Ts))"
    using inv assms(4) by simp
  then have "mset (tf_delivered s) + delivering (image_mset Delivering (mset ?out) + ts)
      = image_mset trip_packet (mset (filter (arrived ?added) Ts))"
    unfolding F adding_simps union_assoc [symmetric] by (simp add: union_ac)
  then have "mset (tf_delivered s) + delivering (image_mset Delivering (mset ?out) + ts)
      = mset (map trip_packet (filter (arrived ?added) Ts))" by (simp only: mset_map)
  moreover have "int (length (filter (arrived ?added) Ts)) =
      int (length (filter (arrived added) Ts)) + (if arrived ?added T then 1 else 0)"
    using arg_cong [OF F, of size] by (simp del: mset_filter split: if_splits)
  moreover have "mset (tf_called s) = adding (image_mset Delivering (mset ?out) + ts)
      + mset (map (\<lambda>(T, i). trip_frag T i) ?added)"
    using inv assms(4) by (simp add: f)
  moreover have "set ?added \<subseteq> (SIGMA T:set Ts. {..<tp_n T})" "distinct ?added"
    using inv T n by auto
  ultimately have "traffic_inv Ts t0 ?s ?added"
    using inv assms(5) st unfolding traffic_inv_def traffic.simps by (intro conjI) auto
  then show thesis using A that by blast
qed

text \<open>Before its time is up, \<open>cleanup\<close> leaves the buffer as it is.\<close>

lemma cleanup_nothing:
  assumes "map_ok (rb_groups b)"
    and "\<And>k g. map_get (rb_groups b) k = Some g \<Longrightarrow> now - fg_createdAt g \<le> group_timeout"
  shows "cleanup now b = b"
proof -
  have e: "\<not> expired now (snd e)" if "e \<in> set (rb_groups b)" for e
    using assms(2) [of "fst e" "snd e"] that gm.get_entries_iff [OF assms(1)] by (simp add: expired_def)
  then have "filter (\<lambda>e. expired now (snd e)) (rb_groups b) = []"
    "filter (\<lambda>e. \<not> expired now (snd e)) (rb_groups b) = rb_groups b"
    by (simp_all add: filter_empty_conv)
  then show ?thesis by (simp add: cleanup_eq [OF assms(1)])
qed

lemma cleanup_keeps:
  assumes "traffic_inv Ts t0 s added" "now \<le> t0 + group_timeout"
  shows "cleanup now (tf_buffer s) = tf_buffer s"
proof (rule cleanup_nothing)
  note inv = assms(1) [unfolded traffic_inv_def]
  show "map_ok (rb_groups (tf_buffer s))" using inv by (simp add: buffer_inv_def)
  fix k g assume g: "map_get (rb_groups (tf_buffer s)) k = Some g"
  then have "k \<in> trip_id ` set Ts" using inv by force
  then obtain T where T: "T \<in> set Ts" "k = trip_id T" by auto
  then obtain t where "t0 \<le> t" "Some g = stored T t (progress T added)" using inv g by metis
  then show "now - fg_createdAt g \<le> group_timeout"
    using assms(2) by (auto simp: stored_def group_of_def split: if_splits)
qed

lemma Add_Err_iff: "Add ord now f b = Err e \<longleftrightarrow> ParseHeader f = Err e"
  by (auto simp: Add_def Let_def split: outcome.splits)

lemma traffic_step_inv:
  assumes "traffic_step s s'" "traffic_inv Ts t0 s added" "apart Ts"
    and "mset (tf_called s) \<subseteq># mset (trip_frags Ts)" "tf_now s' \<le> t0 + group_timeout"
  shows "\<exists>added'. traffic_inv Ts t0 s' added'"
  using assms(1)
proof cases
  case (call f)
  have "traffic_inv Ts t0 s' added" using assms(2) by (simp add: call traffic_inv_def)
  then show ?thesis ..
next
  case (add f ts now ord b out)
  obtain b' out' added' where "Add ord now f (tf_buffer s) = Ok (b', out')"
    "traffic_inv Ts t0 (s\<lparr>tf_buffer := b', tf_now := now, tf_tasks := image_mset Delivering (mset out') + ts\<rparr>) added'"
    using add_keeps [OF assms(2-4) add(2-4)] .
  then show ?thesis using add(1,5) by auto
next
  case (reject f ts ord now e)
  have "Adding f \<in># tf_tasks s" by (simp add: reject(2))
  from pending_fragment [OF assms(2-4) this]
  obtain T i where "f = trip_frag T i" "T \<in> set Ts" "i < tp_n T" by blast
  then have "ParseHeader f \<noteq> Err e"
    using trip_parses(1) [of "tp_h T" "tp_payload T" "tp_m T" "tp_n T" i] apart_D(1) [OF assms(3)]
    by (simp add: trip_frag_def trip_ok_def)
  then show ?thesis using reject(3) by (simp add: Add_Err_iff)
next
  case (deliver p ts)
  have "traffic_inv Ts t0 s' added" using assms(2) by (simp add: deliver traffic_inv_def)
  then show ?thesis ..
next
  case (tick now)
  have "cleanup now (tf_buffer s) = tf_buffer s"
    using cleanup_keeps [OF assms(2)] assms(5) by (simp add: tick(1))
  then have "traffic_inv Ts t0 s' added" using assms(2) tick(2) by (simp add: tick(1) traffic_inv_def)
  then show ?thesis ..
qed

lemma traffic_step_mono:
  "traffic_step s s' \<Longrightarrow> mset (tf_called s) \<subseteq># mset (tf_called s') \<and> tf_now s \<le> tf_now s'"
  by (erule traffic_step.cases) simp_all

lemma traffic_start_inv:
  assumes "apart Ts"
  shows "traffic_inv Ts t0 (traffic_start t0) []"
proof -
  have "\<not> arrived [] T" if "T \<in> set Ts" for T
  proof -
    have "2 \<le> tp_n T" using apart_D(1) [OF assms that] by (simp add: trip_ok_def trip_setting_def)
    then have "0 \<in> {..<tp_n T}" by simp
    then show ?thesis by (auto simp: arrived_def progress_def)
  qed
  then have "filter (arrived []) Ts = []" by (simp add: filter_empty_conv)
  then show ?thesis
    using NewReassemblyBuffer_inv
    by (auto simp: traffic_inv_def traffic_start_def NewReassemblyBuffer_def stored_def progress_def)
qed

lemma traffic_run_inv:
  assumes "traffic_step\<^sup>*\<^sup>* (traffic_start t0) s" "apart Ts"
    and "mset (tf_called s) \<subseteq># mset (trip_frags Ts)" "tf_now s \<le> t0 + group_timeout"
  shows "\<exists>added. traffic_inv Ts t0 s added"
  using assms(1,3,4)
proof (induction rule: rtranclp_induct)
  case base
  show ?case using traffic_start_inv [OF assms(2)] by blast
next
  case (step s s')
  have m: "mset (tf_called s) \<subseteq># mset (trip_frags Ts)" "tf_now s \<le> t0 + group_timeout"
    using traffic_step_mono [OF step(2)] step.prems by (auto intro: subset_mset.order_trans)
  then obtain added where "traffic_inv Ts t0 s added" using step.IH by blast
  then show ?case using traffic_step_inv [OF step(2) _ assms(2) m(1) step.prems(2)] by blast
qed

lemma traffic_inv_delivered:
  assumes "traffic_inv Ts t0 s added"
  shows "mset (tf_delivered s) \<subseteq># mset (map trip_packet Ts)"
proof -
  have "mset (tf_delivered s) \<subseteq># mset (map trip_packet (filter (arrived added) Ts))"
    using assms by (metis mset_subset_eq_add_left traffic_inv_def)
  also have "\<dots> \<subseteq># mset (map trip_packet Ts)"
    by (simp add: image_mset_subseteq_mono)
  finally show ?thesis .
qed

text \<open>When everything has been added, everything has arrived.\<close>

lemma traffic_inv_end:
  assumes "traffic_inv Ts t0 s added" "apart Ts" "mset (tf_called s) \<subseteq># mset (trip_frags Ts)"
    and "tf_tasks s = {#}" "length (tf_called s) = length (trip_frags Ts)"
  shows "mset (tf_delivered s) = mset (map trip_packet Ts) \<and> rb_groups (tf_buffer s) = []
    \<and> Stats (tf_buffer s) = \<lparr>rs_GroupsActive = 0, rs_FragmentsAdded = int (length (tf_called s)),
         rs_Reassembled = int (length Ts), rs_Evicted = 0\<rparr>"
proof -
  note inv = assms(1) [unfolded traffic_inv_def]
  have "mset (tf_called s) = mset (trip_frags Ts)"
    using assms(3,5) by (metis size_mset mset_subset_size nless_le subset_mset.le_less)
  then have m: "mset (map (\<lambda>(T, i). trip_frag T i) added) = mset (trip_frags Ts)"
    using inv assms(4) by simp
  have all: "(T, i) \<in> set added" if "T \<in> set Ts" "i < tp_n T" for T i
  proof -
    have "trip_frag T i \<in> set (trip_frags Ts)" using that by (force simp: trip_frags_def)
    then have "trip_frag T i \<in> (\<lambda>(T, i). trip_frag T i) ` set added" using mset_eq_setD [OF m] by simp
    then obtain U j where u: "(U, j) \<in> set added" "trip_frag T i = trip_frag U j" by auto
    then have "U \<in> set Ts" "j < tp_n U" using inv by auto
    then show ?thesis using trip_frag_inj [OF assms(2) that(1) _ that(2)] u by blast
  qed
  have arr: "arrived added T" if "T \<in> set Ts" for T
    using inv all [OF that] by (auto simp: arrived_def set_progress)
  then have f: "filter (arrived added) Ts = Ts" by (simp add: filter_id_conv)
  have "map_get (rb_groups (tf_buffer s)) k = None" for k
  proof (cases "k \<in> trip_id ` set Ts")
    case True
    then obtain T where T: "T \<in> set Ts" "k = trip_id T" by auto
    then obtain t where "map_get (rb_groups (tf_buffer s)) k = stored T t (progress T added)" using inv by blast
    then show ?thesis using arr [OF T(1)] by (simp add: stored_def arrived_def)
  qed (use inv in blast)
  then have "map_get (rb_groups (tf_buffer s)) = Map.empty" by blast
  then have g: "rb_groups (tf_buffer s) = []" by simp
  have "length (tf_called s) = length added" using inv assms(4) by (metis adding_simps(1) empty_neutral(1) length_map size_mset)
  then show ?thesis
    using inv assms(4) f g by (auto simp: buffer_inv_def Stats_def)
qed

text \<open>The fragments can indeed be added, in whatever order.\<close>

lemma deliver_run:
  "tf_tasks s = image_mset Delivering (mset out) \<Longrightarrow>
   traffic_step\<^sup>*\<^sup>* s (s\<lparr>tf_tasks := {#}, tf_delivered := tf_delivered s @ out\<rparr>)"
proof (induction out arbitrary: s)
  case (Cons p out)
  let ?s = "s\<lparr>tf_tasks := image_mset Delivering (mset out), tf_delivered := tf_delivered s @ [p]\<rparr>"
  have "traffic_step s ?s" by (rule traffic_step.deliver) (simp add: Cons.prems)
  also have "traffic_step\<^sup>*\<^sup>* ?s (?s\<lparr>tf_tasks := {#}, tf_delivered := tf_delivered ?s @ out\<rparr>)"
    by (rule Cons.IH) simp
  finally show ?case by simp
next
  case Nil
  then show ?case by (cases s) simp
qed

lemma traffic_run_exists:
  assumes "apart Ts" "mset fs \<subseteq># mset (trip_frags Ts)"
  shows "\<exists>s. traffic_step\<^sup>*\<^sup>* (traffic_start t0) s \<and> tf_tasks s = {#} \<and> tf_called s = fs \<and> tf_now s = t0"
  using assms(2)
proof (induction fs rule: rev_induct)
  case Nil
  show ?case by (intro exI [of _ "traffic_start t0"]) (simp add: traffic_start_def)
next
  case (snoc f fs)
  have "mset fs \<subseteq># mset (trip_frags Ts)"
    using snoc.prems by (simp add: insert_subset_eq_iff subset_mset.add_decreasing2) (meson diff_subset_eq_self subset_mset.order_trans)
  then obtain s where s: "traffic_step\<^sup>*\<^sup>* (traffic_start t0) s" "tf_tasks s = {#}" "tf_called s = fs" "tf_now s = t0"
    using snoc.IH by blast
  let ?s = "s\<lparr>tf_tasks := add_mset (Adding f) (tf_tasks s), tf_called := tf_called s @ [f]\<rparr>"
  have r: "traffic_step\<^sup>*\<^sup>* (traffic_start t0) ?s"
    using s(1) traffic_step.call [of s f] by (rule rtranclp.rtrancl_into_rtrancl)
  have c: "mset (tf_called ?s) \<subseteq># mset (trip_frags Ts)" using snoc.prems s(3) by simp
  obtain added where i: "traffic_inv Ts t0 ?s added"
    using traffic_run_inv [OF r assms(1) c] s(4) by (auto simp: group_timeout_def)
  have t: "tf_tasks ?s = add_mset (Adding f) {#}" "tf_now ?s \<le> t0" using s(2,4) by simp_all
  obtain b out where A: "Add id t0 f (tf_buffer ?s) = Ok (b, out)"
    using add_keeps [OF i assms(1) c t id_range_order] by blast
  let ?s' = "?s\<lparr>tf_buffer := b, tf_now := t0, tf_tasks := image_mset Delivering (mset out) + {#}\<rparr>"
  have "traffic_step ?s ?s'" by (rule traffic_step.add [OF t id_range_order A])
  with r have "traffic_step\<^sup>*\<^sup>* (traffic_start t0) ?s'" by (rule rtranclp.rtrancl_into_rtrancl)
  also have "traffic_step\<^sup>*\<^sup>* ?s' (?s'\<lparr>tf_tasks := {#}, tf_delivered := tf_delivered ?s' @ out\<rparr>)"
    by (rule deliver_run) simp
  finally show ?case using s(3) by (intro exI conjI) (assumption | simp)+
qed

section \<open>Packets and their fragments\<close>

text \<open>
  A complete packet that may be fragmented for a link of this MTU, and has to be; its fragments; and
  what tells its fragments from those of other packets.
\<close>

definition fragmentable :: "bytes \<Rightarrow> int \<Rightarrow> bool" where
  "fragmentable packet mtu =
     (case ParseHeader packet of
        Ok h \<Rightarrow> unat (ip_TotalLen h) = length packet \<and> seal_header h = Ok (take (HeaderLen h) packet)
          \<and> ip_FragOffset h = 0 \<and> ip_Flags h AND FlagMF = 0 \<and> ip_Flags h AND FlagDF = 0 \<and> 5 \<le> unat (ip_IHL h)
          \<and> mtu < int (length packet) \<and> int (HeaderLen h) + 8 \<le> mtu
      | _ \<Rightarrow> False)"

definition fragments_of :: "bytes \<Rightarrow> int \<Rightarrow> bytes list" where
  "fragments_of packet mtu = (case Fragment packet mtu of Some (Ok frs) \<Rightarrow> frs | _ \<Rightarrow> [])"

definition packet_id :: "bytes \<Rightarrow> fragment_key option" where
  "packet_id packet = (case ParseHeader packet of Ok h \<Rightarrow> Some (key_of h) | _ \<Rightarrow> None)"

lemma fragmentable_trip:
  assumes "fragmentable packet mtu"
  obtains T where "trip_ok T" "trip_packet T = packet" "map (trip_frag T) [0..<tp_n T] = fragments_of packet mtu"
    "packet_id packet = Some (trip_id T)"
proof -
  obtain h where h: "ParseHeader packet = Ok h" using assms by (auto simp: fragmentable_def split: outcome.splits)
  note c = assms [unfolded fragmentable_def h outcome.case]
  obtain m n where s: "trip_setting h (drop (HeaderLen h) packet) m n"
    and F: "Fragment packet mtu = Some (Ok (map (frag_at h (drop (HeaderLen h) packet) m) [0..<n]))"
    and hb: "header_bytes h = take (HeaderLen h) packet"
    using trip_settingI [OF h] c by metis
  let ?T = "\<lparr>tp_h = h, tp_payload = drop (HeaderLen h) packet, tp_m = m, tp_n = n\<rparr>"
  show thesis
    by (rule that [of ?T])
      (simp_all add: trip_ok_def s trip_packet_def hb fragments_of_def F packet_id_def h trip_id_def
        trip_frag_def [abs_def])
qed

lemma fragmentable_trips:
  assumes "list_all (\<lambda>(packet, mtu). fragmentable packet mtu) ps"
  obtains Ts where "list_all trip_ok Ts" "map trip_packet Ts = map fst ps"
    "trip_frags Ts = concat (map (\<lambda>(packet, mtu). fragments_of packet mtu) ps)"
    "map (\<lambda>T. Some (trip_id T)) Ts = map (\<lambda>(packet, mtu). packet_id packet) ps"
  using assms
proof (induction ps arbitrary: thesis)
  case Nil
  show ?case by (rule Nil(1) [of "[]"]) (simp_all add: trip_frags_def)
next
  case (Cons p ps)
  obtain packet mtu where p: "p = (packet, mtu)" by (cases p)
  have a: "fragmentable packet mtu" "list_all (\<lambda>(packet, mtu). fragmentable packet mtu) ps"
    using Cons.prems(2) by (simp_all add: p)
  obtain T where T: "trip_ok T" "trip_packet T = packet"
    "map (trip_frag T) [0..<tp_n T] = fragments_of packet mtu" "packet_id packet = Some (trip_id T)"
    using fragmentable_trip [OF a(1)] .
  obtain Ts where "list_all trip_ok Ts" "map trip_packet Ts = map fst ps"
    "trip_frags Ts = concat (map (\<lambda>(packet, mtu). fragments_of packet mtu) ps)"
    "map (\<lambda>T. Some (trip_id T)) Ts = map (\<lambda>(packet, mtu). packet_id packet) ps"
    using Cons.IH [OF _ a(2)] .
  then show ?case using T by (intro Cons.prems(1) [of "T # Ts"]) (simp_all add: p trip_frags_def)
qed

section \<open>Properties\<close>

text \<open>
  Property C3. The fragments of any number of packets that can be told apart, mixed in any way, added by
  concurrent goroutines with the ticker running, all within the 30 seconds of the buffer: at
  every moment each packet has been delivered at most once and nothing else was, no call that is
  waiting will panic or fail, and when all fragments were added and all goroutines are over, every
  packet has been delivered exactly once, bit for bit, no group is left, and the statistics count
  the fragments and the packets and no eviction.
\<close>

theorem mixed_fragments_delivered:
  assumes "list_all (\<lambda>(packet, mtu). fragmentable packet mtu) ps"
    and "distinct (map (\<lambda>(packet, mtu). packet_id packet) ps)"
    and "traffic_step\<^sup>*\<^sup>* (traffic_start t0) s" "tf_now s \<le> t0 + 30000000000"
    and "mset (tf_called s) \<subseteq># mset (concat (map (\<lambda>(packet, mtu). fragments_of packet mtu) ps))"
  shows "mset (tf_delivered s) \<subseteq># mset (map fst ps)
    \<and> (\<forall>f ord now. Adding f \<in># tf_tasks s \<and> is_range_order ord \<and> tf_now s \<le> now \<longrightarrow>
        (\<exists>b out. Add ord now f (tf_buffer s) = Ok (b, out)))
    \<and> (tf_tasks s = {#} \<and> length (tf_called s) = length (concat (map (\<lambda>(packet, mtu). fragments_of packet mtu) ps)) \<longrightarrow>
        mset (tf_delivered s) = mset (map fst ps) \<and> rb_groups (tf_buffer s) = []
        \<and> Stats (tf_buffer s) = \<lparr>rs_GroupsActive = 0, rs_FragmentsAdded = int (length (tf_called s)),
             rs_Reassembled = int (length ps), rs_Evicted = 0\<rparr>)"
proof -
  obtain Ts where Ts: "list_all trip_ok Ts" "map trip_packet Ts = map fst ps"
    and F: "trip_frags Ts = concat (map (\<lambda>(packet, mtu). fragments_of packet mtu) ps)"
    and K: "map (\<lambda>T. Some (trip_id T)) Ts = map (\<lambda>(packet, mtu). packet_id packet) ps"
    using fragmentable_trips [OF assms(1)] .
  have "distinct (map Some (map trip_id Ts))" using assms(2) by (simp add: K [symmetric] comp_def)
  then have "distinct (map trip_id Ts)" by (rule distinct_map [THEN iffD1, THEN conjunct1])
  then have a: "apart Ts" using Ts(1) by (simp add: apart_def)
  note c = assms(5) [folded F]
  obtain added where i: "traffic_inv Ts t0 s added"
    using traffic_run_inv [OF assms(3) a c] assms(4) by (auto simp: group_timeout_def)
  have "\<exists>b out. Add ord now f (tf_buffer s) = Ok (b, out)"
    if "Adding f \<in># tf_tasks s" "is_range_order ord" "tf_now s \<le> now" for f ord now
    using add_keeps [OF i a c _ that(3,2)] that(1) by (metis mset_add)
  moreover have "mset (tf_delivered s) \<subseteq># mset (map fst ps)"
    using traffic_inv_delivered [OF i] by (simp add: Ts(2) [symmetric])
  moreover have "mset (tf_delivered s) = mset (map fst ps) \<and> rb_groups (tf_buffer s) = []
      \<and> Stats (tf_buffer s) = \<lparr>rs_GroupsActive = 0, rs_FragmentsAdded = int (length (tf_called s)),
             rs_Reassembled = int (length ps), rs_Evicted = 0\<rparr>"
    if "tf_tasks s = {#}" "length (tf_called s) = length (concat (map (\<lambda>(packet, mtu). fragments_of packet mtu) ps))"
  proof -
    have "length ps = length Ts" using arg_cong [OF Ts(2), of length] by simp
    then show ?thesis using traffic_inv_end [OF i a c that(1)] that(2) by (simp add: F Ts(2) [symmetric])
  qed
  ultimately show ?thesis by blast
qed

text \<open>Two packets, their fragments in reverse and so mixed up with each other's.\<close>

definition other_packet :: bytes where
  "other_packet = good_packet[5 := 0x35, 11 := 0x8E]"

theorem mixed_fragments_delivered_witness:
  "\<exists>s. traffic_step\<^sup>*\<^sup>* (traffic_start 0) s \<and> tf_tasks s = {#}
     \<and> tf_called s = rev (fragments_of good_packet 30 @ fragments_of other_packet 28)
     \<and> mset (tf_delivered s) = {#good_packet, other_packet#} \<and> rb_groups (tf_buffer s) = []"
proof -
  let ?ps = "[(good_packet, 30 :: int), (other_packet, 28)]"
  have f: "list_all (\<lambda>(packet, mtu). fragmentable packet mtu) ?ps" by code_simp
  have d: "distinct (map (\<lambda>(packet, mtu). packet_id packet) ?ps)" by code_simp
  let ?fs = "concat (map (\<lambda>(packet, mtu). fragments_of packet mtu) ?ps)"
  obtain Ts where Ts: "list_all trip_ok Ts" "trip_frags Ts = ?fs"
    "map (\<lambda>T. Some (trip_id T)) Ts = map (\<lambda>(packet, mtu). packet_id packet) ?ps"
    using fragmentable_trips [OF f] by blast
  have "distinct (map Some (map trip_id Ts))" using d by (simp only: Ts(3) [symmetric] map_map comp_def)
  then have "distinct (map trip_id Ts)" by (rule distinct_map [THEN iffD1, THEN conjunct1])
  then have a: "apart Ts" using Ts(1) by (simp add: apart_def)
  have "mset (rev ?fs) \<subseteq># mset (trip_frags Ts)" by (simp only: Ts(2) mset_rev)
  then obtain s where s: "traffic_step\<^sup>*\<^sup>* (traffic_start 0) s" "tf_tasks s = {#}" "tf_called s = rev ?fs" "tf_now s = 0"
    using traffic_run_exists [OF a] by blast
  have t: "tf_now s \<le> 0 + 30000000000" "mset (tf_called s) \<subseteq># mset ?fs" "length (tf_called s) = length ?fs"
    using s(3,4) by (simp_all only: mset_rev length_rev)
  have "mset (tf_delivered s) = mset (map fst ?ps) \<and> rb_groups (tf_buffer s) = []"
    using mixed_fragments_delivered [OF f d s(1) t(1,2)] s(2) t(3) by blast
  then show ?thesis using s by (intro exI [of _ s]) simp
qed

end
