(* ===== verification/Dispatcher.thy ===== *)
theory Dispatcher
  imports Ip_Builder "HOL-Library.Multiset"
begin

text \<open>
  \<^verbatim>\<open>internal/ip/dispatcher.go\<close>: the routing of packets to protocol handlers, with its four
  64-bit counters. A handler is a value of an arbitrary type; what it does is an argument of
  \<open>Dispatch\<close>, a function on a world of its own. The read loop calls \<open>Dispatch\<close> in one goroutine
  per packet, so the second half of the theory splits it at its atomic accesses and interleaves
  the goroutines.
\<close>

section \<open>The code\<close>

record dispatch_stats =
  PacketsReceived :: "64 word"
  PacketsInvalid :: "64 word"
  PacketsDropped :: "64 word"
  PacketsDispatched :: "64 word"

record 'h dispatcher =
  disp_handlers :: "(byte \<times> 'h) list"
  packetsReceived :: "64 word"
  packetsInvalid :: "64 word"
  packetsDropped :: "64 word"
  packetsDispatched :: "64 word"

datatype 'e dispatch_error =
  PacketTooShort | InvalidVersion | InvalidHeaderLength | InvalidTotalLength | HandlerError 'e

definition NewDispatcher :: "'h dispatcher" where
  "NewDispatcher = \<lparr>disp_handlers = [], packetsReceived = 0, packetsInvalid = 0,
     packetsDropped = 0, packetsDispatched = 0\<rparr>"

text \<open>\<open>Register\<close> of a handler whose method \<open>Protocol\<close> returns \<open>proto\<close>.\<close>

definition RegisterHandler :: "('h \<Rightarrow> byte) \<Rightarrow> 'h \<Rightarrow> 'h dispatcher \<Rightarrow> 'h dispatcher" where
  "RegisterHandler protocol h d = d\<lparr>disp_handlers := map_put (protocol h) h (disp_handlers d)\<rparr>"

text \<open>The checks of \<open>Dispatch\<close>, and the fields it passes on.\<close>

definition route :: "bytes \<Rightarrow> ('e dispatch_error, byte \<times> bytes \<times> bytes \<times> bytes) outcome" where
  "route raw =
     (if length raw < 20 then Err PacketTooShort
      else if drop_bit 4 (raw ! 0) \<noteq> 4 then Err InvalidVersion
      else let ihl = raw ! 0 AND 0x0F; headerLen = unat ihl * 4
      in if headerLen < 20 \<or> headerLen > length raw then Err InvalidHeaderLength
      else let totalLen = 256 * unat (raw ! 2) + unat (raw ! 3)
      in if totalLen > length raw \<or> totalLen < headerLen then Err InvalidTotalLength
      else let packet = take totalLen raw;
               protocol = packet ! 9;
               srcIP = IPv4 (packet ! 12) (packet ! 13) (packet ! 14) (packet ! 15);
               dstIP = IPv4 (packet ! 16) (packet ! 17) (packet ! 18) (packet ! 19);
               payload = drop headerLen packet
      in Ok (protocol, srcIP, dstIP, payload))"

type_synonym ('h, 'w, 'e) handle_fun = "'h \<Rightarrow> bytes \<Rightarrow> bytes \<Rightarrow> bytes \<Rightarrow> 'w \<Rightarrow> 'w \<times> ('e, unit) outcome"

definition Dispatch ::
  "('h, 'w, 'e) handle_fun \<Rightarrow> bytes \<Rightarrow> 'h dispatcher \<Rightarrow> 'w \<Rightarrow>
   'h dispatcher \<times> 'w \<times> ('e dispatch_error, unit) outcome" where
  "Dispatch handle raw d w =
     (let d = d\<lparr>packetsReceived := packetsReceived d + 1\<rparr>
      in case route raw of
        Err e \<Rightarrow> (d\<lparr>packetsInvalid := packetsInvalid d + 1\<rparr>, w, Err e)
      | Panic \<Rightarrow> (d, w, Panic)
      | Ok (protocol, srcIP, dstIP, payload) \<Rightarrow>
          (case map_get (disp_handlers d) protocol of
             None \<Rightarrow> (d\<lparr>packetsDropped := packetsDropped d + 1\<rparr>, w, Ok ())
           | Some handler \<Rightarrow>
               (let d = d\<lparr>packetsDispatched := packetsDispatched d + 1\<rparr>
                in case handle handler srcIP dstIP payload w of
                  (w, err) \<Rightarrow> (d, w, map_outcome HandlerError id err))))"

definition HandlePacket ::
  "('h, 'w, 'e) handle_fun \<Rightarrow> bytes \<Rightarrow> 'h dispatcher \<Rightarrow> 'w \<Rightarrow>
   'h dispatcher \<times> 'w \<times> ('e dispatch_error, unit) outcome" where
  "HandlePacket handle raw d w = Dispatch handle raw d w"

definition DispatcherStats :: "'h dispatcher \<Rightarrow> dispatch_stats" where
  "DispatcherStats d =
     \<lparr>PacketsReceived = packetsReceived d, PacketsInvalid = packetsInvalid d,
      PacketsDropped = packetsDropped d, PacketsDispatched = packetsDispatched d\<rparr>"

section \<open>Routing\<close>

lemma route_no_panic: "route raw \<noteq> Panic"
  by (simp add: route_def Let_def)

lemma be16_total: "unat (get16 raw 2) = 256 * unat (raw ! 2) + unat (raw ! 3)"
  by (simp add: get16_def unat_be16)

text \<open>On the packets of the header parser with a complete header and body, the checks agree.\<close>

lemma route_of_ParseHeader:
  assumes "ParseHeader raw = Ok h" "5 \<le> unat (ip_IHL h)" "unat (ip_TotalLen h) \<le> length raw"
  shows "route raw = Ok (ip_Protocol h,
    IPv4 (ip_Src h ! 0) (ip_Src h ! 1) (ip_Src h ! 2) (ip_Src h ! 3),
    IPv4 (ip_Dst h ! 0) (ip_Dst h ! 1) (ip_Dst h ! 2) (ip_Dst h ! 3),
    drop (HeaderLen h) (take (unat (ip_TotalLen h)) raw))"
proof -
  have h: "20 \<le> length raw" "drop_bit 4 (raw ! 0) = 4" "ip_IHL h = raw ! 0 AND 0x0F"
    "ip_TotalLen h = get16 raw 2" "ip_Protocol h = raw ! 9"
    "ip_Src h = take 4 (drop 12 raw)" "ip_Dst h = take 4 (drop 16 raw)"
    "HeaderLen h \<le> length raw" "HeaderLen h \<le> unat (ip_TotalLen h)"
    using assms(1) by (auto simp: ParseHeader_def MinHeaderLen_def HeaderLen_def Let_def not_less split: if_splits)
  have t: "unat (ip_TotalLen h) = 256 * unat (raw ! 2) + unat (raw ! 3)"
    by (simp only: h(4) be16_total)
  have l: "HeaderLen h = unat (raw ! 0 AND 0x0F) * 4" "20 \<le> HeaderLen h"
    using assms(2) by (simp_all add: HeaderLen_def h(3))
  have n: "20 \<le> 256 * unat (raw ! 2) + unat (raw ! 3)" using l(2) h(9) t by simp
  show ?thesis
    using h(1,2,8,9) assms(3) l n by (simp add: route_def Let_def h(5,6,7) flip: t)
qed

text \<open>The packets that pass the checks.\<close>

lemma route_accepts:
  "(\<exists>r. route raw = (Ok r :: ('e dispatch_error, _) outcome)) \<longleftrightarrow>
      (\<exists>h. ParseHeader raw = Ok h \<and> 5 \<le> unat (ip_IHL h) \<and> unat (ip_TotalLen h) \<le> length raw)"
proof
  assume "\<exists>r. route raw = (Ok r :: ('e dispatch_error, _) outcome)"
  then have r: "20 \<le> length raw" "drop_bit 4 (raw ! 0) = 4" "20 \<le> unat (raw ! 0 AND 0x0F) * 4"
    "unat (raw ! 0 AND 0x0F) * 4 \<le> length raw" "unat (get16 raw 2) \<le> length raw"
    "unat (raw ! 0 AND 0x0F) * 4 \<le> unat (get16 raw 2)"
    by (auto simp: route_def Let_def be16_total not_less split: if_splits)
  then have "ParseHeader raw \<noteq> Err e" for e by (auto simp: ParseHeader_def MinHeaderLen_def Let_def)
  moreover have "ParseHeader raw \<noteq> Panic" by (simp add: ParseHeader_def Let_def)
  ultimately obtain h where h: "ParseHeader raw = Ok h" by (cases "ParseHeader raw") auto
  then have "ip_IHL h = raw ! 0 AND 0x0F" "ip_TotalLen h = get16 raw 2"
    by (auto simp: ParseHeader_def Let_def split: if_splits)
  then show "\<exists>h. ParseHeader raw = Ok h \<and> 5 \<le> unat (ip_IHL h) \<and> unat (ip_TotalLen h) \<le> length raw"
    using h r by auto
next
  assume "\<exists>h. ParseHeader raw = Ok h \<and> 5 \<le> unat (ip_IHL h) \<and> unat (ip_TotalLen h) \<le> length raw"
  then show "\<exists>r. route raw = (Ok r :: ('e dispatch_error, _) outcome)"
    using route_of_ParseHeader by blast
qed

text \<open>What an accepted packet passes on, compared with its parsed header.\<close>

lemma route_OkD:
  assumes "route raw = (Ok (p, s, t, payload) :: ('e dispatch_error, _) outcome)" "ParseHeader raw = Ok h"
  shows "5 \<le> unat (ip_IHL h)" "unat (ip_TotalLen h) \<le> length raw" "HeaderLen h \<le> unat (ip_TotalLen h)"
proof -
  have i: "ip_IHL h = raw ! 0 AND 0x0F" "ip_TotalLen h = get16 raw 2"
    using assms(2) by (auto simp: ParseHeader_def Let_def split: if_splits)
  show "5 \<le> unat (ip_IHL h)" "unat (ip_TotalLen h) \<le> length raw"
    using assms(1) by (auto simp: route_def Let_def i be16_total not_less split: if_splits)
  show "HeaderLen h \<le> unat (ip_TotalLen h)" using assms(2) by (rule ParseHeader_OkD(4))
qed

lemma route_Ok_payload:
  assumes "route raw = (Ok (p, s, t, payload) :: ('e dispatch_error, _) outcome)" "ParseHeader raw = Ok h"
  shows "p = ip_Protocol h \<and> to4 s = Some (ip_Src h) \<and> to4 t = Some (ip_Dst h)
    \<and> drop (HeaderLen h) raw = payload @ drop (unat (ip_TotalLen h)) raw"
proof -
  note d = route_OkD [OF assms]
  have four: "[a ! 0, a ! Suc 0, a ! 2, a ! 3] = a" if "length a = 4" for a :: bytes
    using that by (elim length_4E) simp
  have e: "p = ip_Protocol h" "s = IPv4 (ip_Src h ! 0) (ip_Src h ! 1) (ip_Src h ! 2) (ip_Src h ! 3)"
    "t = IPv4 (ip_Dst h ! 0) (ip_Dst h ! 1) (ip_Dst h ! 2) (ip_Dst h ! 3)"
    "payload = drop (HeaderLen h) (take (unat (ip_TotalLen h)) raw)"
    using assms(1) route_of_ParseHeader [OF assms(2) d(1,2), where ?'a = 'e] by simp_all
  have "drop (HeaderLen h) (take (unat (ip_TotalLen h)) raw @ drop (unat (ip_TotalLen h)) raw)
      = payload @ drop (unat (ip_TotalLen h)) raw"
    unfolding drop_append e(4) using d by simp
  then show ?thesis using e four ParseHeader_OkD(8,9) [OF assms(2)] by simp
qed

lemma Dispatch_cases:
  "Dispatch handle raw d w =
    (let d = d\<lparr>packetsReceived := packetsReceived d + 1\<rparr>
     in case route raw of
       Err e \<Rightarrow> (d\<lparr>packetsInvalid := packetsInvalid d + 1\<rparr>, w, Err e)
     | Panic \<Rightarrow> (d, w, Panic)
     | Ok (p, s, t, payload) \<Rightarrow>
         (case map_get (disp_handlers d) p of
            None \<Rightarrow> (d\<lparr>packetsDropped := packetsDropped d + 1\<rparr>, w, Ok ())
          | Some h \<Rightarrow> (d\<lparr>packetsDispatched := packetsDispatched d + 1\<rparr>, fst (handle h s t payload w),
                       map_outcome HandlerError id (snd (handle h s t payload w)))))"
  by (auto simp: Dispatch_def Let_def split: outcome.splits option.splits prod.splits)

text \<open>A complete packet reaches the handler of its protocol.\<close>

lemma Dispatch_to_handler:
  assumes "ParseHeader raw = Ok h" "5 \<le> unat (ip_IHL h)" "unat (ip_TotalLen h) \<le> length raw"
    and "map_get (disp_handlers d) (ip_Protocol h) = Some hdl"
  shows "\<exists>s t. to4 s = Some (ip_Src h) \<and> to4 t = Some (ip_Dst h)
    \<and> Dispatch handle raw d w =
       (d\<lparr>packetsReceived := packetsReceived d + 1, packetsDispatched := packetsDispatched d + 1\<rparr>,
        fst (handle hdl s t (drop (HeaderLen h) (take (unat (ip_TotalLen h)) raw)) w),
        map_outcome HandlerError id
          (snd (handle hdl s t (drop (HeaderLen h) (take (unat (ip_TotalLen h)) raw)) w)))"
proof -
  let ?s = "IPv4 (ip_Src h ! 0) (ip_Src h ! 1) (ip_Src h ! 2) (ip_Src h ! 3)"
  let ?t = "IPv4 (ip_Dst h ! 0) (ip_Dst h ! 1) (ip_Dst h ! 2) (ip_Dst h ! 3)"
  have "[a ! 0, a ! Suc 0, a ! 2, a ! 3] = a" if "length a = 4" for a :: bytes
    using that by (elim length_4E) simp
  then have "to4 ?s = Some (ip_Src h)" "to4 ?t = Some (ip_Dst h)"
    using ParseHeader_OkD(8,9) [OF assms(1)] by simp_all
  then have "to4 ?s = Some (ip_Src h) \<and> to4 ?t = Some (ip_Dst h)
    \<and> Dispatch handle raw d w =
       (d\<lparr>packetsReceived := packetsReceived d + 1, packetsDispatched := packetsDispatched d + 1\<rparr>,
        fst (handle hdl ?s ?t (drop (HeaderLen h) (take (unat (ip_TotalLen h)) raw)) w),
        map_outcome HandlerError id
          (snd (handle hdl ?s ?t (drop (HeaderLen h) (take (unat (ip_TotalLen h)) raw)) w)))"
    using assms by (simp add: Dispatch_cases Let_def route_of_ParseHeader)
  then show ?thesis by blast
qed

section \<open>Concurrent goroutines\<close>

text \<open>
  One call of \<open>Dispatch\<close> between its accesses to shared state: before the first counter, after
  it, and after the locked lookup of the handler.
\<close>

datatype 'h call =
    Arrived bytes
  | Counted bytes
  | Routed byte "'h option"

record 'h disp_system =
  sys_disp :: "'h dispatcher"
  sys_calls :: "'h call multiset"

inductive disp_step :: "('h \<Rightarrow> byte) \<Rightarrow> 'h disp_system \<Rightarrow> 'h disp_system \<Rightarrow> bool" for protocol where
  spawn: "disp_step protocol s (s\<lparr>sys_calls := add_mset (Arrived raw) (sys_calls s)\<rparr>)"
| register: "disp_step protocol s (s\<lparr>sys_disp := RegisterHandler protocol h (sys_disp s)\<rparr>)"
| receive: "sys_calls s = add_mset (Arrived raw) cs \<Longrightarrow>
    disp_step protocol s \<lparr>sys_disp = (sys_disp s)\<lparr>packetsReceived := packetsReceived (sys_disp s) + 1\<rparr>,
      sys_calls = add_mset (Counted raw) cs\<rparr>"
| reject: "sys_calls s = add_mset (Counted raw) cs \<Longrightarrow> route raw = Err (e :: unit dispatch_error) \<Longrightarrow>
    disp_step protocol s \<lparr>sys_disp = (sys_disp s)\<lparr>packetsInvalid := packetsInvalid (sys_disp s) + 1\<rparr>,
      sys_calls = cs\<rparr>"
| find_handler: "sys_calls s = add_mset (Counted raw) cs \<Longrightarrow>
    route raw = (Ok (p, src, dst, payload) :: (unit dispatch_error, _) outcome) \<Longrightarrow>
    disp_step protocol s (s\<lparr>sys_calls := add_mset (Routed p (map_get (disp_handlers (sys_disp s)) p)) cs\<rparr>)"
| drop_packet: "sys_calls s = add_mset (Routed p None) cs \<Longrightarrow>
    disp_step protocol s \<lparr>sys_disp = (sys_disp s)\<lparr>packetsDropped := packetsDropped (sys_disp s) + 1\<rparr>,
      sys_calls = cs\<rparr>"
| dispatch: "sys_calls s = add_mset (Routed p (Some h)) cs \<Longrightarrow>
    disp_step protocol s \<lparr>sys_disp = (sys_disp s)\<lparr>packetsDispatched := packetsDispatched (sys_disp s) + 1\<rparr>,
      sys_calls = cs\<rparr>"

inductive disp_reachable :: "('h \<Rightarrow> byte) \<Rightarrow> 'h disp_system \<Rightarrow> bool" for protocol where
  start: "disp_reachable protocol \<lparr>sys_disp = NewDispatcher, sys_calls = {#}\<rparr>"
| step: "disp_reachable protocol s \<Longrightarrow> disp_step protocol s s' \<Longrightarrow> disp_reachable protocol s'"

text \<open>A call that has been counted as received and not yet as anything else.\<close>

fun in_flight :: "'h call \<Rightarrow> bool" where
  "in_flight (Arrived raw) = False"
| "in_flight (Counted raw) = True"
| "in_flight (Routed p h) = True"

definition disp_inv :: "('h \<Rightarrow> byte) \<Rightarrow> 'h disp_system \<Rightarrow> bool" where
  "disp_inv protocol s \<longleftrightarrow>
     packetsReceived (sys_disp s) = packetsInvalid (sys_disp s) + packetsDropped (sys_disp s)
       + packetsDispatched (sys_disp s) + of_nat (size (filter_mset in_flight (sys_calls s)))
     \<and> map_ok (disp_handlers (sys_disp s))
     \<and> (\<forall>p h. map_get (disp_handlers (sys_disp s)) p = Some h \<longrightarrow> protocol h = p)
     \<and> (\<forall>p h. Routed p (Some h) \<in># sys_calls s \<longrightarrow> protocol h = p)"

lemma disp_step_inv:
  assumes "disp_step protocol s s'" "disp_inv protocol s"
  shows "disp_inv protocol s'"
  using assms
proof cases
  case (register h)
  then show ?thesis
    using assms(2)
    by (auto simp: disp_inv_def RegisterHandler_def distinct_update update_conv' simp del: map_of_eq_Some_iff
        split: if_splits)
qed (use assms(2) in \<open>auto simp: disp_inv_def algebra_simps split: if_splits\<close>)

lemma disp_reachable_inv: "disp_reachable protocol s \<Longrightarrow> disp_inv protocol s"
proof (induction rule: disp_reachable.induct)
  case start
  then show ?case by (simp add: disp_inv_def NewDispatcher_def)
next
  case (step s s')
  then show ?case by (blast intro: disp_step_inv)
qed

text \<open>One call of \<open>Dispatch\<close> is its steps run without interruption.\<close>

lemma Dispatch_steps:
  fixes handle :: "('h, 'w, unit) handle_fun"
  shows "(disp_step protocol)\<^sup>*\<^sup>* \<lparr>sys_disp = d, sys_calls = add_mset (Arrived raw) cs\<rparr>
     \<lparr>sys_disp = fst (Dispatch handle raw d w), sys_calls = cs\<rparr>"
proof -
  let ?d = "d\<lparr>packetsReceived := packetsReceived d + 1\<rparr>"
  have r: "disp_step protocol \<lparr>sys_disp = d, sys_calls = add_mset (Arrived raw) cs\<rparr>
      \<lparr>sys_disp = ?d, sys_calls = add_mset (Counted raw) cs\<rparr>"
    using disp_step.receive [of "\<lparr>sys_disp = d, sys_calls = add_mset (Arrived raw) cs\<rparr>" raw cs] by simp
  have "(disp_step protocol)\<^sup>*\<^sup>* \<lparr>sys_disp = ?d, sys_calls = add_mset (Counted raw) cs\<rparr>
     \<lparr>sys_disp = fst (Dispatch handle raw d w), sys_calls = cs\<rparr>"
  proof (cases "route raw :: (unit dispatch_error, byte \<times> bytes \<times> bytes \<times> bytes) outcome")
    case (Err e)
    then show ?thesis
      using disp_step.reject [of "\<lparr>sys_disp = ?d, sys_calls = add_mset (Counted raw) cs\<rparr>" raw cs e protocol]
      by (simp add: Dispatch_cases Let_def r_into_rtranclp)
  next
    case (Ok q)
    obtain p src dst payload where q: "q = (p, src, dst, payload)" by (cases q)
    let ?s = "\<lparr>sys_disp = ?d, sys_calls = add_mset (Routed p (map_get (disp_handlers d) p)) cs\<rparr>"
    have f: "disp_step protocol \<lparr>sys_disp = ?d, sys_calls = add_mset (Counted raw) cs\<rparr> ?s"
      using disp_step.find_handler [of "\<lparr>sys_disp = ?d, sys_calls = add_mset (Counted raw) cs\<rparr>" raw cs p src dst payload]
        Ok q by simp
    have "disp_step protocol ?s \<lparr>sys_disp = fst (Dispatch handle raw d w), sys_calls = cs\<rparr>"
      using disp_step.drop_packet [of ?s p cs] disp_step.dispatch [of ?s p _ cs] Ok q
      by (cases "map_get (disp_handlers d) p") (simp_all add: Dispatch_cases Let_def)
    then show ?thesis using f by (meson converse_rtranclp_into_rtranclp r_into_rtranclp)
  qed (simp add: route_no_panic)
  then show ?thesis using r by (meson converse_rtranclp_into_rtranclp)
qed

text \<open>The bytes of the header that \<open>Dispatch\<close> does not look at.\<close>

lemma route_update:
  assumes "i \<in> {4, 5, 6, 7, 10, 11}"
  shows "route (raw[i := b]) = route raw"
proof -
  have n: "take n (raw[i := b]) ! k = take n raw ! k" if "k \<noteq> i" for n k
    using that by (cases "k < n") (auto simp: take_update_swap)
  have "drop m (take n (raw[i := b])) = drop m (take n raw)" if "20 \<le> m" for n m
    using that assms by (auto simp: take_update_swap drop_update_swap)
  moreover have "take n (raw[i := b]) ! k = take n raw ! k" if "k \<in> {9} \<union> {12..19}" for n k
    using that assms by (intro n) auto
  ultimately show ?thesis
    using assms unfolding route_def Let_def
    by (intro if_cong) (auto simp: not_less)
qed

section \<open>Properties\<close>

text \<open>
  Property C13. The dispatcher's own header checks accept exactly the packets that the header
  parser accepts with a complete header and that hold their total length; such a packet is
  passed to the handler registered for its protocol, once, with the addresses of the header and
  the payload without any padding behind the total length, or dropped when there is none.
\<close>

theorem Dispatch_routes:
  "((\<exists>r. route raw = (Ok r :: ('e dispatch_error, _) outcome)) \<longleftrightarrow>
      (\<exists>h. ParseHeader raw = Ok h \<and> 5 \<le> unat (ip_IHL h) \<and> unat (ip_TotalLen h) \<le> length raw))
   \<and> (\<forall>h. ParseHeader raw = Ok h \<and> 5 \<le> unat (ip_IHL h) \<and> unat (ip_TotalLen h) \<le> length raw \<longrightarrow>
        (\<forall>hd. map_get (disp_handlers d) (ip_Protocol h) = Some hd \<longrightarrow>
          (\<exists>s t. to4 s = Some (ip_Src h) \<and> to4 t = Some (ip_Dst h)
            \<and> Dispatch handle raw d w =
               (d\<lparr>packetsReceived := packetsReceived d + 1, packetsDispatched := packetsDispatched d + 1\<rparr>,
                fst (handle hd s t (drop (HeaderLen h) (take (unat (ip_TotalLen h)) raw)) w),
                map_outcome HandlerError id
                  (snd (handle hd s t (drop (HeaderLen h) (take (unat (ip_TotalLen h)) raw)) w)))))
        \<and> (map_get (disp_handlers d) (ip_Protocol h) = None \<longrightarrow> Dispatch handle raw d w =
               (d\<lparr>packetsReceived := packetsReceived d + 1, packetsDropped := packetsDropped d + 1\<rparr>,
                w, Ok ())))"
proof (intro conjI allI impI)
  show "(\<exists>r. route raw = (Ok r :: ('e dispatch_error, _) outcome)) \<longleftrightarrow>
      (\<exists>h. ParseHeader raw = Ok h \<and> 5 \<le> unat (ip_IHL h) \<and> unat (ip_TotalLen h) \<le> length raw)"
    by (rule route_accepts)
next
  fix h hd
  assume h: "ParseHeader raw = Ok h \<and> 5 \<le> unat (ip_IHL h) \<and> unat (ip_TotalLen h) \<le> length raw"
    and hd: "map_get (disp_handlers d) (ip_Protocol h) = Some hd"
  show "\<exists>s t. to4 s = Some (ip_Src h) \<and> to4 t = Some (ip_Dst h)
      \<and> Dispatch handle raw d w =
         (d\<lparr>packetsReceived := packetsReceived d + 1, packetsDispatched := packetsDispatched d + 1\<rparr>,
          fst (handle hd s t (drop (HeaderLen h) (take (unat (ip_TotalLen h)) raw)) w),
          map_outcome HandlerError id
            (snd (handle hd s t (drop (HeaderLen h) (take (unat (ip_TotalLen h)) raw)) w)))"
    by (rule Dispatch_to_handler) (use h hd in simp_all)
next
  fix h
  assume h: "ParseHeader raw = Ok h \<and> 5 \<le> unat (ip_IHL h) \<and> unat (ip_TotalLen h) \<le> length raw"
    and n: "map_get (disp_handlers d) (ip_Protocol h) = None"
  then show "Dispatch handle raw d w =
      (d\<lparr>packetsReceived := packetsReceived d + 1, packetsDropped := packetsDropped d + 1\<rparr>, w, Ok ())"
    by (simp add: Dispatch_cases Let_def route_of_ParseHeader)
qed

definition udp_packet :: bytes where
  "udp_packet = [0x45, 0, 0, 22, 0, 7, 0, 0, 64, 17, 0, 9, 10, 0, 0, 1, 10, 0, 0, 2, 1, 2, 99]"

theorem Dispatch_routes_witness:
  "\<exists>s t. to4 s = Some [10, 0, 0, 1] \<and> to4 t = Some [10, 0, 0, 2]
    \<and> fst (snd (Dispatch (\<lambda>h s t p w. (w @ [(s, p)], Ok () :: (nat, unit) outcome)) udp_packet
         (RegisterHandler (\<lambda>_. 17) () NewDispatcher) [])) = [(s, [1, 2])]"
proof -
  let ?h = "example_header\<lparr>ip_IHL := 5, ip_TotalLen := 22, ip_Flags := 0, ip_FragOffset := 0,
      ip_Protocol := 17, ip_Options := []\<rparr>"
  have P: "ParseHeader udp_packet = Ok ?h" by code_simp
  have f: "5 \<le> unat (ip_IHL ?h)" "unat (ip_TotalLen ?h) \<le> length udp_packet" "HeaderLen ?h = 20"
    "drop 20 (take 22 udp_packet) = [1, 2]"
    "map_get (disp_handlers (RegisterHandler (\<lambda>_. 17) () NewDispatcher)) 17 = Some ()"
    by code_simp+
  show ?thesis
    using Dispatch_routes [of udp_packet "RegisterHandler (\<lambda>_. 17) () NewDispatcher"
        "\<lambda>h s t p w. (w @ [(s, p)], Ok () :: (nat, unit) outcome)" "[]"] P f
    by (fastforce simp: example_header_def)
qed

text \<open>
  Under any interleaving of concurrent \<open>Dispatch\<close> calls and registrations, the
  packets received are, modulo 2 to the 64, the invalid, dropped and dispatched ones plus those
  in flight, so the statistics balance whenever no call is in progress; and a packet is only
  ever handed to a handler of its own protocol.
\<close>

theorem dispatch_counts:
  assumes "disp_reachable protocol s"
  shows "PacketsReceived (DispatcherStats (sys_disp s)) =
      PacketsInvalid (DispatcherStats (sys_disp s)) + PacketsDropped (DispatcherStats (sys_disp s))
      + PacketsDispatched (DispatcherStats (sys_disp s)) + of_nat (size (filter_mset in_flight (sys_calls s)))
    \<and> (sys_calls s = {#} \<longrightarrow> PacketsReceived (DispatcherStats (sys_disp s)) =
        PacketsInvalid (DispatcherStats (sys_disp s)) + PacketsDropped (DispatcherStats (sys_disp s))
        + PacketsDispatched (DispatcherStats (sys_disp s)))
    \<and> (\<forall>p h. Routed p (Some h) \<in># sys_calls s \<longrightarrow> protocol h = p)"
  using disp_reachable_inv [OF assms] by (simp add: disp_inv_def DispatcherStats_def)

theorem dispatch_counts_witness:
  "\<exists>s. disp_reachable (\<lambda>_ :: unit. 17) s \<and> sys_calls s = {#Counted [1]#}
    \<and> PacketsReceived (DispatcherStats (sys_disp s)) =
        PacketsInvalid (DispatcherStats (sys_disp s)) + PacketsDropped (DispatcherStats (sys_disp s))
        + PacketsDispatched (DispatcherStats (sys_disp s)) + 1"
proof -
  define s where "s = \<lparr>sys_disp = (NewDispatcher :: unit dispatcher)\<lparr>packetsReceived := 1\<rparr>, sys_calls = {#Counted [1]#}\<rparr>"
  have "disp_reachable (\<lambda>_ :: unit. 17) \<lparr>sys_disp = NewDispatcher, sys_calls = {#Arrived [1]#}\<rparr>"
    using disp_reachable.step [OF disp_reachable.start disp_step.spawn, of "\<lambda>_ :: unit. 17" "[1]"] by simp
  from disp_reachable.step [OF this disp_step.receive, of "[1]" "{#}"]
  have r: "disp_reachable (\<lambda>_ :: unit. 17) s" by (simp add: s_def NewDispatcher_def)
  have c: "sys_calls s = {#Counted [1]#}" by (simp add: s_def)
  from dispatch_counts [OF r] have "PacketsReceived (DispatcherStats (sys_disp s)) =
        PacketsInvalid (DispatcherStats (sys_disp s)) + PacketsDropped (DispatcherStats (sys_disp s))
        + PacketsDispatched (DispatcherStats (sys_disp s)) + 1" by (simp add: c)
  with r c show ?thesis by blast
qed

text \<open>
  \<open>Dispatch\<close> looks at neither the header checksum nor the fragment fields: a packet
  with any other checksum, identification, flags or fragment offset is handled in exactly the
  same way, so corrupt headers are accepted and every fragment is delivered as a packet.
\<close>

theorem Dispatch_ignores_checksum_and_fragments:
  assumes "i \<in> {4, 5, 6, 7, 10, 11}"
  shows "Dispatch handle (raw[i := b]) d w = Dispatch handle raw d w"
  by (simp add: Dispatch_def route_update [OF assms])

theorem Dispatch_ignores_checksum_and_fragments_witness:
  "Dispatch (\<lambda>h s t p w. (w @ [(s, p)], Ok () :: (nat, unit) outcome)) (udp_packet[6 := 0x20])
     (RegisterHandler (\<lambda>_. 17) () NewDispatcher) [] =
   Dispatch (\<lambda>h s t p w. (w @ [(s, p)], Ok () :: (nat, unit) outcome)) udp_packet
     (RegisterHandler (\<lambda>_. 17) () NewDispatcher) []"
  by (rule Dispatch_ignores_checksum_and_fragments) simp

end
