(* ===== verification/Packet_Parser.thy ===== *)
theory Packet_Parser
  imports Dispatcher
begin

text \<open>
  \<^verbatim>\<open>internal/ip/parser.go\<close>: packets decoded by the \<^verbatim>\<open>gopacket\<close> library. Its decoders are
  arguments; of its layers the model has the fields that the code reads.
\<close>

section \<open>The code\<close>

record tcp_layer =
  tl_SrcPort :: "16 word"
  tl_DstPort :: "16 word"
  tl_Seq :: "32 word"
  tl_SYN :: bool
  tl_ACK :: bool
  tl_FIN :: bool
  tl_RST :: bool
  tl_PSH :: bool
  tl_URG :: bool
  tl_Payload :: bytes

record udp_layer =
  ul_SrcPort :: "16 word"
  ul_DstPort :: "16 word"
  ul_Length :: "16 word"

record icmp_layer =
  il_Type :: byte
  il_Code :: byte

text \<open>The three decoders; \<open>None\<close> when they return an error.\<close>

record decoders =
  decode_tcp :: "bytes \<Rightarrow> tcp_layer option"
  decode_udp :: "bytes \<Rightarrow> udp_layer option"
  decode_icmp :: "bytes \<Rightarrow> icmp_layer option"

record parsed_packet =
  pp_IPHeader :: "ip_header option"
  pp_Protocol :: byte
  pp_SrcIP :: bytes
  pp_DstIP :: bytes
  pp_Payload :: "bytes option"
  pp_TCP :: "tcp_layer option"
  pp_UDP :: "udp_layer option"
  pp_ICMP :: "icmp_layer option"

definition Parse :: "decoders \<Rightarrow> bytes \<Rightarrow> (ip_error, parsed_packet) outcome" where
  "Parse ds raw =
     (case ParseHeader raw of
        Err err \<Rightarrow> Err err
      | Panic \<Rightarrow> Panic
      | Ok ipHeader \<Rightarrow>
          let p = \<lparr>pp_IPHeader = Some ipHeader, pp_Protocol = ip_Protocol ipHeader,
                   pp_SrcIP = ip_Src ipHeader, pp_DstIP = ip_Dst ipHeader,
                   pp_Payload = Payload ipHeader raw, pp_TCP = None, pp_UDP = None, pp_ICMP = None\<rparr>
          in Ok (case pp_Payload p of
               None \<Rightarrow> p
             | Some payload \<Rightarrow>
                 if pp_Protocol p = ProtoTCP then
                   (case decode_tcp ds payload of None \<Rightarrow> p | Some tcp \<Rightarrow> p\<lparr>pp_TCP := Some tcp\<rparr>)
                 else if pp_Protocol p = ProtoUDP then
                   (case decode_udp ds payload of None \<Rightarrow> p | Some udp \<Rightarrow> p\<lparr>pp_UDP := Some udp\<rparr>)
                 else if pp_Protocol p = ProtoICMP then
                   (case decode_icmp ds payload of None \<Rightarrow> p | Some icmp \<Rightarrow> p\<lparr>pp_ICMP := Some icmp\<rparr>)
                 else p))"

text \<open>
  A packet decoded by the library as a whole: its error layer and the layers it has found.
\<close>

record ipv4_layer =
  i4_Protocol :: byte
  i4_SrcIP :: bytes
  i4_DstIP :: bytes
  i4_Payload :: "bytes option"

record 'e gopacket =
  gp_Error :: "'e option"
  gp_IPv4 :: "ipv4_layer option"
  gp_TCP :: "tcp_layer option"
  gp_UDP :: "udp_layer option"
  gp_ICMP :: "icmp_layer option"

datatype 'e debug_error = DecodeError 'e | NotIPv4

definition ParseDebug :: "(bytes \<Rightarrow> 'e gopacket) \<Rightarrow> bytes \<Rightarrow> ('e debug_error, parsed_packet) outcome" where
  "ParseDebug NewPacket raw =
     (let packet = NewPacket raw
      in case gp_Error packet of
        Some err \<Rightarrow> Err (DecodeError err)
      | None \<Rightarrow>
          (case gp_IPv4 packet of
             None \<Rightarrow> Err NotIPv4
           | Some ipv4 \<Rightarrow>
               let p = \<lparr>pp_IPHeader = None, pp_Protocol = i4_Protocol ipv4, pp_SrcIP = i4_SrcIP ipv4,
                        pp_DstIP = i4_DstIP ipv4, pp_Payload = i4_Payload ipv4,
                        pp_TCP = None, pp_UDP = None, pp_ICMP = None\<rparr>;
                   p = (case ParseHeader raw of Ok h \<Rightarrow> p\<lparr>pp_IPHeader := Some h\<rparr> | _ \<Rightarrow> p);
                   p = (case gp_TCP packet of None \<Rightarrow> p | Some l \<Rightarrow> p\<lparr>pp_TCP := Some l\<rparr>);
                   p = (case gp_UDP packet of None \<Rightarrow> p | Some l \<Rightarrow> p\<lparr>pp_UDP := Some l\<rparr>);
                   p = (case gp_ICMP packet of None \<Rightarrow> p | Some l \<Rightarrow> p\<lparr>pp_ICMP := Some l\<rparr>)
               in Ok p))"

definition tcp_flags :: "tcp_layer \<Rightarrow> string list" where
  "tcp_flags l =
     (if tl_SYN l then [''SYN''] else []) @ (if tl_ACK l then [''ACK''] else [])
     @ (if tl_FIN l then [''FIN''] else []) @ (if tl_RST l then [''RST''] else [])
     @ (if tl_PSH l then [''PSH''] else []) @ (if tl_URG l then [''URG''] else [])"

definition Summary :: "parsed_packet \<Rightarrow> string" where
  "Summary p =
     (let src = IPString (pp_SrcIP p);
          dst = IPString (pp_DstIP p);
          (proto, src, dst, info) =
            (case pp_TCP p of
               Some l \<Rightarrow>
                 (''TCP'', src @ '':'' @ dec (unat (tl_SrcPort l)), dst @ '':'' @ dec (unat (tl_DstPort l)),
                  ''['' @ join_strings '','' (tcp_flags l) @ ''] seq='' @ dec (unat (tl_Seq l))
                  @ '' len='' @ dec (length (tl_Payload l)))
             | None \<Rightarrow>
            (case pp_UDP p of
               Some l \<Rightarrow>
                 (''UDP'', src @ '':'' @ dec (unat (ul_SrcPort l)), dst @ '':'' @ dec (unat (ul_DstPort l)),
                  ''len='' @ dec (unat (ul_Length l)))
             | None \<Rightarrow>
            (case pp_ICMP p of
               Some l \<Rightarrow>
                 (''ICMP'', src, dst, ''type='' @ dec (unat (il_Type l)) @ '' code='' @ dec (unat (il_Code l)))
             | None \<Rightarrow>
                 (''PROTO-'' @ dec (unat (pp_Protocol p)), src, dst,
                  ''len='' @ dec (length (slice_bytes (pp_Payload p)))))))
      in if info \<noteq> [] then proto @ '' '' @ src @ '' -> '' @ dst @ '' '' @ info
      else proto @ '' '' @ src @ '' -> '' @ dst)"

section \<open>Properties\<close>


definition example_decoders :: decoders where
  "example_decoders = \<lparr>decode_tcp = \<lambda>_. None,
     decode_udp = \<lambda>b. Some \<lparr>ul_SrcPort = get16 b 0, ul_DstPort = 0, ul_Length = of_nat (length b)\<rparr>,
     decode_icmp = \<lambda>_. None\<rparr>"


end
