(* ===== verification/Dispatcher_Linear.thy ===== *)
theory Dispatcher_Linear
  imports Dispatcher
begin

text \<open>
  Concurrent use of the dispatcher (\<^verbatim>\<open>internal/ip/dispatcher.go\<close>) seen from its callers. The
  goroutines of the read loop call \<open>Dispatch\<close> and anybody may call \<open>Register\<close> meanwhile; every
  call has an identity, is invoked, makes its accesses to the counters and to the map of handlers
  one at a time, and returns. The specification is the sequential dispatcher: each run has an
  order of its calls, one that keeps calls apart that did not overlap, in which the sequential
  functions, applied one after the other, give every call the same result and leave the same
  dispatcher behind.
\<close>

section \<open>Calls and histories\<close>

datatype 'h disp_op = OpDispatch bytes | OpRegister 'h

text \<open>What a call did with its packet: the errors of \<open>Dispatch\<close>, or where the packet went.\<close>

datatype 'h verdict =
    Rejected "unit dispatch_error"
  | NoHandler
  | HandedOver 'h bytes bytes bytes
  | Registered

datatype 'h disp_event = Invoke nat "'h disp_op" | Return nat "'h verdict"

text \<open>
  A call in progress: a \<open>Dispatch\<close> before its first counter, behind it, and behind the locked
  lookup; a \<open>Register\<close> before its locked section; a call that has only its return left. The
  handler of a packet runs in that last phase, after every access to the dispatcher.
\<close>

datatype 'h progress =
    AtEntry bytes
  | AtLookup bytes
  | AtCounter bytes "'h option"
  | AtRegister 'h
  | AtReturn "'h verdict"

record 'h lin_system =
  lin_disp :: "'h dispatcher"
  lin_calls :: "nat \<rightharpoonup> 'h progress"
  lin_hist :: "'h disp_event list"

text \<open>The verdict of a routed packet with the handler that was found for it.\<close>

definition routed_verdict :: "bytes \<Rightarrow> 'h option \<Rightarrow> 'h verdict" where
  "routed_verdict raw found =
     (case route raw of
        Ok (p, src, dst, payload) \<Rightarrow>
          (case found of None \<Rightarrow> NoHandler | Some h \<Rightarrow> HandedOver h src dst payload)
      | Err e \<Rightarrow> Rejected e
      | Panic \<Rightarrow> NoHandler)"

inductive lin_step :: "('h \<Rightarrow> byte) \<Rightarrow> 'h lin_system \<Rightarrow> 'h lin_system \<Rightarrow> bool" for protocol where
  invoke_dispatch: "\<forall>op. Invoke i op \<notin> set (lin_hist s) \<Longrightarrow>
    lin_step protocol s (s\<lparr>lin_calls := (lin_calls s)(i \<mapsto> AtEntry raw),
      lin_hist := lin_hist s @ [Invoke i (OpDispatch raw)]\<rparr>)"
| invoke_register: "\<forall>op. Invoke i op \<notin> set (lin_hist s) \<Longrightarrow>
    lin_step protocol s (s\<lparr>lin_calls := (lin_calls s)(i \<mapsto> AtRegister h),
      lin_hist := lin_hist s @ [Invoke i (OpRegister h)]\<rparr>)"
| receive: "lin_calls s i = Some (AtEntry raw) \<Longrightarrow>
    lin_step protocol s (s\<lparr>lin_disp := (lin_disp s)\<lparr>packetsReceived := packetsReceived (lin_disp s) + 1\<rparr>,
      lin_calls := (lin_calls s)(i \<mapsto> AtLookup raw)\<rparr>)"
| reject: "lin_calls s i = Some (AtLookup raw) \<Longrightarrow> route raw = Err e \<Longrightarrow>
    lin_step protocol s (s\<lparr>lin_disp := (lin_disp s)\<lparr>packetsInvalid := packetsInvalid (lin_disp s) + 1\<rparr>,
      lin_calls := (lin_calls s)(i \<mapsto> AtReturn (Rejected e))\<rparr>)"
| find_handler: "lin_calls s i = Some (AtLookup raw) \<Longrightarrow>
    route raw = (Ok (p, src, dst, payload) :: (unit dispatch_error, _) outcome) \<Longrightarrow>
    lin_step protocol s (s\<lparr>lin_calls := (lin_calls s)(i \<mapsto> AtCounter raw (map_get (disp_handlers (lin_disp s)) p))\<rparr>)"
| drop_packet: "lin_calls s i = Some (AtCounter raw None) \<Longrightarrow>
    lin_step protocol s (s\<lparr>lin_disp := (lin_disp s)\<lparr>packetsDropped := packetsDropped (lin_disp s) + 1\<rparr>,
      lin_calls := (lin_calls s)(i \<mapsto> AtReturn (routed_verdict raw None))\<rparr>)"
| hand_over: "lin_calls s i = Some (AtCounter raw (Some h)) \<Longrightarrow>
    lin_step protocol s (s\<lparr>lin_disp := (lin_disp s)\<lparr>packetsDispatched := packetsDispatched (lin_disp s) + 1\<rparr>,
      lin_calls := (lin_calls s)(i \<mapsto> AtReturn (routed_verdict raw (Some h)))\<rparr>)"
| register: "lin_calls s i = Some (AtRegister h) \<Longrightarrow>
    lin_step protocol s (s\<lparr>lin_disp := RegisterHandler protocol h (lin_disp s),
      lin_calls := (lin_calls s)(i \<mapsto> AtReturn Registered)\<rparr>)"
| return: "lin_calls s i = Some (AtReturn v) \<Longrightarrow>
    lin_step protocol s (s\<lparr>lin_calls := (lin_calls s)(i := None),
      lin_hist := lin_hist s @ [Return i v]\<rparr>)"

inductive lin_reachable :: "('h \<Rightarrow> byte) \<Rightarrow> 'h lin_system \<Rightarrow> bool" for protocol where
  start: "lin_reachable protocol \<lparr>lin_disp = NewDispatcher, lin_calls = Map.empty, lin_hist = []\<rparr>"
| step: "lin_reachable protocol s \<Longrightarrow> lin_step protocol s s' \<Longrightarrow> lin_reachable protocol s'"

section \<open>The specification\<close>

text \<open>One call of the sequential dispatcher, with a handler that records what it is given.\<close>

definition recorder :: "('h, ('h \<times> bytes \<times> bytes \<times> bytes) option, unit) handle_fun" where
  "recorder h src dst payload w = (Some (h, src, dst, payload), Ok ())"

fun seq_call :: "('h \<Rightarrow> byte) \<Rightarrow> 'h disp_op \<Rightarrow> 'h dispatcher \<Rightarrow> 'h dispatcher \<times> 'h verdict" where
  "seq_call protocol (OpRegister h) d = (RegisterHandler protocol h d, Registered)"
| "seq_call protocol (OpDispatch raw) d =
     (case Dispatch recorder raw d None of
        (d, _, Err e) \<Rightarrow> (d, Rejected e)
      | (d, Some (h, src, dst, payload), _) \<Rightarrow> (d, HandedOver h src dst payload)
      | (d, None, _) \<Rightarrow> (d, NoHandler))"

text \<open>
  The calls of a log in their order, each with its result: the dispatcher they leave, and whether
  the results are those of the sequential functions.
\<close>

fun seq_run :: "('h \<Rightarrow> byte) \<Rightarrow> (nat \<times> 'h disp_op \<times> 'h verdict) list \<Rightarrow> 'h dispatcher \<Rightarrow> 'h dispatcher" where
  "seq_run protocol [] d = d"
| "seq_run protocol ((i, op, v) # log) d = seq_run protocol log (fst (seq_call protocol op d))"

fun legal :: "('h \<Rightarrow> byte) \<Rightarrow> (nat \<times> 'h disp_op \<times> 'h verdict) list \<Rightarrow> 'h dispatcher \<Rightarrow> bool" where
  "legal protocol [] d = True"
| "legal protocol ((i, op, v) # log) d =
     (v = snd (seq_call protocol op d) \<and> legal protocol log (fst (seq_call protocol op d)))"

definition before :: "'a list \<Rightarrow> 'a \<Rightarrow> 'a \<Rightarrow> bool" where
  "before xs a b \<longleftrightarrow> (\<exists>us vs. xs = us @ vs \<and> a \<in> set us \<and> b \<in> set vs)"

text \<open>
  Linearizability: a log of calls, each once, that were invoked, among them every call that has
  returned, with the result it returned; legal for the sequential dispatcher; and in the order of
  the history for calls of which one returned before the other was invoked.
\<close>

definition in_real_time :: "'h disp_event list \<Rightarrow> (nat \<times> 'h disp_op \<times> 'h verdict) list \<Rightarrow> bool" where
  "in_real_time hist log \<longleftrightarrow>
     (\<forall>i v j op. before hist (Return i v) (Invoke j op) \<and> j \<in> fst ` set log \<longrightarrow> before (map fst log) i j)"

definition linearizes :: "('h \<Rightarrow> byte) \<Rightarrow> 'h disp_event list \<Rightarrow> (nat \<times> 'h disp_op \<times> 'h verdict) list \<Rightarrow> bool" where
  "linearizes protocol hist log \<longleftrightarrow>
     distinct (map fst log) \<and> legal protocol log NewDispatcher
     \<and> (\<forall>i v. Return i v \<in> set hist \<longrightarrow> (\<exists>op. (i, op, v) \<in> set log))
     \<and> (\<forall>i op v. (i, op, v) \<in> set log \<longrightarrow> Invoke i op \<in> set hist)
     \<and> in_real_time hist log"

section \<open>Orders and counts\<close>

lemma before_snoc: "before (xs @ [c]) a b \<longleftrightarrow> before xs a b \<or> (a \<in> set xs \<and> b = c)"
proof
  assume "before (xs @ [c]) a b"
  then obtain us vs where u: "xs @ [c] = us @ vs" "a \<in> set us" "b \<in> set vs" by (auto simp: before_def)
  then obtain ws where w: "vs = ws @ [c]" by (cases vs rule: rev_cases) auto
  then have "xs = us @ ws" using u(1) by simp
  then show "before xs a b \<or> (a \<in> set xs \<and> b = c)" using u(2,3) w by (auto simp: before_def)
next
  assume "before xs a b \<or> (a \<in> set xs \<and> b = c)"
  then show "before (xs @ [c]) a b"
  proof
    assume "before xs a b"
    then obtain us vs where "xs = us @ vs" "a \<in> set us" "b \<in> set vs" by (auto simp: before_def)
    then have "xs @ [c] = us @ (vs @ [c])" "a \<in> set us" "b \<in> set (vs @ [c])" by auto
    then show ?thesis unfolding before_def by blast
  next
    assume "a \<in> set xs \<and> b = c"
    then show ?thesis unfolding before_def by (intro exI [of _ xs] exI [of _ "[c]"]) simp
  qed
qed

lemma before_Nil [simp]: "\<not> before [] a b"
  by (simp add: before_def)

lemma before_set: "before xs a b \<Longrightarrow> a \<in> set xs \<and> b \<in> set xs"
  by (auto simp: before_def)

lemma seq_run_snoc: "seq_run protocol (log @ [(i, op, v)]) d = fst (seq_call protocol op (seq_run protocol log d))"
  by (induction log arbitrary: d) auto

lemma legal_snoc:
  "legal protocol (log @ [(i, op, v)]) d \<longleftrightarrow>
     legal protocol log d \<and> v = snd (seq_call protocol op (seq_run protocol log d))"
  by (induction log arbitrary: d) auto

text \<open>The number of calls in progress at a kind of point.\<close>

definition calls_at :: "('h progress \<Rightarrow> bool) \<Rightarrow> (nat \<rightharpoonup> 'h progress) \<Rightarrow> nat" where
  "calls_at P m = card {i \<in> dom m. P (the (m i))}"

lemma calls_at_update:
  assumes "finite (dom m)" "m i = Some pc"
  shows "calls_at P (m(i \<mapsto> pc')) + (if P pc then 1 else 0) = calls_at P m + (if P pc' then 1 else 0)"
proof -
  obtain A where A: "finite A" "i \<notin> A" "A = {j \<in> dom m. P (the (m j))} - {i}"
    using assms(1) by simp
  have "{j \<in> dom m. P (the (m j))} = (if P pc then insert i A else A)"
    using assms(2) A(3) by auto
  moreover have "{j \<in> dom (m(i \<mapsto> pc')). P (the ((m(i \<mapsto> pc')) j))} = (if P pc' then insert i A else A)"
    using A(3) by auto
  ultimately show ?thesis using A(1,2) by (simp add: calls_at_def del: dom_fun_upd)
qed

lemma calls_at_new:
  assumes "finite (dom m)" "m i = None" "\<not> P pc"
  shows "calls_at P (m(i \<mapsto> pc)) = calls_at P m"
proof -
  have "{j \<in> dom (m(i \<mapsto> pc)). P (the ((m(i \<mapsto> pc)) j))} = {j \<in> dom m. P (the (m j))}"
    using assms(2,3) by auto
  then show ?thesis by (simp add: calls_at_def)
qed

lemma calls_at_remove:
  assumes "finite (dom m)" "m i = Some pc" "\<not> P pc"
  shows "calls_at P (m(i := None)) = calls_at P m"
proof -
  have "{j \<in> dom (m(i := None)). P (the ((m(i := None)) j))} = {j \<in> dom m. P (the (m j))}"
    using assms(2,3) by auto
  then show ?thesis by (simp add: calls_at_def)
qed

section \<open>The invariant\<close>

text \<open>The sequential calls, by the checks of \<open>Dispatch\<close>.\<close>

lemma seq_call_rejected:
  "route raw = Err e \<Longrightarrow> seq_call protocol (OpDispatch raw) d =
     (d\<lparr>packetsReceived := packetsReceived d + 1, packetsInvalid := packetsInvalid d + 1\<rparr>, Rejected e)"
  by (simp add: Dispatch_cases Let_def)

lemma seq_call_routed:
  assumes "route raw = (Ok (p, src, dst, payload) :: (unit dispatch_error, _) outcome)"
  shows "seq_call protocol (OpDispatch raw) d =
    (case map_get (disp_handlers d) p of
       None \<Rightarrow> d\<lparr>packetsReceived := packetsReceived d + 1, packetsDropped := packetsDropped d + 1\<rparr>
     | Some h \<Rightarrow> d\<lparr>packetsReceived := packetsReceived d + 1, packetsDispatched := packetsDispatched d + 1\<rparr>,
     routed_verdict raw (map_get (disp_handlers d) p))"
  by (simp add: Dispatch_cases Let_def assms routed_verdict_def recorder_def split: option.splits)

text \<open>
  The dispatcher of a run against the one of its log: a call is counted as received before it is
  in the log, and as dropped or dispatched only after.
\<close>

fun looking :: "'h progress \<Rightarrow> bool" where
  "looking (AtLookup raw) = True" | "looking _ = False"
fun dropping :: "'h progress \<Rightarrow> bool" where
  "dropping (AtCounter raw None) = True" | "dropping _ = False"
fun handing :: "'h progress \<Rightarrow> bool" where
  "handing (AtCounter raw (Some h)) = True" | "handing _ = False"

definition same_dispatcher :: "(nat \<rightharpoonup> 'h progress) \<Rightarrow> 'h dispatcher \<Rightarrow> 'h dispatcher \<Rightarrow> bool" where
  "same_dispatcher calls d d' \<longleftrightarrow>
     disp_handlers d = disp_handlers d'
     \<and> packetsReceived d = packetsReceived d' + of_nat (calls_at looking calls)
     \<and> packetsInvalid d = packetsInvalid d'
     \<and> packetsDropped d + of_nat (calls_at dropping calls) = packetsDropped d'
     \<and> packetsDispatched d + of_nat (calls_at handing calls) = packetsDispatched d'"

text \<open>Where a call in progress stands in the log.\<close>

fun placed :: "'h disp_event list \<Rightarrow> (nat \<times> 'h disp_op \<times> 'h verdict) list \<Rightarrow> nat \<Rightarrow> 'h progress \<Rightarrow> bool" where
  "placed hist log i (AtEntry raw) = (Invoke i (OpDispatch raw) \<in> set hist \<and> i \<notin> fst ` set log)"
| "placed hist log i (AtLookup raw) = (Invoke i (OpDispatch raw) \<in> set hist \<and> i \<notin> fst ` set log)"
| "placed hist log i (AtCounter raw found) = ((i, OpDispatch raw, routed_verdict raw found) \<in> set log)"
| "placed hist log i (AtRegister h) = (Invoke i (OpRegister h) \<in> set hist \<and> i \<notin> fst ` set log)"
| "placed hist log i (AtReturn v) = (\<exists>op. (i, op, v) \<in> set log)"

definition lin_inv :: "('h \<Rightarrow> byte) \<Rightarrow> 'h lin_system \<Rightarrow> (nat \<times> 'h disp_op \<times> 'h verdict) list \<Rightarrow> bool" where
  "lin_inv protocol s log \<longleftrightarrow>
     finite (dom (lin_calls s))
     \<and> same_dispatcher (lin_calls s) (lin_disp s) (seq_run protocol log NewDispatcher)
     \<and> (\<forall>i pc. lin_calls s i = Some pc \<longrightarrow> placed (lin_hist s) log i pc)
     \<and> (\<forall>i op. Invoke i op \<in> set (lin_hist s) \<longrightarrow>
          i \<in> dom (lin_calls s) \<or> (\<exists>v. Return i v \<in> set (lin_hist s)))
     \<and> linearizes protocol (lin_hist s) log"

lemma placed_hist: "placed hist log i pc \<Longrightarrow> set hist \<subseteq> set hist' \<Longrightarrow> placed hist' log i pc"
  by (cases pc) auto

lemma placed_log: "placed hist log j pc \<Longrightarrow> j \<noteq> i \<Longrightarrow> placed hist (log @ [(i, op, v)]) j pc"
  by (cases pc) auto

text \<open>A log grows by a call that has been invoked and is not in it.\<close>

lemma linearizes_snoc:
  assumes "linearizes protocol hist log" "Invoke i op \<in> set hist" "i \<notin> fst ` set log"
    and "v = snd (seq_call protocol op (seq_run protocol log NewDispatcher))"
  shows "linearizes protocol hist (log @ [(i, op, v)])"
proof -
  have "before (map fst (log @ [(i, op, v)])) a b"
    if b: "before hist (Return a w) (Invoke b op')" and m: "b \<in> fst ` set (log @ [(i, op, v)])" for a w b op'
  proof (cases "b \<in> fst ` set log")
    case True
    then have "before (map fst log) a b" using assms(1) b unfolding linearizes_def in_real_time_def by blast
    then show ?thesis by (simp add: before_snoc)
  next
    case False
    then have "b = i" using m by auto
    moreover have "a \<in> fst ` set log"
      using before_set [OF b] assms(1) unfolding linearizes_def by (metis fst_conv image_eqI)
    ultimately show ?thesis by (simp add: before_snoc)
  qed
  then have "in_real_time hist (log @ [(i, op, v)])" unfolding in_real_time_def by blast
  moreover have "distinct (map fst (log @ [(i, op, v)]))" "legal protocol (log @ [(i, op, v)]) NewDispatcher"
    using assms by (auto simp: linearizes_def legal_snoc)
  moreover have "\<exists>op'. (a, op', w) \<in> set (log @ [(i, op, v)])" if "Return a w \<in> set hist" for a w
    using assms(1) that unfolding linearizes_def by (metis Un_iff set_append)
  moreover have "Invoke a op' \<in> set hist" if "(a, op', w) \<in> set (log @ [(i, op, v)])" for a op' w
    using assms(1,2) that unfolding linearizes_def by (metis Un_iff fst_conv list.set(1,2) prod.inject set_append singletonD)
  ultimately show ?thesis unfolding linearizes_def by blast
qed

text \<open>A history grows by an invocation with a new identity, or by the return of a call in the log.\<close>

lemma linearizes_invoke:
  assumes "linearizes protocol hist log" "\<forall>op. Invoke i op \<notin> set hist"
  shows "linearizes protocol (hist @ [Invoke i op]) log"
proof -
  have n: "i \<notin> fst ` set log" using assms unfolding linearizes_def by force
  have "before (map fst log) a b"
    if "before (hist @ [Invoke i op]) (Return a w) (Invoke b op')" "b \<in> fst ` set log" for a w b op'
    using that n assms(1) unfolding before_snoc linearizes_def in_real_time_def by blast
  then have "in_real_time (hist @ [Invoke i op]) log" unfolding in_real_time_def by blast
  then show ?thesis using assms(1) unfolding linearizes_def by auto
qed

lemma linearizes_return:
  assumes "linearizes protocol hist log" "(i, op, v) \<in> set log"
  shows "linearizes protocol (hist @ [Return i v]) log"
proof -
  have "before (map fst log) a b"
    if "before (hist @ [Return i v]) (Return a w) (Invoke b op')" "b \<in> fst ` set log" for a w b op'
    using that assms(1) unfolding before_snoc linearizes_def in_real_time_def by blast
  then have "in_real_time (hist @ [Return i v]) log" unfolding in_real_time_def by blast
  then show ?thesis using assms unfolding linearizes_def by auto
qed

text \<open>
  A step leaves the log as it is or appends one call: the steps that reject a packet, look its
  handler up or register one are where the calls take effect.
\<close>

lemma lin_inv_keep:
  assumes "lin_inv protocol s log" "lin_calls s i = Some pc"
    and "placed (lin_hist s) log i pc'"
    and "calls' = (lin_calls s)(i \<mapsto> pc')"
    and "same_dispatcher calls' d' (seq_run protocol log NewDispatcher)"
  shows "lin_inv protocol (s\<lparr>lin_disp := d', lin_calls := calls'\<rparr>) log"
  using assms unfolding lin_inv_def by (auto split: if_splits)

lemma lin_inv_append:
  assumes "lin_inv protocol s log" "lin_calls s i = Some pc"
    and "Invoke i op \<in> set (lin_hist s)" "i \<notin> fst ` set log"
    and "v = snd (seq_call protocol op (seq_run protocol log NewDispatcher))"
    and "placed (lin_hist s) (log @ [(i, op, v)]) i pc'"
    and "calls' = (lin_calls s)(i \<mapsto> pc')"
    and "same_dispatcher calls' d' (fst (seq_call protocol op (seq_run protocol log NewDispatcher)))"
  shows "lin_inv protocol (s\<lparr>lin_disp := d', lin_calls := calls'\<rparr>) (log @ [(i, op, v)])"
proof -
  have l: "linearizes protocol (lin_hist s) log" and "finite (dom (lin_calls s))"
    and p: "\<And>j pc. lin_calls s j = Some pc \<Longrightarrow> placed (lin_hist s) log j pc"
    and w: "\<forall>j op. Invoke j op \<in> set (lin_hist s) \<longrightarrow> j \<in> dom (lin_calls s) \<or> (\<exists>v. Return j v \<in> set (lin_hist s))"
    using assms(1) unfolding lin_inv_def by blast+
  moreover have "placed (lin_hist s) (log @ [(i, op, v)]) j pc''" if "calls' j = Some pc''" for j pc''
    using that p [of j pc''] placed_log [of _ _ j pc'' i] assms(6,7) by (cases "j = i") auto
  ultimately show ?thesis
    using linearizes_snoc [OF l assms(3-5)] assms(7,8) unfolding lin_inv_def by (auto simp: seq_run_snoc)
qed

lemma balance_shift:
  fixes d d' e e' :: "64 word"
  assumes "d' - d + p = e' - e + p'" "d = e + n" "n' + p = n + p'"
  shows "d' = e' + n'"
proof -
  have "d' = (d' - d + p) + (d - p)" by simp
  also have "\<dots> = (e' - e + p') + (d - p)" by (simp only: assms(1))
  also have "\<dots> = e' + ((n + p') - p)" by (simp add: assms(2))
  also have "\<dots> = e' + n'" by (simp flip: assms(3))
  finally show ?thesis .
qed

lemma same_dispatcher_update:
  assumes "finite (dom m)" "m i = Some pc" "same_dispatcher m d e"
    and "disp_handlers d' = disp_handlers e'"
    and "packetsReceived d' - packetsReceived d + (if looking pc then 1 else 0)
      = packetsReceived e' - packetsReceived e + (if looking pc' then 1 else 0)"
    and "packetsInvalid d' - packetsInvalid d = packetsInvalid e' - packetsInvalid e"
    and "packetsDropped d' - packetsDropped d + (if dropping pc' then 1 else 0)
      = packetsDropped e' - packetsDropped e + (if dropping pc then 1 else 0)"
    and "packetsDispatched d' - packetsDispatched d + (if handing pc' then 1 else 0)
      = packetsDispatched e' - packetsDispatched e + (if handing pc then 1 else 0)"
  shows "same_dispatcher (m(i \<mapsto> pc')) d' e'"
proof -
  have u: "of_nat (calls_at P (m(i \<mapsto> pc'))) + (if P pc then 1 else 0) =
      (of_nat (calls_at P m) + (if P pc' then 1 else 0) :: 64 word)" for P :: "'a progress \<Rightarrow> bool"
    using arg_cong [OF calls_at_update [OF assms(1,2), of P pc'], of "of_nat :: nat \<Rightarrow> 64 word"]
    by (simp split: if_splits)
  have s: "packetsReceived d = packetsReceived e + of_nat (calls_at looking m)"
    "packetsInvalid d = packetsInvalid e"
    "packetsDropped d + of_nat (calls_at dropping m) = packetsDropped e"
    "packetsDispatched d + of_nat (calls_at handing m) = packetsDispatched e"
    using assms(3) by (simp_all add: same_dispatcher_def)
  have "packetsReceived d' = packetsReceived e' + of_nat (calls_at looking (m(i \<mapsto> pc')))"
    using assms(5) s(1) u by (rule balance_shift)
  moreover have "packetsDropped e' = packetsDropped d' + of_nat (calls_at dropping (m(i \<mapsto> pc')))"
    using assms(7) [symmetric] s(3) [symmetric] u by (rule balance_shift)
  moreover have "packetsDispatched e' = packetsDispatched d' + of_nat (calls_at handing (m(i \<mapsto> pc')))"
    using assms(8) [symmetric] s(4) [symmetric] u by (rule balance_shift)
  ultimately show ?thesis using assms(4,6) s(2) by (simp add: same_dispatcher_def)
qed

lemma same_dispatcher_cong:
  "same_dispatcher m d e \<Longrightarrow> calls_at looking m' = calls_at looking m \<Longrightarrow> calls_at dropping m' = calls_at dropping m \<Longrightarrow>
   calls_at handing m' = calls_at handing m \<Longrightarrow> same_dispatcher m' d e"
  by (simp add: same_dispatcher_def)

lemma lin_inv_invoke:
  assumes "lin_inv protocol s log" "\<forall>op. Invoke i op \<notin> set (lin_hist s)"
    and "\<not> looking pc \<and> \<not> dropping pc \<and> \<not> handing pc"
    and "i \<notin> fst ` set log \<Longrightarrow> placed (lin_hist s @ [Invoke i op]) log i pc"
  shows "lin_inv protocol (s\<lparr>lin_calls := (lin_calls s)(i \<mapsto> pc), lin_hist := lin_hist s @ [Invoke i op]\<rparr>) log"
proof -
  have f: "finite (dom (lin_calls s))"
    and d: "same_dispatcher (lin_calls s) (lin_disp s) (seq_run protocol log NewDispatcher)"
    and p: "\<And>j pc. lin_calls s j = Some pc \<Longrightarrow> placed (lin_hist s) log j pc"
    and l: "linearizes protocol (lin_hist s) log"
    and w: "\<And>j op. Invoke j op \<in> set (lin_hist s) \<Longrightarrow> j \<in> dom (lin_calls s) \<or> (\<exists>v. Return j v \<in> set (lin_hist s))"
    using assms(1) unfolding lin_inv_def by blast+
  have n: "i \<notin> fst ` set log" using assms(2) l unfolding linearizes_def by force
  have "\<not> placed (lin_hist s) log i pc'" for pc'
    using assms(2) n by (cases pc') force+
  then have "lin_calls s i = None" using p by (cases "lin_calls s i") auto
  then have "same_dispatcher ((lin_calls s)(i \<mapsto> pc)) (lin_disp s) (seq_run protocol log NewDispatcher)"
    using assms(3) f by (intro same_dispatcher_cong [OF d] calls_at_new) auto
  moreover have "placed (lin_hist s @ [Invoke i op]) log j pc'" if "((lin_calls s)(i \<mapsto> pc)) j = Some pc'" for j pc'
  proof (cases "j = i")
    case False
    then show ?thesis using that by (intro placed_hist [OF p]) auto
  qed (use that n assms(4) in auto)
  ultimately show ?thesis
    using f w linearizes_invoke [OF l assms(2)] unfolding lin_inv_def by auto
qed

lemma lin_inv_return:
  assumes "lin_inv protocol s log" "lin_calls s i = Some (AtReturn v)"
  shows "lin_inv protocol (s\<lparr>lin_calls := (lin_calls s)(i := None), lin_hist := lin_hist s @ [Return i v]\<rparr>) log"
proof -
  have f: "finite (dom (lin_calls s))"
    and d: "same_dispatcher (lin_calls s) (lin_disp s) (seq_run protocol log NewDispatcher)"
    and p: "\<And>j pc. lin_calls s j = Some pc \<Longrightarrow> placed (lin_hist s) log j pc"
    and l: "linearizes protocol (lin_hist s) log"
    and w: "\<And>j op. Invoke j op \<in> set (lin_hist s) \<Longrightarrow> j \<in> dom (lin_calls s) \<or> (\<exists>v. Return j v \<in> set (lin_hist s))"
    using assms(1) unfolding lin_inv_def by blast+
  obtain op where o: "(i, op, v) \<in> set log" using p [OF assms(2)] by auto
  have "\<forall>j op. Invoke j op \<in> set (lin_hist s @ [Return i v]) \<longrightarrow>
      j \<in> dom ((lin_calls s)(i := None)) \<or> (\<exists>u. Return j u \<in> set (lin_hist s @ [Return i v]))"
    using w by auto
  moreover have "same_dispatcher ((lin_calls s)(i := None)) (lin_disp s) (seq_run protocol log NewDispatcher)"
    by (intro same_dispatcher_cong [OF d] calls_at_remove [OF f assms(2)]) auto
  moreover have "placed (lin_hist s @ [Return i v]) log j pc" if "((lin_calls s)(i := None)) j = Some pc" for j pc
    using that by (intro placed_hist [OF p]) (auto split: if_splits)
  ultimately show ?thesis
    using f linearizes_return [OF l o] unfolding lin_inv_def by simp
qed

lemma lin_step_inv:
  assumes "lin_step protocol s s'" "lin_inv protocol s log"
  shows "\<exists>log'. lin_inv protocol s' log'"
proof -
  have f: "finite (dom (lin_calls s))"
    and d: "same_dispatcher (lin_calls s) (lin_disp s) (seq_run protocol log NewDispatcher)"
    and p: "\<And>j pc. lin_calls s j = Some pc \<Longrightarrow> placed (lin_hist s) log j pc"
    using assms(2) unfolding lin_inv_def by blast+
  have h: "disp_handlers (lin_disp s) = disp_handlers (seq_run protocol log NewDispatcher)"
    using d by (simp add: same_dispatcher_def)
  from assms(1) show ?thesis
  proof cases
    case (invoke_dispatch i raw)
    then show ?thesis using lin_inv_invoke [OF assms(2) invoke_dispatch(2), of "AtEntry raw"] by auto
  next
    case (invoke_register i h)
    then show ?thesis using lin_inv_invoke [OF assms(2) invoke_register(2), of "AtRegister h"] by auto
  next
    case (receive i raw)
    have "lin_inv protocol s' log"
      unfolding receive(1) using p [OF receive(2)] f d
      by (intro lin_inv_keep [OF assms(2) receive(2), of "AtLookup raw"] same_dispatcher_update [OF f receive(2) d])
        (simp_all add: h)
    then show ?thesis by blast
  next
    case (reject i raw e)
    have "lin_inv protocol s' (log @ [(i, OpDispatch raw, Rejected e)])"
      unfolding reject(1) using p [OF reject(2)]
      by (intro lin_inv_append [OF assms(2) reject(2), of _ _ "AtReturn (Rejected e)"]
          same_dispatcher_update [OF f reject(2) d]) (auto simp: h seq_call_rejected [OF reject(3)] simp del: seq_call.simps)
    then show ?thesis by blast
  next
    case (find_handler i raw q src dst payload)
    let ?found = "map_get (disp_handlers (lin_disp s)) q"
    have "same_dispatcher ((lin_calls s)(i \<mapsto> AtCounter raw ?found)) (lin_disp s)
        (fst (seq_call protocol (OpDispatch raw) (seq_run protocol log NewDispatcher)))"
      by (intro same_dispatcher_update [OF f find_handler(2) d])
        (cases ?found; simp add: h seq_call_routed [OF find_handler(3)] del: seq_call.simps)+
    then have "lin_inv protocol (s\<lparr>lin_disp := lin_disp s, lin_calls := (lin_calls s)(i \<mapsto> AtCounter raw ?found)\<rparr>)
        (log @ [(i, OpDispatch raw, routed_verdict raw ?found)])"
      using p [OF find_handler(2)]
      by (intro lin_inv_append [OF assms(2) find_handler(2), of _ _ "AtCounter raw ?found"])
        (simp_all add: h seq_call_routed [OF find_handler(3)] del: seq_call.simps)
    then show ?thesis unfolding find_handler(1) by auto
  next
    case (drop_packet i raw)
    have "lin_inv protocol s' log"
      unfolding drop_packet(1) using p [OF drop_packet(2)]
      by (intro lin_inv_keep [OF assms(2) drop_packet(2), of "AtReturn (routed_verdict raw None)"]
          same_dispatcher_update [OF f drop_packet(2) d]) (auto simp: h)
    then show ?thesis by blast
  next
    case (hand_over i raw hd)
    have "lin_inv protocol s' log"
      unfolding hand_over(1) using p [OF hand_over(2)]
      by (intro lin_inv_keep [OF assms(2) hand_over(2), of "AtReturn (routed_verdict raw (Some hd))"]
          same_dispatcher_update [OF f hand_over(2) d]) (auto simp: h)
    then show ?thesis by blast
  next
    case (register i hd)
    have "lin_inv protocol s' (log @ [(i, OpRegister hd, Registered)])"
      unfolding register(1) using p [OF register(2)]
      by (intro lin_inv_append [OF assms(2) register(2), of _ _ "AtReturn Registered"]
          same_dispatcher_update [OF f register(2) d]) (auto simp: h RegisterHandler_def)
    then show ?thesis by blast
  next
    case (return i v)
    then show ?thesis using lin_inv_return [OF assms(2) return(2)] by auto
  qed
qed

lemma lin_reachable_inv: "lin_reachable protocol s \<Longrightarrow> \<exists>log. lin_inv protocol s log"
proof (induction rule: lin_reachable.induct)
  case start
  have "lin_inv protocol \<lparr>lin_disp = NewDispatcher, lin_calls = Map.empty, lin_hist = []\<rparr> []"
    by (simp add: lin_inv_def same_dispatcher_def linearizes_def in_real_time_def calls_at_def)
  then show ?case by blast
next
  case (step s s')
  then show ?case using lin_step_inv by blast
qed

section \<open>Loads of the statistics\<close>

text \<open>
  \<open>Stats\<close> loads the four counters one after the other, so packets may be counted in between: each
  load sees the dispatcher of its own moment.
\<close>

definition loaded_stats :: "'h dispatcher \<Rightarrow> 'h dispatcher \<Rightarrow> 'h dispatcher \<Rightarrow> 'h dispatcher \<Rightarrow> dispatch_stats" where
  "loaded_stats d0 d1 d2 d3 =
     \<lparr>PacketsReceived = packetsReceived d0, PacketsInvalid = packetsInvalid d1,
      PacketsDropped = packetsDropped d2, PacketsDispatched = packetsDispatched d3\<rparr>"

lemma loaded_stats_still: "loaded_stats d d d d = DispatcherStats d"
  by (simp add: loaded_stats_def DispatcherStats_def)

text \<open>A report with more dropped packets than received ones: the statistics are no snapshot.\<close>

lemma Stats_no_snapshot:
  fixes protocol :: "'h \<Rightarrow> byte" and handle :: "('h, 'w, unit) handle_fun"
  shows "\<exists>d'. (disp_step protocol)\<^sup>*\<^sup>* \<lparr>sys_disp = NewDispatcher, sys_calls = {#}\<rparr> \<lparr>sys_disp = d', sys_calls = {#}\<rparr>
    \<and> PacketsReceived (loaded_stats NewDispatcher NewDispatcher d' d') < PacketsDropped (loaded_stats NewDispatcher NewDispatcher d' d')"
proof -
  let ?d' = "fst (Dispatch handle udp_packet (NewDispatcher :: 'h dispatcher) (undefined :: 'w))"
  have r: "route udp_packet = (Ok (17, IPv4 10 0 0 1, IPv4 10 0 0 2, [1, 2]) :: (unit dispatch_error, _) outcome)"
    by code_simp
  have "disp_step protocol \<lparr>sys_disp = NewDispatcher, sys_calls = {#}\<rparr> \<lparr>sys_disp = NewDispatcher, sys_calls = {#Arrived udp_packet#}\<rparr>"
    using disp_step.spawn [of protocol "\<lparr>sys_disp = NewDispatcher, sys_calls = {#}\<rparr>" udp_packet] by simp
  with Dispatch_steps [of protocol NewDispatcher udp_packet "{#}" handle undefined]
  have "(disp_step protocol)\<^sup>*\<^sup>* \<lparr>sys_disp = NewDispatcher, sys_calls = {#}\<rparr> \<lparr>sys_disp = ?d', sys_calls = {#}\<rparr>"
    by (meson converse_rtranclp_into_rtranclp)
  moreover have "packetsDropped ?d' = 1"
    by (simp add: Dispatch_cases Let_def r NewDispatcher_def)
  ultimately show ?thesis by (intro exI [of _ ?d']) (simp add: loaded_stats_def NewDispatcher_def)
qed

section \<open>Properties\<close>

text \<open>
  Property C7. The dispatcher is linearizable: for every run of concurrent \<open>Dispatch\<close> and \<open>Register\<close> calls
  there is an order of the calls, one that respects which call had returned before which was
  invoked, such that calling the sequential functions in this order gives every call that has
  returned the same result; and when no call is in progress the dispatcher, with its handlers and
  its four counters, is the one the sequential calls leave.
\<close>

theorem Dispatch_linearizable:
  assumes "lin_reachable protocol s"
  shows "\<exists>log. linearizes protocol (lin_hist s) log
    \<and> (lin_calls s = Map.empty \<longrightarrow> lin_disp s = seq_run protocol log NewDispatcher
        \<and> (\<forall>i op. Invoke i op \<in> set (lin_hist s) \<longrightarrow> i \<in> fst ` set log))"
proof -
  obtain log where i: "lin_inv protocol s log" using lin_reachable_inv [OF assms] by blast
  then have l: "linearizes protocol (lin_hist s) log" by (simp add: lin_inv_def)
  moreover have "lin_disp s = seq_run protocol log NewDispatcher" if "lin_calls s = Map.empty"
    using i that by (simp add: lin_inv_def same_dispatcher_def calls_at_def)
  moreover have "j \<in> fst ` set log" if "lin_calls s = Map.empty" "Invoke j op \<in> set (lin_hist s)" for j op
  proof -
    note j = that
    have "j \<notin> dom (lin_calls s)" using j(1) by simp
    then obtain v where "Return j v \<in> set (lin_hist s)" using i j(2) unfolding lin_inv_def by blast
    then show ?thesis using l unfolding linearizes_def by force
  qed
  ultimately show ?thesis by blast
qed

text \<open>
  A run in which a registration overlaps the call that profits from it: the packet is invoked
  first, and handed to the handler that is registered before it is looked up.
\<close>

definition overlapping_history :: "unit disp_event list" where
  "overlapping_history =
     [Invoke 0 (OpDispatch udp_packet), Invoke 1 (OpRegister ()), Return 1 Registered,
      Return 0 (HandedOver () (IPv4 10 0 0 1) (IPv4 10 0 0 2) [1, 2])]"

lemma overlapping_reachable:
  "lin_reachable (\<lambda>_. 17)
     \<lparr>lin_disp = \<lparr>disp_handlers = [(17, ())], packetsReceived = 1, packetsInvalid = 0, packetsDropped = 0,
        packetsDispatched = 1\<rparr>,
      lin_calls = Map.empty, lin_hist = overlapping_history\<rparr>"
proof -
  have r: "route udp_packet = (Ok (17, IPv4 10 0 0 1, IPv4 10 0 0 2, [1, 2]) :: (unit dispatch_error, _) outcome)"
    by code_simp
  note go = lin_reachable.step [where protocol = "\<lambda>_ :: unit. 17"]
  note 1 = go [OF lin_reachable.start lin_step.invoke_dispatch [where i = 0 and raw = udp_packet]]
  note 2 = go [OF 1 lin_step.invoke_register [where i = 1 and h = "()"], simplified]
  note 3 = go [OF 2 lin_step.receive [where i = 0 and raw = udp_packet], simplified]
  note 4 = go [OF 3 lin_step.register [where i = 1 and h = "()"], simplified]
  note 5 = go [OF 4 lin_step.return [where i = 1 and v = Registered], simplified]
  note 6 = go [OF 5 lin_step.find_handler [where i = 0 and raw = udp_packet, OF _ r], simplified]
  note 7 = go [OF 6 lin_step.hand_over [where i = 0 and raw = udp_packet and h = "()"], simplified]
  note 8 = go [OF 7 lin_step.return [where i = 0], simplified]
  show ?thesis
    using 8 by (simp add: NewDispatcher_def RegisterHandler_def routed_verdict_def r overlapping_history_def
        fun_upd_def)
qed

theorem Dispatch_linearizable_witness:
  "\<exists>log. linearizes (\<lambda>_. 17) overlapping_history log \<and> {0, 1} \<subseteq> fst ` set log
    \<and> packetsDispatched (seq_run (\<lambda>_. 17) log NewDispatcher) = 1"
proof -
  from Dispatch_linearizable [OF overlapping_reachable]
  obtain log where l: "linearizes (\<lambda>_. 17) overlapping_history log"
    "packetsDispatched (seq_run (\<lambda>_. 17) log NewDispatcher) = 1"
    "\<And>i op. Invoke i op \<in> set overlapping_history \<Longrightarrow> i \<in> fst ` set log"
    by (simp (no_asm_use)) (metis dispatcher.select_convs(5))
  have "0 \<in> fst ` set log" "1 \<in> fst ` set log"
    using l(3) [of 0 "OpDispatch udp_packet"] l(3) [of 1 "OpRegister ()"] by (simp_all add: overlapping_history_def)
  then show ?thesis using l(1,2) by blast
qed

end
