(* ===== verification/System_Calls.thy ===== *)
theory System_Calls
  imports Net_Ip "HOL-Library.Multiset"
begin

text \<open>
  The system calls of the packet devices. What the kernel answers is not code of the program:
  a kernel is an argument of the operations, a function of the calls made so far and of the
  present one. The state an operation passes on is the trace of the calls and answers, from
  which the open descriptors and the packets handed over are read off.
\<close>

section \<open>Calls, answers and traces\<close>

type_synonym errno = nat
type_synonym fd = nat

text \<open>The requests carry the names of the constants the code passes.\<close>

datatype ioctl_request = TUNSETIFF | SIOCSIFMTU | SIOCGIFFLAGS | SIOCSIFFLAGS

datatype socket_kind = RawSocketKind | DatagramSocketKind

datatype syscall =
    Sys_open string
  | Sys_socket socket_kind
  | Sys_hdrincl fd
  | Sys_bind fd bytes
  | Sys_ioctl fd ioctl_request bytes
  | Sys_read fd nat
  | Sys_write fd bytes
  | Sys_sendto fd bytes bytes
  | Sys_close fd

text \<open>
  An answer: the error number (0 for success), the value returned, and the bytes the kernel
  wrote to the memory passed to it, from its start.
\<close>

record answer =
  a_errno :: errno
  a_value :: nat
  a_data :: bytes

type_synonym trace = "(syscall \<times> answer) list"
type_synonym kernel = "trace \<Rightarrow> syscall \<Rightarrow> answer"

definition sys :: "kernel \<Rightarrow> syscall \<Rightarrow> trace \<Rightarrow> answer \<times> trace" where
  "sys kern c tr = (kern tr c, tr @ [(c, kern tr c)])"

text \<open>Memory after the kernel wrote to it.\<close>

definition overlay :: "bytes \<Rightarrow> bytes \<Rightarrow> bytes" where
  "overlay new mem = take (length mem) new @ drop (length new) mem"

lemma length_overlay [simp]: "length (overlay new mem) = length mem"
  by (simp add: overlay_def)

lemma take_overlay:
  assumes "length m = n"
  shows "take n (overlay new (m @ x)) = take n (overlay new m)"
  using assms by (cases "length new \<le> n") (simp_all add: overlay_def)

section \<open>Open descriptors\<close>

fun fd_effect :: "syscall \<times> answer \<Rightarrow> fd set \<Rightarrow> fd set" where
  "fd_effect (Sys_open _, a) fds = (if a_errno a = 0 then insert (a_value a) fds else fds)"
| "fd_effect (Sys_socket _, a) fds = (if a_errno a = 0 then insert (a_value a) fds else fds)"
| "fd_effect (Sys_close fd, _) fds = fds - {fd}"
| "fd_effect _ fds = fds"

definition open_fds :: "trace \<Rightarrow> fd set" where
  "open_fds tr = fold fd_effect tr {}"

lemma open_fds_Nil [simp]: "open_fds [] = {}"
  by (simp add: open_fds_def)

lemma open_fds_append [simp]: "open_fds (tr @ es) = fold fd_effect es (open_fds tr)"
  by (simp add: open_fds_def)

text \<open>
  The kernel gives a new descriptor a number that is not in use (documented in \<^verbatim>\<open>open(2)\<close> and
  \<^verbatim>\<open>socket(2)\<close>).
\<close>

definition opens_fd :: "syscall \<Rightarrow> bool" where
  "opens_fd c = (case c of Sys_open _ \<Rightarrow> True | Sys_socket _ \<Rightarrow> True | _ \<Rightarrow> False)"

definition fresh_fds :: "kernel \<Rightarrow> bool" where
  "fresh_fds kern \<longleftrightarrow>
     (\<forall>tr c. opens_fd c \<longrightarrow> a_errno (kern tr c) = 0 \<longrightarrow> a_value (kern tr c) \<notin> open_fds tr)"

section \<open>Packets handed to the kernel\<close>

fun sent_by :: "fd \<Rightarrow> syscall \<times> answer \<Rightarrow> bytes list" where
  "sent_by fd (Sys_write f buf, a) = (if f = fd \<and> a_errno a = 0 then [buf] else [])"
| "sent_by fd (Sys_sendto f buf _, a) = (if f = fd \<and> a_errno a = 0 then [buf] else [])"
| "sent_by fd _ = []"

definition sent_packets :: "fd \<Rightarrow> trace \<Rightarrow> bytes list" where
  "sent_packets fd tr = concat (map (sent_by fd) tr)"

lemma sent_packets_append [simp]: "sent_packets fd (tr @ es) = sent_packets fd tr @ concat (map (sent_by fd) es)"
  by (simp add: sent_packets_def)

section \<open>Example kernels\<close>

text \<open>
  a kernel for concrete runs: the given calls fail with the given error numbers, a descriptor is
  larger than every value returned before, a write takes the whole packet.
\<close>

definition example_kernel :: "(syscall \<Rightarrow> errno) \<Rightarrow> kernel" where
  "example_kernel fails tr c =
     \<lparr>a_errno = fails c,
      a_value = (case c of
          Sys_write _ buf \<Rightarrow> length buf
        | _ \<Rightarrow> 3 + sum_list (map (\<lambda>e. a_value (snd e)) tr)),
      a_data = []\<rparr>"

lemma open_fds_bound: "fd \<in> open_fds tr \<Longrightarrow> fd \<le> sum_list (map (\<lambda>e. a_value (snd e)) tr)"
proof (induction tr rule: rev_induct)
  case (snoc e tr)
  obtain c a where e: "e = (c, a)" by fastforce
  show ?case using snoc by (cases c) (auto simp: e split: if_splits)
qed simp

lemma example_kernel_fresh: "fresh_fds (example_kernel fails)"
  unfolding fresh_fds_def
proof (intro allI impI)
  fix tr c
  assume c: "opens_fd c"
  have "a_value (example_kernel fails tr c) = 3 + sum_list (map (\<lambda>e. a_value (snd e)) tr)"
    using c by (cases c) (simp_all add: opens_fd_def example_kernel_def)
  then show "a_value (example_kernel fails tr c) \<notin> open_fds tr"
    using open_fds_bound [of _ tr] by fastforce
qed

end
