(* ===== verification/Tun_Device.thy ===== *)
theory Tun_Device
  imports System_Calls
begin

text \<open>
  \<^verbatim>\<open>internal/tun/tun.go\<close>, \<^verbatim>\<open>raw.go\<close>, \<^verbatim>\<open>factory.go\<close> and \<^verbatim>\<open>ioctl_linux.go\<close>: the two packet devices.
  An operation takes the kernel and a trace of system calls and returns the extended trace with
  its outcome, so that the calls of every error path, deferred ones included, are in the model.
  The lemmas show which descriptors an operation leaves open and what it passes to the kernel;
  the locale \<open>packet_sink\<close> is the contract of \<open>Write\<close> that the users of a device rely on.
\<close>

section \<open>The code\<close>

text \<open>\<^verbatim>\<open>ioctl_linux.go\<close>: the constants of Linux, and the structure of an interface request.\<close>

definition IFF_TUN :: "16 word" where "IFF_TUN = 0x0001"
definition IFF_NO_PI :: "16 word" where "IFF_NO_PI = 0x1000"
definition IFF_UP :: "16 word" where "IFF_UP = 0x1"
definition IFF_RUNNING :: "16 word" where "IFF_RUNNING = 0x40"

record ifreq =
  if_Name :: bytes
  if_Data :: bytes

definition zero_ifreq :: ifreq where
  "zero_ifreq = \<lparr>if_Name = replicate 16 0, if_Data = replicate 24 0\<rparr>"

definition ifreq_bytes :: "ifreq \<Rightarrow> bytes" where
  "ifreq_bytes r = if_Name r @ if_Data r"

definition bytes_ifreq :: "bytes \<Rightarrow> ifreq" where
  "bytes_ifreq bs = \<lparr>if_Name = take 16 bs, if_Data = drop 16 bs\<rparr>"

text \<open>
  \<open>copy(ifr.Name[:], name)\<close>, and the stores and loads through \<open>unsafe.Pointer\<close> at the start of
  the data, in the byte order of a little-endian machine.
\<close>

definition ifreq_named :: "bytes \<Rightarrow> ifreq" where
  "ifreq_named name = zero_ifreq\<lparr>if_Name := overlay name (if_Name zero_ifreq)\<rparr>"

definition put_le16 :: "16 word \<Rightarrow> bytes" where
  "put_le16 v = [ucast v, ucast (drop_bit 8 v)]"

definition put_le32 :: "32 word \<Rightarrow> bytes" where
  "put_le32 v = [ucast v, ucast (drop_bit 8 v), ucast (drop_bit 16 v), ucast (drop_bit 24 v)]"

definition data16 :: "ifreq \<Rightarrow> 16 word" where
  "data16 r = be16 (if_Data r ! 1) (if_Data r ! 0)"

definition set_data :: "bytes \<Rightarrow> ifreq \<Rightarrow> ifreq" where
  "set_data bs r = r\<lparr>if_Data := overlay bs (if_Data r)\<rparr>"

definition ioctl :: "kernel \<Rightarrow> fd \<Rightarrow> ioctl_request \<Rightarrow> ifreq \<Rightarrow> trace \<Rightarrow> (errno \<times> ifreq) \<times> trace" where
  "ioctl kern fd req r tr =
     (let (a, tr) = sys kern (Sys_ioctl fd req (ifreq_bytes r)) tr
      in ((a_errno a, bytes_ifreq (overlay (a_data a) (ifreq_bytes r))), tr))"

text \<open>The trace after a call whose answer the code ignores.\<close>

definition close_fd :: "kernel \<Rightarrow> fd \<Rightarrow> trace \<Rightarrow> trace" where
  "close_fd kern fd tr = snd (sys kern (Sys_close fd) tr)"

text \<open>The errors, with the error number each wraps.\<close>

datatype tun_error =
    NoTunModule bytes errno
  | PermissionDenied bytes errno
  | OpenFailed bytes errno
  | IoctlFailed ioctl_request bytes errno
  | NoDatagramSocket bytes errno
  | ReadFailed bytes errno
  | WriteFailed bytes errno
  | CloseFailed bytes errno
  | NoRawSocket errno
  | NoHdrIncl errno
  | InvalidBindAddress string
  | BindFailed errno
  | ErrNotSupported
  | TooShortToSend
  | SendtoFailed errno
  | RawCloseFailed errno
  | UnknownMode string

definition ENOENT :: errno where "ENOENT = 2"
definition EPERM :: errno where "EPERM = 1"
definition EACCES :: errno where "EACCES = 13"
definition EINTR :: errno where "EINTR = 4"

record tun_interface =
  tun_fd :: fd
  tun_name :: bytes
  tun_mtu :: int

definition trim_nuls :: "bytes \<Rightarrow> bytes" where
  "trim_nuls bs = rev (dropWhile (\<lambda>b. b = 0) (rev bs))"

text \<open>
  The configuration of \<open>OpenTUN\<close> on the datagram socket, from the MTU to the flags; it is run
  between the opening of the socket and its deferred close. An error has closed the device.
\<close>

definition configure_interface ::
  "kernel \<Rightarrow> fd \<Rightarrow> fd \<Rightarrow> bytes \<Rightarrow> int \<Rightarrow> trace \<Rightarrow> (tun_error, tun_interface) outcome \<times> trace" where
  "configure_interface kern fd sock actualName mtu tr =
     (let ifrMtu = set_data (put_le32 (word_of_int mtu)) (ifreq_named actualName);
          ((errno, ifrMtu), tr) = ioctl kern sock SIOCSIFMTU ifrMtu tr
      in if errno \<noteq> 0 then (Err (IoctlFailed SIOCSIFMTU actualName errno), close_fd kern fd tr)
      else let ((errno, ifrFlags), tr) = ioctl kern sock SIOCGIFFLAGS (ifreq_named actualName) tr
      in if errno \<noteq> 0 then (Err (IoctlFailed SIOCGIFFLAGS actualName errno), close_fd kern fd tr)
      else let flags = data16 ifrFlags OR (IFF_UP OR IFF_RUNNING);
               ifrFlags = set_data (put_le16 flags) ifrFlags;
               ((errno, ifrFlags), tr) = ioctl kern sock SIOCSIFFLAGS ifrFlags tr
      in if errno \<noteq> 0 then (Err (IoctlFailed SIOCSIFFLAGS actualName errno), close_fd kern fd tr)
      else (Ok \<lparr>tun_fd = fd, tun_name = actualName, tun_mtu = mtu\<rparr>, tr))"

definition OpenTUN :: "kernel \<Rightarrow> bytes \<Rightarrow> int \<Rightarrow> trace \<Rightarrow> (tun_error, tun_interface) outcome \<times> trace" where
  "OpenTUN kern name mtu tr =
     (let (a, tr) = sys kern (Sys_open ''/dev/net/tun'') tr; errno = a_errno a; fd = a_value a
      in if errno \<noteq> 0 then
        (if errno = ENOENT then (Err (NoTunModule name errno), tr)
         else if errno = EACCES \<or> errno = EPERM then (Err (PermissionDenied name errno), tr)
         else (Err (OpenFailed name errno), tr))
      else let ifr = set_data (put_le16 (IFF_TUN OR IFF_NO_PI)) (ifreq_named name);
               ((errno, ifr), tr) = ioctl kern fd TUNSETIFF ifr tr
      in if errno \<noteq> 0 then (Err (IoctlFailed TUNSETIFF name errno), close_fd kern fd tr)
      else let actualName = trim_nuls (if_Name ifr);
               (a, tr) = sys kern (Sys_socket DatagramSocketKind) tr; sock = a_value a
      in if a_errno a \<noteq> 0 then (Err (NoDatagramSocket actualName (a_errno a)), close_fd kern fd tr)
      else let (r, tr) = configure_interface kern fd sock actualName mtu tr
      in (r, close_fd kern sock tr))"

text \<open>
  \<open>Read\<close> returns the length and the buffer with what the kernel wrote to it; \<open>Write\<close> the length.
\<close>

definition TunRead :: "kernel \<Rightarrow> tun_interface \<Rightarrow> bytes \<Rightarrow> trace \<Rightarrow> (tun_error, nat \<times> bytes) outcome \<times> trace" where
  "TunRead kern i buf tr =
     (let (a, tr) = sys kern (Sys_read (tun_fd i) (length buf)) tr
      in if a_errno a \<noteq> 0 then (Err (ReadFailed (tun_name i) (a_errno a)), tr)
      else (Ok (a_value a, overlay (a_data a) buf), tr))"

definition TunWrite :: "kernel \<Rightarrow> tun_interface \<Rightarrow> bytes \<Rightarrow> trace \<Rightarrow> (tun_error, nat) outcome \<times> trace" where
  "TunWrite kern i buf tr =
     (let (a, tr) = sys kern (Sys_write (tun_fd i) buf) tr
      in if a_errno a \<noteq> 0 then (Err (WriteFailed (tun_name i) (a_errno a)), tr)
      else (Ok (a_value a), tr))"

definition TunClose :: "kernel \<Rightarrow> tun_interface \<Rightarrow> trace \<Rightarrow> (tun_error, unit) outcome \<times> trace" where
  "TunClose kern i tr =
     (let (a, tr) = sys kern (Sys_close (tun_fd i)) tr
      in if a_errno a \<noteq> 0 then (Err (CloseFailed (tun_name i) (a_errno a)), tr) else (Ok (), tr))"

record raw_socket =
  raw_fd :: fd
  raw_name :: string

definition OpenRaw :: "kernel \<Rightarrow> string \<Rightarrow> trace \<Rightarrow> (tun_error, raw_socket) outcome \<times> trace" where
  "OpenRaw kern bindIP tr =
     (let (a, tr) = sys kern (Sys_socket RawSocketKind) tr; fd = a_value a
      in if a_errno a \<noteq> 0 then (Err (NoRawSocket (a_errno a)), tr)
      else let (a, tr) = sys kern (Sys_hdrincl fd) tr
      in if a_errno a \<noteq> 0 then (Err (NoHdrIncl (a_errno a)), close_fd kern fd tr)
      else let ip = (case ParseIP bindIP of None \<Rightarrow> IPv4 0 0 0 0 | Some ip \<Rightarrow> ip)
      in case to4 ip of
        None \<Rightarrow> (Err (InvalidBindAddress bindIP), close_fd kern fd tr)
      | Some ip \<Rightarrow>
          (let (a, tr) = sys kern (Sys_bind fd (overlay ip (replicate 4 0))) tr
           in if a_errno a \<noteq> 0 then (Err (BindFailed (a_errno a)), close_fd kern fd tr)
           else (Ok \<lparr>raw_fd = fd, raw_name = ''raw-'' @ bindIP\<rparr>, tr)))"

definition RawRead :: "raw_socket \<Rightarrow> bytes \<Rightarrow> trace \<Rightarrow> (tun_error, nat \<times> bytes) outcome \<times> trace" where
  "RawRead s buf tr = (Err ErrNotSupported, tr)"

definition RawWrite :: "kernel \<Rightarrow> raw_socket \<Rightarrow> bytes \<Rightarrow> trace \<Rightarrow> (tun_error, nat) outcome \<times> trace" where
  "RawWrite kern s buf tr =
     (if length buf < 20 then (Err TooShortToSend, tr)
      else let dst = take 4 (drop 16 buf);
               (a, tr) = sys kern (Sys_sendto (raw_fd s) buf dst) tr
      in if a_errno a \<noteq> 0 then (Err (SendtoFailed (a_errno a)), tr)
      else (Ok (length buf), tr))"

definition RawClose :: "kernel \<Rightarrow> raw_socket \<Rightarrow> trace \<Rightarrow> (tun_error, unit) outcome \<times> trace" where
  "RawClose kern s tr =
     (let (a, tr) = sys kern (Sys_close (raw_fd s)) tr
      in if a_errno a \<noteq> 0 then (Err (RawCloseFailed (a_errno a)), tr) else (Ok (), tr))"

text \<open>\<^verbatim>\<open>factory.go\<close>: a device is a value of the interface \<^verbatim>\<open>PacketIO\<close>.\<close>

datatype packet_io = TunDevice tun_interface | RawDevice raw_socket

definition ModeTUN :: string where [simp]: "ModeTUN = ''tun''"
definition ModeRaw :: string where [simp]: "ModeRaw = ''raw''"

record tun_config =
  tc_Mode :: string
  tc_Name :: bytes
  tc_MTU :: int
  tc_BindIP :: string

definition Open :: "kernel \<Rightarrow> tun_config \<Rightarrow> trace \<Rightarrow> (tun_error, packet_io) outcome \<times> trace" where
  "Open kern cfg tr =
     (if tc_Mode cfg = ModeTUN then
        map_prod (map_outcome id TunDevice) id (OpenTUN kern (tc_Name cfg) (tc_MTU cfg) tr)
      else if tc_Mode cfg = ModeRaw then
        map_prod (map_outcome id RawDevice) id (OpenRaw kern (tc_BindIP cfg) tr)
      else (Err (UnknownMode (tc_Mode cfg)), tr))"

fun io_Read :: "kernel \<Rightarrow> packet_io \<Rightarrow> bytes \<Rightarrow> trace \<Rightarrow> (tun_error, nat \<times> bytes) outcome \<times> trace" where
  "io_Read kern (TunDevice i) buf tr = TunRead kern i buf tr"
| "io_Read kern (RawDevice s) buf tr = RawRead s buf tr"

fun io_Write :: "kernel \<Rightarrow> packet_io \<Rightarrow> bytes \<Rightarrow> trace \<Rightarrow> (tun_error, nat) outcome \<times> trace" where
  "io_Write kern (TunDevice i) buf tr = TunWrite kern i buf tr"
| "io_Write kern (RawDevice s) buf tr = RawWrite kern s buf tr"

fun io_Close :: "kernel \<Rightarrow> packet_io \<Rightarrow> trace \<Rightarrow> (tun_error, unit) outcome \<times> trace" where
  "io_Close kern (TunDevice i) tr = TunClose kern i tr"
| "io_Close kern (RawDevice s) tr = RawClose kern s tr"

fun io_fd :: "packet_io \<Rightarrow> fd" where
  "io_fd (TunDevice i) = tun_fd i"
| "io_fd (RawDevice s) = raw_fd s"

text \<open>The name as a Go string.\<close>

definition go_string :: "bytes \<Rightarrow> string" where
  "go_string bs = map (\<lambda>b. char_of (unat b)) bs"

definition TunMTU :: "tun_interface \<Rightarrow> int" where
  "TunMTU i = tun_mtu i"

definition RawName :: "raw_socket \<Rightarrow> string" where
  "RawName s = raw_name s"

fun io_Name :: "packet_io \<Rightarrow> string" where
  "io_Name (TunDevice i) = go_string (tun_name i)"
| "io_Name (RawDevice s) = RawName s"

section \<open>Descriptors\<close>

lemma open_fds_ioctl: "ioctl kern fd req r tr = ((e, r'), tr') \<Longrightarrow> open_fds tr' = open_fds tr"
  by (auto simp: ioctl_def sys_def)

lemma open_fds_close_fd [simp]: "open_fds (close_fd kern fd tr) = open_fds tr - {fd}"
  by (simp add: close_fd_def sys_def)

text \<open>What an opening operation leaves behind, from the descriptors before it.\<close>

definition opened :: "fd set \<Rightarrow> ('a \<Rightarrow> fd) \<Rightarrow> (tun_error, 'a) outcome \<times> trace \<Rightarrow> bool" where
  "opened fds f r \<longleftrightarrow>
     (case r of
        (Ok d, tr) \<Rightarrow> f d \<notin> fds \<and> open_fds tr = insert (f d) fds
      | (Err e, tr) \<Rightarrow> open_fds tr = fds
      | (Panic, tr) \<Rightarrow> False)"

lemma opened_map [simp]:
  "opened fds f (map_prod (map_outcome id g) id r) = opened fds (f \<circ> g) r"
  by (cases r; cases "fst r") (simp_all add: opened_def)

lemma configure_interface_cases:
  assumes "configure_interface kern fd sock name mtu tr = (r, tr')"
  obtains (ok) "r = Ok \<lparr>tun_fd = fd, tun_name = name, tun_mtu = mtu\<rparr>" "open_fds tr' = open_fds tr"
  | (err) req e where "r = Err (IoctlFailed req name e)" "open_fds tr' = open_fds tr - {fd}"
proof -
  obtain e1 r1 t1 where 1: "ioctl kern sock SIOCSIFMTU
      (set_data (put_le32 (word_of_int mtu)) (ifreq_named name)) tr = ((e1, r1), t1)" by (metis surj_pair)
  obtain e2 r2 t2 where 2: "ioctl kern sock SIOCGIFFLAGS (ifreq_named name) t1 = ((e2, r2), t2)"
    by (metis surj_pair)
  obtain e3 r3 t3 where 3: "ioctl kern sock SIOCSIFFLAGS
      (set_data (put_le16 (data16 r2 OR (IFF_UP OR IFF_RUNNING))) r2) t2 = ((e3, r3), t3)" by (metis surj_pair)
  note fds = open_fds_ioctl [OF 1] open_fds_ioctl [OF 2] open_fds_ioctl [OF 3]
  show thesis
    using assms ok err fds by (auto simp: configure_interface_def 1 2 3 split: if_splits)
qed

text \<open>\<open>OpenTUN\<close> by the outcomes of its parts.\<close>

definition tun_request :: "bytes \<Rightarrow> ifreq" where
  "tun_request name = set_data (put_le16 (IFF_TUN OR IFF_NO_PI)) (ifreq_named name)"

lemma OpenTUN_eq:
  assumes "kern tr (Sys_open ''/dev/net/tun'') = a"
    and "ioctl kern (a_value a) TUNSETIFF (tun_request name) (tr @ [(Sys_open ''/dev/net/tun'', a)]) = ((e, r), t)"
    and "kern t (Sys_socket DatagramSocketKind) = b"
    and "configure_interface kern (a_value a) (a_value b) (trim_nuls (if_Name r)) mtu
      (t @ [(Sys_socket DatagramSocketKind, b)]) = (res, t')"
  shows "OpenTUN kern name mtu tr =
    (if a_errno a \<noteq> 0 then
       (Err (if a_errno a = ENOENT then NoTunModule name (a_errno a)
             else if a_errno a = EACCES \<or> a_errno a = EPERM then PermissionDenied name (a_errno a)
             else OpenFailed name (a_errno a)), tr @ [(Sys_open ''/dev/net/tun'', a)])
     else if e \<noteq> 0 then (Err (IoctlFailed TUNSETIFF name e), close_fd kern (a_value a) t)
     else if a_errno b \<noteq> 0 then (Err (NoDatagramSocket (trim_nuls (if_Name r)) (a_errno b)),
       close_fd kern (a_value a) (t @ [(Sys_socket DatagramSocketKind, b)]))
     else (res, close_fd kern (a_value b) t'))"
  using assms by (simp add: OpenTUN_def sys_def tun_request_def)

lemma OpenTUN_opened:
  assumes "fresh_fds kern"
  shows "opened (open_fds tr) tun_fd (OpenTUN kern name mtu tr)"
proof -
  obtain a where a: "kern tr (Sys_open ''/dev/net/tun'') = a" by simp
  define t1 where "t1 = tr @ [(Sys_open ''/dev/net/tun'', a)]"
  obtain e r t2 where 2: "ioctl kern (a_value a) TUNSETIFF (tun_request name) t1 = ((e, r), t2)"
    by (metis surj_pair)
  obtain b where b: "kern t2 (Sys_socket DatagramSocketKind) = b" by simp
  define t3 where "t3 = t2 @ [(Sys_socket DatagramSocketKind, b)]"
  obtain res t4 where 4: "configure_interface kern (a_value a) (a_value b) (trim_nuls (if_Name r)) mtu t3 = (res, t4)"
    by (metis surj_pair)
  have fresh: "a_errno a = 0 \<Longrightarrow> a_value a \<notin> open_fds tr" "a_errno b = 0 \<Longrightarrow> a_value b \<notin> open_fds t2"
    using assms by (simp_all add: fresh_fds_def opens_fd_def flip: a b)
  have fds: "open_fds t1 = (if a_errno a = 0 then insert (a_value a) (open_fds tr) else open_fds tr)"
    "open_fds t2 = open_fds t1"
    "open_fds t3 = (if a_errno b = 0 then insert (a_value b) (open_fds t2) else open_fds t2)"
    using open_fds_ioctl [OF 2] by (simp_all add: t1_def t3_def)
  note eq = OpenTUN_eq [OF a 2 [unfolded t1_def] b 4 [unfolded t3_def], folded t1_def t3_def]
  from 4 show ?thesis
    by (cases rule: configure_interface_cases; cases "a_errno a = 0"; cases "a_errno b = 0")
      (use fresh fds in \<open>auto simp: eq opened_def\<close>)
qed

lemma OpenRaw_opened:
  assumes "fresh_fds kern"
  shows "opened (open_fds tr) raw_fd (OpenRaw kern bindIP tr)"
proof -
  have "a_value (kern t (Sys_socket k)) \<notin> open_fds t" if "a_errno (kern t (Sys_socket k)) = 0" for t k
    using assms that by (simp add: fresh_fds_def opens_fd_def)
  then show ?thesis
    by (auto simp: OpenRaw_def opened_def sys_def Let_def split: option.splits)
qed

section \<open>Properties\<close>

text \<open>
  Property C32. No path through the opening of a device leaks a descriptor: on a kernel that
  numbers new descriptors freshly, a successful \<open>Open\<close> leaves open exactly the descriptor of the
  device it returns beside those open before, and every failure, at whatever system call and in
  either mode, leaves the open descriptors as they were; closing the device restores them.
\<close>

theorem Open_leaks_no_fd:
  assumes "fresh_fds kern"
  shows "case Open kern cfg tr of
      (Ok dev, tr') \<Rightarrow> io_fd dev \<notin> open_fds tr \<and> open_fds tr' = insert (io_fd dev) (open_fds tr)
        \<and> open_fds (snd (io_Close kern dev tr')) = open_fds tr
    | (Err e, tr') \<Rightarrow> open_fds tr' = open_fds tr
    | (Panic, tr') \<Rightarrow> False"
proof -
  have f: "io_fd \<circ> TunDevice = tun_fd" "io_fd \<circ> RawDevice = raw_fd" by auto
  have o: "opened (open_fds tr) io_fd (Open kern cfg tr)"
    using OpenTUN_opened [OF assms] OpenRaw_opened [OF assms]
    by (simp add: Open_def f) (simp add: opened_def)
  have c: "open_fds (snd (io_Close kern dev t)) = open_fds t - {io_fd dev}" for dev t
    by (cases dev) (simp_all add: TunClose_def RawClose_def sys_def)
  from o c show ?thesis by (auto simp: opened_def split: outcome.splits)
qed

definition no_flags_kernel :: kernel where
  "no_flags_kernel = example_kernel (\<lambda>c. case c of Sys_ioctl _ SIOCGIFFLAGS _ \<Rightarrow> 19 | _ \<Rightarrow> 0)"

theorem Open_leaks_no_fd_witness:
  "open_fds (snd (Open no_flags_kernel
     \<lparr>tc_Mode = ''tun'', tc_Name = [116], tc_MTU = 1500, tc_BindIP = []\<rparr> [])) = {}"
proof -
  let ?c = "\<lparr>tc_Mode = ''tun'', tc_Name = [116], tc_MTU = 1500, tc_BindIP = []\<rparr>"
  have "fresh_fds no_flags_kernel" unfolding no_flags_kernel_def by (rule example_kernel_fresh)
  from Open_leaks_no_fd [OF this, where cfg = ?c and tr = "[]"]
  have "\<forall>e. fst (Open no_flags_kernel ?c []) = Err e \<longrightarrow> open_fds (snd (Open no_flags_kernel ?c [])) = {}"
    by (auto split: prod.splits)
  moreover have "fst (Open no_flags_kernel ?c []) = Err (IoctlFailed SIOCGIFFLAGS [116] 19)" by code_simp
  ultimately show ?thesis by blast
qed

text \<open>The zero-padded name field, and the request the flags are set with.\<close>

definition name_field :: "bytes \<Rightarrow> bytes" where
  "name_field name = overlay name (replicate 16 0)"

lemma ifreq_bytes_simps:
  "ifreq_bytes (ifreq_named name) = name_field name @ replicate 24 0"
  "length bs \<le> 24 \<Longrightarrow>
   ifreq_bytes (set_data bs (ifreq_named name)) = name_field name @ bs @ replicate (24 - length bs) 0"
  by (simp_all add: ifreq_bytes_def ifreq_named_def zero_ifreq_def name_field_def set_data_def overlay_def)

lemma configure_interface_Ok:
  assumes "configure_interface kern fd sock name mtu tr = (Ok i, tr')"
  shows "\<exists>a g b. tr' = tr @
      [(Sys_ioctl sock SIOCSIFMTU (name_field name @ put_le32 (word_of_int mtu) @ replicate 20 0), a),
       (Sys_ioctl sock SIOCGIFFLAGS (name_field name @ replicate 24 0), g),
       (Sys_ioctl sock SIOCSIFFLAGS (let r = overlay (a_data g) (name_field name @ replicate 24 0)
          in take 16 r @ put_le16 (data16 (bytes_ifreq r) OR 0x41) @ drop 18 r), b)]
    \<and> a_errno a = 0 \<and> a_errno g = 0 \<and> a_errno b = 0
    \<and> i = \<lparr>tun_fd = fd, tun_name = name, tun_mtu = mtu\<rparr>"
proof -
  let ?m = "name_field name @ put_le32 (word_of_int mtu) @ replicate 20 0" and ?q = "name_field name @ replicate 24 0"
  have f: "IFF_UP OR IFF_RUNNING = 0x41" by code_simp
  have m: "ifreq_bytes (set_data (put_le32 (word_of_int mtu)) (ifreq_named name)) = ?m"
    by (subst ifreq_bytes_simps) (simp_all add: put_le32_def)
  have s: "ifreq_bytes (set_data (put_le16 v) (bytes_ifreq r)) = take 16 r @ put_le16 v @ drop 18 r"
    if "length r = 40" for v r
    using that by (simp add: ifreq_bytes_def set_data_def bytes_ifreq_def overlay_def put_le16_def)
  have l: "length (name_field name) = 16" by (simp add: name_field_def)
  show ?thesis
    using assms
    by (auto simp: configure_interface_def ioctl_def sys_def Let_def m f s l ifreq_bytes_simps(1)
        split: if_splits)
qed

text \<open>
  Property C33. A device that opens has been set up as asked: the calls are exactly the creation
  of an interface of the requested name without packet information, the MTU (as a 32-bit value),
  and flags that add UP and RUNNING to the ones the kernel reported, all on the interface name
  that the kernel assigned, which is the device's name; each of them succeeded, and the helper
  socket is closed at the end.
\<close>

theorem OpenTUN_configures:
  assumes "OpenTUN kern name mtu tr = (Ok i, tr')"
  shows "\<exists>sock a1 a2 a3 a4 g a6 a7. tr' = tr @
      [(Sys_open ''/dev/net/tun'', a1),
       (Sys_ioctl (tun_fd i) TUNSETIFF (name_field name @ [0x01, 0x10] @ replicate 22 0), a2),
       (Sys_socket DatagramSocketKind, a3),
       (Sys_ioctl sock SIOCSIFMTU (name_field (tun_name i) @ put_le32 (word_of_int mtu) @ replicate 20 0), a4),
       (Sys_ioctl sock SIOCGIFFLAGS (name_field (tun_name i) @ replicate 24 0), g),
       (Sys_ioctl sock SIOCSIFFLAGS (let r = overlay (a_data g) (name_field (tun_name i) @ replicate 24 0)
          in take 16 r @ put_le16 (data16 (bytes_ifreq r) OR 0x41) @ drop 18 r), a6),
       (Sys_close sock, a7)]
    \<and> list_all (\<lambda>a. a_errno a = 0) [a1, a2, a3, a4, g, a6]
    \<and> a_value a1 = tun_fd i \<and> a_value a3 = sock \<and> tun_mtu i = mtu
    \<and> tun_name i = trim_nuls (take 16 (overlay (a_data a2) (name_field name)))"
proof -
  let ?t = "name_field name @ [0x01, 0x10] @ replicate 22 0"
  have "put_le16 (IFF_TUN OR IFF_NO_PI) = [0x01, 0x10]" by code_simp
  then have t: "ifreq_bytes (tun_request name) = ?t" by (simp add: tun_request_def ifreq_bytes_simps)
  obtain a where a: "kern tr (Sys_open ''/dev/net/tun'') = a" by simp
  let ?t1 = "tr @ [(Sys_open ''/dev/net/tun'', a)]"
  obtain e r t2 where 2: "ioctl kern (a_value a) TUNSETIFF (tun_request name) ?t1 = ((e, r), t2)"
    by (metis surj_pair)
  then obtain a2 where a2: "e = a_errno a2" "t2 = ?t1 @ [(Sys_ioctl (a_value a) TUNSETIFF ?t, a2)]"
    "if_Name r = take 16 (overlay (a_data a2) ?t)"
    by (auto simp: ioctl_def sys_def t bytes_ifreq_def)
  obtain b where b: "kern t2 (Sys_socket DatagramSocketKind) = b" by simp
  obtain res t4 where 4: "configure_interface kern (a_value a) (a_value b) (trim_nuls (if_Name r)) mtu
      (t2 @ [(Sys_socket DatagramSocketKind, b)]) = (res, t4)"
    by (metis surj_pair)
  have ok: "a_errno a = 0" "e = 0" "a_errno b = 0" "res = Ok i" "tr' = close_fd kern (a_value b) t4"
    using OpenTUN_eq [OF a 2 b 4] assms by (auto split: if_splits)
  have n: "take 16 (overlay (a_data a2) ?t) = take 16 (overlay (a_data a2) (name_field name))"
    by (rule take_overlay) (simp add: name_field_def)
  from configure_interface_Ok [OF 4 [unfolded ok(4)]] show ?thesis
    using ok a2 n by (auto simp: close_fd_def sys_def)
qed

definition tun_kernel :: kernel where
  "tun_kernel tr c = (example_kernel (\<lambda>_. 0) tr c)
     \<lparr>a_data := (case c of Sys_ioctl _ TUNSETIFF _ \<Rightarrow> [116, 117, 110, 48]
                | Sys_ioctl _ SIOCGIFFLAGS _ \<Rightarrow> replicate 16 0 @ [0x10, 0x10] | _ \<Rightarrow> [])\<rparr>"

theorem OpenTUN_configures_witness:
  "\<exists>i tr'. OpenTUN tun_kernel [] 1500 [] = (Ok i, tr') \<and> tun_name i = [116, 117, 110, 48]
    \<and> fst (tr' ! 5) = Sys_ioctl 12 SIOCSIFFLAGS (replicate 16 0 @ [0x51, 0x10] @ replicate 22 0)
    \<and> (\<exists>a. tr' ! 0 = (Sys_open ''/dev/net/tun'', a) \<and> a_value a = tun_fd i)"
proof -
  have "(case OpenTUN tun_kernel [] 1500 [] of (Ok i, tr') \<Rightarrow> tun_name i = [116, 117, 110, 48]
      \<and> fst (tr' ! 5) = Sys_ioctl 12 SIOCSIFFLAGS (replicate 16 0 @ [0x51, 0x10] @ replicate 22 0)
    | _ \<Rightarrow> False)" by code_simp
  then obtain i tr' where o: "OpenTUN tun_kernel [] 1500 [] = (Ok i, tr')" "tun_name i = [116, 117, 110, 48]"
    "fst (tr' ! 5) = Sys_ioctl 12 SIOCSIFFLAGS (replicate 16 0 @ [0x51, 0x10] @ replicate 22 0)"
    by (auto split: prod.splits outcome.splits)
  from OpenTUN_configures [OF o(1)] have "\<exists>a. tr' ! 0 = (Sys_open ''/dev/net/tun'', a) \<and> a_value a = tun_fd i"
    by auto
  with o show ?thesis by blast
qed

text \<open>
  A raw socket that opens is bound to the address its name spells, for every dotted
  quad; but a string that is no address at all, the empty one included, is bound to the wildcard
  address 0.0.0.0 without an error, while an IPv6 address is refused.
\<close>

theorem OpenRaw_binds:
  "(\<forall>s. fst (OpenRaw kern bindIP tr) = Ok s \<longrightarrow>
      (\<exists>addr a. last (snd (OpenRaw kern bindIP tr)) = (Sys_bind (raw_fd s) addr, a) \<and> a_errno a = 0
        \<and> length addr = 4 \<and> (\<forall>q. length q = 4 \<longrightarrow> bindIP = dotted q \<longrightarrow> addr = q)
        \<and> (ParseIP bindIP = None \<longrightarrow> addr = [0, 0, 0, 0]) \<and> raw_name s = ''raw-'' @ bindIP))
   \<and> (\<forall>ip s. ParseIP bindIP = Some ip \<longrightarrow> to4 ip = None \<longrightarrow> fst (OpenRaw kern bindIP tr) \<noteq> Ok s)"
proof -
  have o: "overlay a (replicate 4 0) = a" if "length a = 4" for a
    using that by (simp add: overlay_def)
  have q: "to4 (IPv4 (a ! 0) (a ! 1) (a ! 2) (a ! 3)) = Some a" if "length a = 4" for a
    using that by (elim length_4E) simp
  have n: "to4 (case ParseIP bindIP of None \<Rightarrow> IPv4 0 0 0 0 | Some ip \<Rightarrow> ip) = Some a \<Longrightarrow>
      length a = 4 \<and> (\<forall>q. length q = 4 \<longrightarrow> bindIP = dotted q \<longrightarrow> a = q)
      \<and> (ParseIP bindIP = None \<longrightarrow> a = [0, 0, 0, 0])" for a
    using to4_length q by (auto simp: ParseIP_dotted split: option.splits)
  show ?thesis
  proof (intro conjI allI impI)
    fix s
    assume "fst (OpenRaw kern bindIP tr) = Ok s"
    then obtain a where a: "to4 (case ParseIP bindIP of None \<Rightarrow> IPv4 0 0 0 0 | Some ip \<Rightarrow> ip) = Some a"
      and l: "\<exists>b. last (snd (OpenRaw kern bindIP tr)) = (Sys_bind (raw_fd s) (overlay a (replicate 4 0)), b)
        \<and> a_errno b = 0 \<and> raw_name s = ''raw-'' @ bindIP"
      by (auto simp: OpenRaw_def sys_def Let_def split: if_splits option.splits)
    show "\<exists>addr b. last (snd (OpenRaw kern bindIP tr)) = (Sys_bind (raw_fd s) addr, b) \<and> a_errno b = 0
        \<and> length addr = 4 \<and> (\<forall>q. length q = 4 \<longrightarrow> bindIP = dotted q \<longrightarrow> addr = q)
        \<and> (ParseIP bindIP = None \<longrightarrow> addr = [0, 0, 0, 0]) \<and> raw_name s = ''raw-'' @ bindIP"
      using l n [OF a] by (auto simp: o)
  next
    fix ip s
    assume "ParseIP bindIP = Some ip" "to4 ip = None"
    then show "fst (OpenRaw kern bindIP tr) \<noteq> Ok s"
      by (simp add: OpenRaw_def sys_def Let_def)
  qed
qed

theorem OpenRaw_binds_witness:
  "\<exists>s addr a. fst (OpenRaw (example_kernel (\<lambda>_. 0)) ''localhost'' []) = Ok s
     \<and> last (snd (OpenRaw (example_kernel (\<lambda>_. 0)) ''localhost'' [])) = (Sys_bind (raw_fd s) addr, a)
     \<and> addr = [0, 0, 0, 0]"
proof -
  have p: "ParseIP ''localhost'' = None" by code_simp
  have "fst (OpenRaw (example_kernel (\<lambda>_. 0)) ''localhost'' []) = Ok \<lparr>raw_fd = 3, raw_name = ''raw-localhost''\<rparr>"
    by code_simp
  then show ?thesis
    using OpenRaw_binds [of "example_kernel (\<lambda>_. 0)" "''localhost''" "[]"] p by blast
qed

section \<open>The contract of \<open>Write\<close>\<close>

text \<open>
  What the users of a device rely on: a write that succeeds has handed over exactly the given
  packet, one that fails has handed over nothing.
\<close>

locale packet_sink =
  fixes wr :: "bytes \<Rightarrow> 's \<Rightarrow> ('e, nat) outcome \<times> 's"
    and sent :: "'s \<Rightarrow> bytes list"
  assumes wr_Ok: "wr buf s = (Ok n, s') \<Longrightarrow> sent s' = sent s @ [buf]"
    and wr_Err: "wr buf s = (Err e, s') \<Longrightarrow> sent s' = sent s"
    and wr_returns: "fst (wr buf s) \<noteq> Panic"
begin

lemma sent_wr:
  "sent (snd (wr buf s)) = (case fst (wr buf s) of Ok _ \<Rightarrow> sent s @ [buf] | _ \<Rightarrow> sent s)"
  using wr_Ok [of buf s] wr_Err [of buf s] wr_returns [of buf s]
  by (cases "wr buf s"; cases "fst (wr buf s)") auto

end

interpretation io: packet_sink "io_Write kern dev" "sent_packets (io_fd dev)" for kern dev
proof
  fix buf s n s' e
  show "io_Write kern dev buf s = (Ok n, s') \<Longrightarrow> sent_packets (io_fd dev) s' = sent_packets (io_fd dev) s @ [buf]"
    by (cases dev) (auto simp: TunWrite_def RawWrite_def sys_def Let_def split: if_splits)
  show "io_Write kern dev buf s = (Err e, s') \<Longrightarrow> sent_packets (io_fd dev) s' = sent_packets (io_fd dev) s"
    by (cases dev) (auto simp: TunWrite_def RawWrite_def sys_def Let_def split: if_splits)
  show "fst (io_Write kern dev buf s) \<noteq> Panic"
    by (cases dev) (auto simp: TunWrite_def RawWrite_def sys_def Let_def)
qed

end
