(* ===== verification/Icmp_Echo.thy ===== *)
theory Icmp_Echo
  imports Ip_Builder Tun_Device
begin

text \<open>
  \<^verbatim>\<open>internal/icmp/icmp.go\<close> and \<^verbatim>\<open>handler.go\<close>: echo messages and the handler that answers echo
  requests. The handler works on a device through the \<open>Write\<close> method of its interface, which is
  an argument here; what the lemmas need of it is the contract \<open>packet_sink\<close>.
\<close>

section \<open>The code\<close>

definition TypeEchoReply :: byte where "TypeEchoReply = 0"
definition TypeEchoRequest :: byte where "TypeEchoRequest = 8"
definition TypeUnreachable :: byte where "TypeUnreachable = 3"

lemmas icmp_consts = TypeEchoReply_def TypeEchoRequest_def TypeUnreachable_def

datatype icmp_error = IcmpTooShort | IcmpNotEcho

record echo_message =
  em_Type :: byte
  em_Code :: byte
  em_Checksum :: "16 word"
  em_ID :: "16 word"
  em_Seq :: "16 word"
  em_Data :: bytes

definition ParseEcho :: "bytes \<Rightarrow> (icmp_error, echo_message) outcome" where
  "ParseEcho raw =
     (if length raw < 8 then Err IcmpTooShort
      else let msgType = raw ! 0
      in if msgType \<noteq> TypeEchoRequest \<and> msgType \<noteq> TypeEchoReply then Err IcmpNotEcho
      else Ok \<lparr>em_Type = msgType, em_Code = raw ! 1, em_Checksum = get16 raw 2,
               em_ID = get16 raw 4, em_Seq = get16 raw 6,
               em_Data = (if length raw > 8 then drop 8 raw else [])\<rparr>)"

definition MarshalEcho :: "echo_message \<Rightarrow> ('e, bytes) outcome" where
  "MarshalEcho m =
     obind (run_stmts
       [buf_set 0 (em_Type m),
        buf_set 1 (em_Code m),
        buf_set 2 0,
        buf_set 3 0,
        buf_put16 4 (em_ID m),
        buf_put16 6 (em_Seq m),
        (if 0 < length (em_Data m) then buf_copy_from 8 (em_Data m) else Ok)]
       (replicate (8 + length (em_Data m)) 0))
     (\<lambda>buf. buf_put16 2 (ICMPChecksum buf) buf)"

definition NewEchoReply :: "echo_message \<Rightarrow> echo_message" where
  "NewEchoReply req =
     \<lparr>em_Type = TypeEchoReply, em_Code = 0, em_Checksum = 0, em_ID = em_ID req,
      em_Seq = em_Seq req, em_Data = em_Data req\<rparr>"

record 'io icmp_handler =
  ih_io :: 'io

definition NewICMPHandler :: "'io \<Rightarrow> 'io icmp_handler" where
  "NewICMPHandler io = \<lparr>ih_io = io\<rparr>"

definition IcmpProtocol :: "'io icmp_handler \<Rightarrow> byte" where
  "IcmpProtocol h = ProtoICMP"

text \<open>The errors \<open>HandleIPPayload\<close> passes on.\<close>

datatype 'e handle_error = NotParsed icmp_error | NotBuilt ip_error | NotWritten 'e

text \<open>
  The state is the shared identification counter of the builder and whatever \<open>Write\<close> works on.
\<close>

definition HandleIPPayload ::
  "('io \<Rightarrow> bytes \<Rightarrow> 's \<Rightarrow> ('e, nat) outcome \<times> 's) \<Rightarrow> 'io icmp_handler \<Rightarrow> bytes \<Rightarrow> bytes \<Rightarrow> bytes \<Rightarrow>
   32 word \<times> 's \<Rightarrow> (32 word \<times> 's) \<times> ('e handle_error, unit) outcome" where
  "HandleIPPayload ioWrite h srcIP dstIP payload = (\<lambda>(idGen, s).
     case ParseEcho payload of
       Panic \<Rightarrow> ((idGen, s), Panic)
     | Err err \<Rightarrow> if err = IcmpNotEcho then ((idGen, s), Ok ()) else ((idGen, s), Err (NotParsed err))
     | Ok msg \<Rightarrow>
         if em_Type msg = TypeEchoRequest then
           let reply = NewEchoReply msg
           in case MarshalEcho reply of
             Panic \<Rightarrow> ((idGen, s), Panic)
           | Err err \<Rightarrow> ((idGen, s), Err err)
           | Ok replyBytes \<Rightarrow>
               let builder = NewPacketBuilder dstIP srcIP ProtoICMP;
                   (idGen, packet) = Build builder idGen replyBytes
               in (case packet of
                 Panic \<Rightarrow> ((idGen, s), Panic)
               | Err err \<Rightarrow> ((idGen, s), Err (NotBuilt err))
               | Ok packetBytes \<Rightarrow>
                   (case ioWrite (ih_io h) packetBytes s of
                     (Panic, s) \<Rightarrow> ((idGen, s), Panic)
                   | (Err err, s) \<Rightarrow> ((idGen, s), Err (NotWritten err))
                   | (Ok n, s) \<Rightarrow> ((idGen, s), Ok ())))
         else ((idGen, s), Ok ()))"

section \<open>Messages\<close>

text \<open>A message with a given checksum field.\<close>

definition echo_bytes :: "16 word \<Rightarrow> echo_message \<Rightarrow> bytes" where
  "echo_bytes c m =
     [em_Type m, em_Code m] @ put_be16 c @ put_be16 (em_ID m) @ put_be16 (em_Seq m) @ em_Data m"

definition echo_checksum :: "echo_message \<Rightarrow> 16 word" where
  "echo_checksum m = ICMPChecksum (echo_bytes 0 m)"

lemma length_echo_bytes [simp]: "length (echo_bytes c m) = 8 + length (em_Data m)"
  by (simp add: echo_bytes_def)

lemma echo_bytes_field:
  "get16 (echo_bytes c m) 2 = c" "put_field 2 d (echo_bytes c m) = echo_bytes d m"
  by (simp_all add: echo_bytes_def get16_def put_field_def put_be16_def)

lemma buf_put16_field: "i + 2 \<le> length buf \<Longrightarrow> buf_put16 i v buf = Ok (put_field i v buf)"
  by (simp add: buf_put16_def buf_copy_def put_field_def)

lemma MarshalEcho_eq: "MarshalEcho m = Ok (echo_bytes (echo_checksum m) m)"
proof -
  define k where "k = length (em_Data m)"
  have r: "replicate (8 + k) (0 :: byte) = [0,0,0,0,0,0,0,0] @ replicate k 0"
    using replicate_add [of 8 k "0 :: byte"] by (simp add: numeral_eq_Suc)
  have b: "run_stmts
       [buf_set 0 (em_Type m), buf_set 1 (em_Code m), buf_set 2 0, buf_set 3 0,
        buf_put16 4 (em_ID m), buf_put16 6 (em_Seq m),
        (if 0 < length (em_Data m) then buf_copy_from 8 (em_Data m) else Ok)]
       (replicate (8 + length (em_Data m)) 0) = Ok (echo_bytes 0 m)"
    unfolding k_def [symmetric] r
    by (auto simp: go_simps echo_bytes_def buf_copy_from_def numeral_eq_Suc k_def min_def)
  show ?thesis
    unfolding MarshalEcho_def b by (simp add: buf_put16_field echo_checksum_def echo_bytes_field)
qed

lemma ParseEcho_bytes:
  assumes "em_Type m = TypeEchoRequest \<or> em_Type m = TypeEchoReply"
  shows "ParseEcho (echo_bytes c m) = Ok (m\<lparr>em_Checksum := c\<rparr>)"
  using assms
  by (auto simp: ParseEcho_def echo_bytes_def get16_def put_be16_def Let_def intro!: echo_message.equality)

text \<open>The messages whose checksum field is filled in.\<close>

definition echo_wf :: "echo_message \<Rightarrow> bool" where
  "echo_wf m \<longleftrightarrow> (em_Type m = TypeEchoRequest \<or> em_Type m = TypeEchoReply)
     \<and> em_Checksum m = echo_checksum m"

lemma echo_checksum_upd [simp]: "echo_checksum (m\<lparr>em_Checksum := c\<rparr>) = echo_checksum m"
  by (simp add: echo_checksum_def echo_bytes_def)

interpretation echo: codec MarshalEcho ParseEcho echo_wf
  by unfold_locales (auto simp: MarshalEcho_eq ParseEcho_bytes echo_wf_def)

lemma echo_verifies:
  assumes "length (em_Data m) \<le> 65535"
  shows "ICMPChecksum (echo_bytes (echo_checksum m) m) = 0"
  using icmpck.seal_verifies [of 2 "echo_bytes 0 m"] assms
  by (simp add: echo_bytes_field echo_checksum_def)

lemma ParseEcho_OkD:
  assumes "ParseEcho raw = Ok m"
  shows "8 \<le> length raw" "length raw = 8 + length (em_Data m)" "raw = echo_bytes (em_Checksum m) m"
    "em_Type m = TypeEchoRequest \<or> em_Type m = TypeEchoReply"
proof -
  show l: "8 \<le> length raw" and "length raw = 8 + length (em_Data m)"
    and "em_Type m = TypeEchoRequest \<or> em_Type m = TypeEchoReply"
    using assms by (auto simp: ParseEcho_def Let_def split: if_splits)
  obtain a b c d e f g h r where "raw = a # b # c # d # e # f # g # h # r"
    using l by (auto simp: numeral_eq_Suc Suc_le_length_iff)
  then show "raw = echo_bytes (em_Checksum m) m"
    using assms by (auto simp: ParseEcho_def Let_def echo_bytes_def get16_def split: if_splits)
qed

section \<open>Replies\<close>

text \<open>The packet the handler writes for a request.\<close>

definition reply_packet :: "bytes \<Rightarrow> bytes \<Rightarrow> echo_message \<Rightarrow> 32 word \<Rightarrow> bytes" where
  "reply_packet srcIP dstIP m g =
     (let r = NewEchoReply m; b = NewPacketBuilder dstIP srcIP ProtoICMP; bs = echo_bytes (echo_checksum r) r
      in header_bytes (built_header b (build_ctx b [] (ucast (g + 1))) (20 + length bs)) @ bs)"

text \<open>What a reply to a request has to be, said of its bytes.\<close>

definition valid_reply :: "bytes \<Rightarrow> bytes \<Rightarrow> echo_message \<Rightarrow> bytes \<Rightarrow> bool" where
  "valid_reply srcIP dstIP m pkt \<longleftrightarrow>
     (\<exists>h r. ParseHeader pkt = Ok h \<and> HeaderLen h = 20 \<and> unat (ip_TotalLen h) = length pkt
        \<and> VerifyChecksum (take 20 pkt) \<and> ICMPChecksum (drop 20 pkt) = 0
        \<and> ip_Protocol h = ProtoICMP \<and> ip_Src h = ip4_field dstIP \<and> ip_Dst h = ip4_field srcIP
        \<and> ip_TTL h = DefaultTTL \<and> ip_Flags h = 0 \<and> ip_FragOffset h = 0
        \<and> ParseEcho (drop 20 pkt) = Ok r \<and> em_Type r = TypeEchoReply \<and> em_Code r = 0
        \<and> em_ID r = em_ID m \<and> em_Seq r = em_Seq m \<and> em_Data r = em_Data m)"

lemma NewEchoReply_simps [simp]:
  "em_Type (NewEchoReply m) = TypeEchoReply" "em_Code (NewEchoReply m) = 0"
  "em_ID (NewEchoReply m) = em_ID m" "em_Seq (NewEchoReply m) = em_Seq m"
  "em_Data (NewEchoReply m) = em_Data m"
  by (simp_all add: NewEchoReply_def)

lemma reply_packet_valid:
  assumes "length (em_Data m) \<le> 65507"
  shows "valid_reply srcIP dstIP m (reply_packet srcIP dstIP m g)"
proof -
  define r where "r = NewEchoReply m"
  define bs where "bs = echo_bytes (echo_checksum r) r"
  define b where "b = NewPacketBuilder dstIP srcIP ProtoICMP"
  define h where "h = built_header b (build_ctx b [] (ucast (g + 1))) (20 + length bs)"
  have l: "length bs \<le> 65515" using assms by (simp add: bs_def r_def)
  note hp = Build_Ok [OF l h_def]
  have p: "reply_packet srcIP dstIP m g = header_bytes h @ bs"
    by (simp add: reply_packet_def Let_def h_def bs_def b_def r_def)
  have f: "ip_Protocol h = ProtoICMP" "ip_Src h = ip4_field dstIP" "ip_Dst h = ip4_field srcIP"
    "ip_TTL h = DefaultTTL" "ip_Flags h = 0" "ip_FragOffset h = 0"
    by (simp_all add: h_def built_header_def build_header_def b_def NewPacketBuilder_def build_ctx_def)
  have n: "length (header_bytes h) = 20" using hp(3) by simp
  have e: "ParseEcho bs = Ok (r\<lparr>em_Checksum := echo_checksum r\<rparr>)"
    unfolding bs_def by (rule ParseEcho_bytes) (simp add: r_def)
  have c: "ICMPChecksum bs = 0" unfolding bs_def using assms by (intro echo_verifies) (simp add: r_def)
  have "ParseHeader (header_bytes h @ bs) = Ok h" using hp(2) by (rule ParseHeader_header_bytes)
  then show ?thesis
    unfolding valid_reply_def p using hp f n e c by (simp add: r_def)
qed

lemma Build_reply:
  assumes "length (em_Data m) \<le> 65507"
  shows "Build (NewPacketBuilder dstIP srcIP ProtoICMP) g (echo_bytes (echo_checksum (NewEchoReply m)) (NewEchoReply m))
    = (g + 1, Ok (reply_packet srcIP dstIP m g))"
proof -
  let ?b = "NewPacketBuilder dstIP srcIP ProtoICMP" and ?bs = "echo_bytes (echo_checksum (NewEchoReply m)) (NewEchoReply m)"
  have l: "length ?bs \<le> 65515" using assms by simp
  have "fst (Build ?b g ?bs) = g + 1" by (simp add: Build_def BuildWithOptions_def Next_def Let_def)
  moreover have "snd (Build ?b g ?bs) = Ok (reply_packet srcIP dstIP m g)"
    using Build_Ok(1) [OF l refl, of ?b g "[]"] by (simp add: Build_def reply_packet_def Let_def)
  ultimately show ?thesis by (metis prod.collapse)
qed

lemma HandleIPPayload_eq:
  assumes "length payload \<le> 65515"
  shows "HandleIPPayload ioWrite h srcIP dstIP payload (g, s) =
    (case ParseEcho payload of
       Panic \<Rightarrow> ((g, s), Panic)
     | Err e \<Rightarrow> ((g, s), if e = IcmpNotEcho then Ok () else Err (NotParsed e))
     | Ok m \<Rightarrow>
         if em_Type m = TypeEchoRequest then
           (let (r, s') = ioWrite (ih_io h) (reply_packet srcIP dstIP m g) s
            in ((g + 1, s'), map_outcome NotWritten (\<lambda>_. ()) r))
         else ((g, s), Ok ()))"
proof (cases "ParseEcho payload")
  case (Ok m)
  then have "length (em_Data m) \<le> 65507" using ParseEcho_OkD(2) assms by fastforce
  then show ?thesis
    by (simp add: HandleIPPayload_def Ok MarshalEcho_eq Build_reply Let_def split: prod.splits outcome.splits)
qed (simp_all add: HandleIPPayload_def)

text \<open>Over any sink of packets: one write at most, and only for a request.\<close>

definition is_request :: "bytes \<Rightarrow> echo_message \<Rightarrow> bool" where
  "is_request payload m \<longleftrightarrow> ParseEcho payload = Ok m \<and> em_Type m = TypeEchoRequest"

lemma no_request:
  assumes "length payload \<le> 65515" "\<nexists>m. is_request payload m"
  shows "HandleIPPayload ioWrite h srcIP dstIP payload (g, s) =
    ((g, s), if length payload < 8 then Err (NotParsed IcmpTooShort) else Ok ())"
proof -
  have "ParseEcho payload = Err IcmpTooShort \<longleftrightarrow> length payload < 8" "ParseEcho payload \<noteq> Panic"
    by (simp_all add: ParseEcho_def Let_def)
  then show ?thesis
    using assms by (cases "ParseEcho payload"; cases "length payload < 8")
      (auto simp: HandleIPPayload_eq is_request_def split: icmp_error.splits intro: icmp_error.exhaust)
qed

context packet_sink
begin

lemma handler_sends:
  assumes "length payload \<le> 65515" "is_request payload m"
  shows "\<exists>pkt. valid_reply srcIP dstIP m pkt
    \<and> (let ((g', s'), r) = HandleIPPayload (\<lambda>_. wr) h srcIP dstIP payload (g, s)
       in g' = g + 1 \<and> ((r = Ok () \<and> sent s' = sent s @ [pkt])
                        \<or> ((\<exists>e. r = Err (NotWritten e)) \<and> sent s' = sent s)))"
proof -
  let ?p = "reply_packet srcIP dstIP m g"
  have "length (em_Data m) \<le> 65507"
    using assms ParseEcho_OkD(2) [of payload m] by (simp add: is_request_def)
  then have v: "valid_reply srcIP dstIP m ?p" by (rule reply_packet_valid)
  obtain r s' where w: "wr ?p s = (r, s')" by fastforce
  have m: "ParseEcho payload = Ok m" "em_Type m = TypeEchoRequest" using assms(2) by (simp_all add: is_request_def)
  have e: "HandleIPPayload (\<lambda>_. wr) h srcIP dstIP payload (g, s) =
      ((g + 1, s'), map_outcome NotWritten (\<lambda>_. ()) r)"
    by (simp add: HandleIPPayload_eq [OF assms(1)] m w)
  have "(map_outcome NotWritten (\<lambda>_. ()) r = Ok () \<and> sent s' = sent s @ [?p])
      \<or> ((\<exists>e. map_outcome NotWritten (\<lambda>_. ()) r = Err (NotWritten e)) \<and> sent s' = sent s)"
    using wr_returns [of ?p s] sent_wr [of ?p s] by (cases r) (simp_all add: w)
  with v show ?thesis by (intro exI [of _ ?p]) (simp add: e)
qed

end

text \<open>The handler on a device.\<close>

lemma HandleIPPayload_sends:
  assumes "length payload \<le> 65515" "is_request payload m"
  shows "\<exists>pkt. valid_reply srcIP dstIP m pkt
    \<and> (let ((g', tr'), r) = HandleIPPayload (io_Write kern) (NewICMPHandler dev) srcIP dstIP payload (g, tr)
       in g' = g + 1
         \<and> ((r = Ok () \<and> sent_packets (io_fd dev) tr' = sent_packets (io_fd dev) tr @ [pkt])
            \<or> ((\<exists>e. r = Err (NotWritten e)) \<and> sent_packets (io_fd dev) tr' = sent_packets (io_fd dev) tr)))"
proof -
  have "HandleIPPayload (\<lambda>_. io_Write kern dev) (NewICMPHandler dev) srcIP dstIP payload (g, tr)
      = HandleIPPayload (io_Write kern) (NewICMPHandler dev) srcIP dstIP payload (g, tr)"
    unfolding HandleIPPayload_eq [OF assms(1)]
    by (cases "ParseEcho payload") (simp_all add: NewICMPHandler_def)
  then show ?thesis
    using io.handler_sends [OF assms, of srcIP dstIP kern dev "NewICMPHandler dev" g tr] by simp
qed

section \<open>Properties\<close>

text \<open>
  Property C17. The handler answers every echo request that fits into a packet, and nothing else:
  a request makes it write exactly one packet, which parses as an IPv4 packet from the request's
  destination to its source with a valid header checksum and a valid ICMP checksum, carrying an
  echo reply with the request's identifier, sequence number and data; the only error is that of
  the write, and then nothing was sent. For any other payload the device, the trace and the
  identification counter stay as they are.
\<close>

theorem HandleIPPayload_answers:
  assumes "length payload \<le> 65515"
  shows "(\<forall>m. is_request payload m \<longrightarrow>
      (\<exists>pkt. valid_reply srcIP dstIP m pkt
        \<and> (let ((g', tr'), r) = HandleIPPayload (io_Write kern) (NewICMPHandler dev) srcIP dstIP payload (g, tr)
           in g' = g + 1
             \<and> ((r = Ok () \<and> sent_packets (io_fd dev) tr' = sent_packets (io_fd dev) tr @ [pkt])
                \<or> ((\<exists>e. r = Err (NotWritten e)) \<and> sent_packets (io_fd dev) tr' = sent_packets (io_fd dev) tr)))))
    \<and> ((\<nexists>m. is_request payload m) \<longrightarrow>
         HandleIPPayload (io_Write kern) (NewICMPHandler dev) srcIP dstIP payload (g, tr) =
           ((g, tr), if length payload < 8 then Err (NotParsed IcmpTooShort) else Ok ()))"
  using HandleIPPayload_sends [OF assms, of _ srcIP dstIP kern dev g tr]
    no_request [OF assms, of "io_Write kern" "NewICMPHandler dev" srcIP dstIP g tr]
  by simp

definition example_request :: bytes where
  "example_request = [8, 0, 0, 0, 0, 1, 0, 2, 104, 105]"

theorem HandleIPPayload_answers_witness:
  "\<exists>pkt m. is_request example_request m \<and> valid_reply (IPv4 10 0 0 1) (IPv4 10 0 0 2) m pkt
    \<and> sent_packets 3 (snd (fst (HandleIPPayload (io_Write (example_kernel (\<lambda>_. 0)))
        (NewICMPHandler (TunDevice \<lparr>tun_fd = 3, tun_name = [], tun_mtu = 1500\<rparr>))
        (IPv4 10 0 0 1) (IPv4 10 0 0 2) example_request (0, [])))) = [pkt]"
proof -
  let ?d = "TunDevice \<lparr>tun_fd = 3, tun_name = [], tun_mtu = 1500\<rparr>"
  let ?out = "HandleIPPayload (io_Write (example_kernel (\<lambda>_. 0))) (NewICMPHandler ?d)
      (IPv4 10 0 0 1) (IPv4 10 0 0 2) example_request (0, [])"
  let ?m = "\<lparr>em_Type = 8, em_Code = 0, em_Checksum = 0, em_ID = 1, em_Seq = 2, em_Data = [104, 105]\<rparr>"
  have m: "is_request example_request ?m" by code_simp
  have l: "length example_request \<le> 65515" by (simp add: example_request_def)
  have ok: "snd ?out = Ok ()"
    unfolding HandleIPPayload_eq [OF l] using m
    by (simp add: is_request_def NewICMPHandler_def TunWrite_def sys_def example_kernel_def)
  from HandleIPPayload_answers [OF l, of "IPv4 10 0 0 1" "IPv4 10 0 0 2" "example_kernel (\<lambda>_. 0)" ?d 0 "[]"] m
  obtain pkt where v: "valid_reply (IPv4 10 0 0 1) (IPv4 10 0 0 2) ?m pkt"
    and "let ((g', tr'), r) = ?out in g' = 0 + 1
      \<and> ((r = Ok () \<and> sent_packets (io_fd ?d) tr' = sent_packets (io_fd ?d) [] @ [pkt])
         \<or> ((\<exists>e. r = Err (NotWritten e)) \<and> sent_packets (io_fd ?d) tr' = sent_packets (io_fd ?d) []))"
    by meson
  then have "sent_packets 3 (snd (fst ?out)) = [pkt]"
    using ok by (cases ?out) (simp add: sent_packets_def split: prod.splits)
  then show ?thesis using m v by blast
qed

text \<open>
  Echo messages survive the wire: a request or reply is written without error into
  bytes whose ICMP checksum verifies and which parse back to the message with its checksum field
  filled in; and writing a parsed message again changes at most its checksum.
\<close>

theorem ParseEcho_of_Marshal:
  assumes "em_Type m = TypeEchoRequest \<or> em_Type m = TypeEchoReply" "length (em_Data m) \<le> 65535"
  shows "\<exists>bs. MarshalEcho m = (Ok bs :: ('e, bytes) outcome) \<and> ICMPChecksum bs = 0
    \<and> ParseEcho bs = Ok (m\<lparr>em_Checksum := echo_checksum m\<rparr>)
    \<and> (\<forall>raw. ParseEcho raw = Ok m \<longrightarrow> bs = put_field 2 (echo_checksum m) raw)"
proof -
  have "echo_bytes (echo_checksum m) m = put_field 2 (echo_checksum m) raw" if "ParseEcho raw = Ok m" for raw
    using ParseEcho_OkD(3) [OF that] echo_bytes_field(2) [of "echo_checksum m" "em_Checksum m" m] by simp
  then show ?thesis
    using ParseEcho_bytes [OF assms(1)] echo_verifies [OF assms(2)] by (auto simp: MarshalEcho_eq)
qed

theorem ParseEcho_of_Marshal_witness:
  "\<exists>bs. MarshalEcho \<lparr>em_Type = 8, em_Code = 0, em_Checksum = 5, em_ID = 1, em_Seq = 2, em_Data = [1]\<rparr>
      = (Ok bs :: (unit, bytes) outcome) \<and> ICMPChecksum bs = 0"
  using ParseEcho_of_Marshal [of "\<lparr>em_Type = 8, em_Code = 0, em_Checksum = 5, em_ID = 1, em_Seq = 2, em_Data = [1]\<rparr>"]
  by (auto simp: TypeEchoRequest_def)

text \<open>
  The checksum of a received message is not looked at: the handler reacts to a message with any
  checksum bytes in the same way, so it also answers damaged requests.
\<close>

lemma HandleIPPayload_ignores_checksum:
  assumes "length payload \<le> 65515" "8 \<le> length payload"
  shows "HandleIPPayload ioWrite h srcIP dstIP (put_field 2 c payload) st
    = HandleIPPayload ioWrite h srcIP dstIP payload st"
proof -
  obtain a b c' d e f g h' r where "payload = a # b # c' # d # e # f # g # h' # r"
    using assms(2) by (auto simp: numeral_eq_Suc Suc_le_length_iff)
  then have p: "ParseEcho (put_field 2 c payload) = map_outcome id (\<lambda>m. m\<lparr>em_Checksum := c\<rparr>) (ParseEcho payload)"
    by (simp add: ParseEcho_def put_field_def put_be16_def Let_def get16_def)
  obtain k s where st: "st = (k, s)" by fastforce
  show ?thesis
    using assms unfolding st
    by (cases "ParseEcho payload")
      (simp_all add: HandleIPPayload_eq p reply_packet_def NewEchoReply_def echo_bytes_def)
qed

end
