(* ===== verification/Read_Loop.thy ===== *)
theory Read_Loop
  imports Tun_Device
begin

text \<open>
  \<^verbatim>\<open>internal/tun/loop.go\<close>: the goroutine that reads packets from a device and starts one
  goroutine per packet. The loop may run for ever, so it is a partial function; the k-th check
  of its context is answered by an oracle, since a cancellation may come at any time.
\<close>

section \<open>The code\<close>

record loop_stats =
  PacketsRead :: "64 word"
  BytesRead :: "64 word"
  Errors :: "64 word"

record loop_state =
  packetsRead :: "64 word"
  bytesRead :: "64 word"
  readErrors :: "64 word"
  spawned :: "bytes list"

text \<open>
  A new loop has zero counters; \<open>spawned\<close> collects the packets passed to the goroutines that run
  \<open>HandlePacket\<close>, in the order they are started.
\<close>

definition NewReadLoop :: loop_state where
  "NewReadLoop = \<lparr>packetsRead = 0, bytesRead = 0, readErrors = 0, spawned = []\<rparr>"

definition LoopStats :: "loop_state \<Rightarrow> loop_stats" where
  "LoopStats r = \<lparr>PacketsRead = packetsRead r, BytesRead = bytesRead r, Errors = readErrors r\<rparr>"

text \<open>\<open>errors.Is(err, syscall.EINTR)\<close> for the errors that \<open>Read\<close> returns.\<close>

definition is_EINTR :: "tun_error \<Rightarrow> bool" where
  "is_EINTR err = (case err of ReadFailed _ e \<Rightarrow> e = EINTR | _ \<Rightarrow> False)"

datatype stop_reason = Cancelled | CancelledInRead | FatalRead tun_error | LoopPanic

datatype loop_result = Continue loop_state | Stopped stop_reason loop_state

text \<open>
  The part of an iteration behind the call of \<open>Read\<close>; the flag is the second check of the
  context. A length beyond the buffer panics in \<open>buf[:n]\<close>, after it has been counted.
\<close>

definition after_read :: "(tun_error, nat \<times> bytes) outcome \<Rightarrow> bool \<Rightarrow> loop_state \<Rightarrow> loop_result" where
  "after_read res ctxDone r =
     (case res of
        Panic \<Rightarrow> Stopped LoopPanic r
      | Err err \<Rightarrow>
          if is_EINTR err then Continue r
          else if ctxDone then Stopped CancelledInRead r
          else Stopped (FatalRead err) (r\<lparr>readErrors := readErrors r + 1\<rparr>)
      | Ok (n, buf) \<Rightarrow>
          let r = r\<lparr>packetsRead := packetsRead r + 1\<rparr>;
              r = r\<lparr>bytesRead := bytesRead r + of_nat n\<rparr>
          in if n > length buf then Stopped LoopPanic r
          else Continue (r\<lparr>spawned := spawned r @ [take n buf]\<rparr>))"

partial_function (option) loop ::
  "kernel \<Rightarrow> packet_io \<Rightarrow> int \<Rightarrow> (nat \<Rightarrow> bool) \<Rightarrow> nat \<Rightarrow> loop_state \<Rightarrow> trace \<Rightarrow>
   (stop_reason \<times> loop_state \<times> trace) option" where
  "loop kern dev bufSize ctxDone k r tr =
     (if ctxDone k then Some (Cancelled, r, tr)
      else if bufSize < 0 then Some (LoopPanic, r, tr)
      else case io_Read kern dev (replicate (nat bufSize) 0) tr of
        (res, tr) \<Rightarrow>
          (case after_read res (ctxDone (k + 1)) r of
             Stopped reason r \<Rightarrow> Some (reason, r, tr)
           | Continue r \<Rightarrow> loop kern dev bufSize ctxDone (k + 1) r tr))"

text \<open>
  \<open>Stop\<close> cancels the context, if the loop was ever started, and waits for the goroutine or for
  the timeout, whichever comes first: the two arguments say whether \<open>Start\<close> has run and whether
  the goroutine ends in time. It returns the new state of the context with the error.
\<close>

datatype stop_error = StopTimeout

definition Stop :: "bool \<Rightarrow> bool \<Rightarrow> bool \<Rightarrow> bool \<times> stop_error option" where
  "Stop started finishes ctxDone =
     (let ctxDone = (if started then True else ctxDone)
      in if finishes then (ctxDone, None) else (ctxDone, Some StopTimeout))"

section \<open>What the kernel delivers\<close>

fun read_by :: "fd \<Rightarrow> syscall \<times> answer \<Rightarrow> bytes list" where
  "read_by fd (Sys_read f n, a) =
     (if f = fd \<and> a_errno a = 0 then [take (a_value a) (overlay (a_data a) (replicate n 0))] else [])"
| "read_by fd _ = []"

definition received :: "fd \<Rightarrow> trace \<Rightarrow> bytes list" where
  "received fd tr = concat (map (read_by fd) tr)"

text \<open>A read returns at most the length of the buffer (documented in \<^verbatim>\<open>read(2)\<close>).\<close>

definition reads_fit :: "kernel \<Rightarrow> bool" where
  "reads_fit kern \<longleftrightarrow> (\<forall>tr fd n. a_errno (kern tr (Sys_read fd n)) = 0 \<longrightarrow> a_value (kern tr (Sys_read fd n)) \<le> n)"

lemma TunRead_cases:
  "TunRead kern i (replicate n 0) tr =
     (let a = kern tr (Sys_read (tun_fd i) n)
      in (if a_errno a \<noteq> 0 then Err (ReadFailed (tun_name i) (a_errno a))
          else Ok (a_value a, overlay (a_data a) (replicate n 0)), tr @ [(Sys_read (tun_fd i) n, a)]))"
  by (simp add: TunRead_def sys_def Let_def)

text \<open>An iteration that goes on has read one packet, or none and was interrupted.\<close>

definition accounted :: "nat \<Rightarrow> loop_state \<Rightarrow> bytes list \<Rightarrow> loop_state \<Rightarrow> bool" where
  "accounted e r ps r' \<longleftrightarrow>
     spawned r' = spawned r @ ps \<and> packetsRead r' = packetsRead r + of_nat (length ps)
     \<and> bytesRead r' = bytesRead r + of_nat (length (concat ps)) \<and> readErrors r' = readErrors r + of_nat e"

lemma accounted_Nil: "accounted 0 r [] r"
  by (simp add: accounted_def)

lemma accounted_trans: "accounted 0 r ps r' \<Longrightarrow> accounted e r' qs r'' \<Longrightarrow> accounted e r (ps @ qs) r''"
  by (simp add: accounted_def)

text \<open>The runs of the loop: the calls made, and the accounts.\<close>

definition loop_ok ::
  "kernel \<Rightarrow> packet_io \<Rightarrow> int \<Rightarrow> loop_state \<Rightarrow> trace \<Rightarrow> stop_reason \<times> loop_state \<times> trace \<Rightarrow> bool" where
  "loop_ok kern dev bufSize r tr res \<longleftrightarrow>
     (case res of (reason, r', tr') \<Rightarrow>
       (\<exists>new. tr' = tr @ new \<and> (\<forall>c \<in> fst ` set new. c = Sys_read (io_fd dev) (nat bufSize))
          \<and> accounted (case reason of FatalRead _ \<Rightarrow> 1 | _ \<Rightarrow> 0) r (received (io_fd dev) new) r'
          \<and> (\<forall>(c, a) \<in> set (butlast new). a_errno a \<in> {0, EINTR})
          \<and> (0 \<le> bufSize \<longrightarrow> reason \<noteq> LoopPanic)))"

lemma loop_ok_start: "reason \<in> {Cancelled, LoopPanic} \<Longrightarrow> reason = LoopPanic \<longrightarrow> bufSize < 0 \<Longrightarrow>
    loop_ok kern dev bufSize r tr (reason, r, tr)"
  by (auto simp: loop_ok_def accounted_def received_def)

lemma io_Read_Continue:
  assumes "reads_fit kern" "io_Read kern dev (replicate n 0) tr = (res, tr1)" "after_read res c r = Continue r1"
  shows "\<exists>a. tr1 = tr @ [(Sys_read (io_fd dev) n, a)] \<and> a_errno a \<in> {0, EINTR}
    \<and> accounted 0 r (received (io_fd dev) [(Sys_read (io_fd dev) n, a)]) r1"
proof (cases dev)
  case (TunDevice i)
  define a where "a = kern tr (Sys_read (tun_fd i) n)"
  have f: "a_errno a = 0 \<Longrightarrow> a_value a \<le> n" using assms(1) by (simp add: reads_fit_def a_def)
  show ?thesis
    using assms(2,3) f
    by (intro exI [of _ a]) (auto simp: TunDevice TunRead_cases Let_def a_def [symmetric] after_read_def is_EINTR_def
        accounted_def received_def split: if_splits)
qed (use assms in \<open>auto simp: RawRead_def after_read_def is_EINTR_def split: if_splits\<close>)

lemma io_Read_Stopped:
  assumes "reads_fit kern" "io_Read kern dev (replicate n 0) tr = (res, tr1)" "after_read res c r = Stopped reason r1"
  shows "\<exists>new. tr1 = tr @ new \<and> length new \<le> 1 \<and> (\<forall>x \<in> fst ` set new. x = Sys_read (io_fd dev) n)
    \<and> accounted (case reason of FatalRead _ \<Rightarrow> 1 | _ \<Rightarrow> 0) r (received (io_fd dev) new) r1
    \<and> reason \<noteq> LoopPanic \<and> reason \<noteq> Cancelled \<and> (reason = CancelledInRead \<longrightarrow> c)"
proof (cases dev)
  case (TunDevice i)
  define a where "a = kern tr (Sys_read (tun_fd i) n)"
  have f: "a_errno a = 0 \<Longrightarrow> a_value a \<le> n" using assms(1) by (simp add: reads_fit_def a_def)
  show ?thesis
    using assms(2,3) f
    by (intro exI [of _ "[(Sys_read (tun_fd i) n, a)]"])
      (auto simp: TunDevice TunRead_cases Let_def a_def [symmetric] after_read_def is_EINTR_def
        accounted_def received_def split: if_splits)
qed (use assms in \<open>auto simp: RawRead_def after_read_def is_EINTR_def accounted_def received_def split: if_splits\<close>)

lemma received_append: "received fd (xs @ ys) = received fd xs @ received fd ys"
  by (simp add: received_def)

lemma loop_ok_step:
  assumes "tr1 = tr @ [(Sys_read (io_fd dev) (nat bufSize), a)]" "a_errno a \<in> {0, EINTR}"
    and "accounted 0 r (received (io_fd dev) [(Sys_read (io_fd dev) (nat bufSize), a)]) r1"
    and "loop_ok kern dev bufSize r1 tr1 res"
  shows "loop_ok kern dev bufSize r tr res"
proof -
  let ?e = "(Sys_read (io_fd dev) (nat bufSize), a)"
  obtain reason r' new where res: "res = (reason, r', tr1 @ new)"
    and new: "\<forall>c \<in> fst ` set new. c = Sys_read (io_fd dev) (nat bufSize)"
      "accounted (case reason of FatalRead _ \<Rightarrow> 1 | _ \<Rightarrow> 0) r1 (received (io_fd dev) new) r'"
      "\<forall>(c, a) \<in> set (butlast new). a_errno a \<in> {0, EINTR}" "0 \<le> bufSize \<longrightarrow> reason \<noteq> LoopPanic"
    using assms(4) by (cases res) (auto simp: loop_ok_def)
  have "set (butlast (?e # new)) \<subseteq> insert ?e (set (butlast new))" by auto
  then have "\<forall>(c, b) \<in> set (butlast (?e # new)). a_errno b \<in> {0, EINTR}" using new(3) assms(2) by blast
  moreover have "received (io_fd dev) (?e # new) = received (io_fd dev) [?e] @ received (io_fd dev) new"
    using received_append [of "io_fd dev" "[?e]" new] by simp
  ultimately show ?thesis
    using accounted_trans [OF assms(3) new(2)] new(1,4)
    unfolding loop_ok_def res assms(1) by (auto intro!: exI [of _ "?e # new"] simp del: butlast.simps)
qed

lemma loop_loop_ok:
  assumes "loop kern dev bufSize ctxDone k r tr = Some res" "reads_fit kern"
  shows "loop_ok kern dev bufSize r tr res"
proof -
  define P where "P = (\<lambda>kern dev bufSize (ctxDone :: nat \<Rightarrow> bool) (k :: nat) r tr res.
    reads_fit kern \<longrightarrow> loop_ok kern dev bufSize r tr res)"
  have "P kern dev bufSize ctxDone k r tr res"
  proof (rule loop.raw_induct [where P = P, OF _ assms(1)])
    fix rec kern dev bufSize ctxDone k r tr res
    assume IH: "\<And>kern dev bufSize ctxDone k r tr res.
        rec kern dev bufSize ctxDone k r tr = Some res \<Longrightarrow> P kern dev bufSize ctxDone k r tr res"
      and body: "(if ctxDone k then Some (Cancelled, r, tr)
        else if bufSize < 0 then Some (LoopPanic, r, tr)
        else case io_Read kern dev (replicate (nat bufSize) 0) tr of
          (res, tr) \<Rightarrow> (case after_read res (ctxDone (k + 1)) r of
               Stopped reason r \<Rightarrow> Some (reason, r, tr)
             | Continue r \<Rightarrow> rec kern dev bufSize ctxDone (k + 1) r tr)) = Some res"
    show "P kern dev bufSize ctxDone k r tr res"
      unfolding P_def
    proof
      assume fit: "reads_fit kern"
      obtain rd tr1 where rd: "io_Read kern dev (replicate (nat bufSize) 0) tr = (rd, tr1)" by fastforce
      consider "ctxDone k \<or> bufSize < 0" | r1 where "\<not> ctxDone k" "0 \<le> bufSize" "after_read rd (ctxDone (k + 1)) r = Continue r1"
        | reason r1 where "\<not> ctxDone k" "0 \<le> bufSize" "after_read rd (ctxDone (k + 1)) r = Stopped reason r1"
        by (cases "after_read rd (ctxDone (k + 1)) r") fastforce+
      then show "loop_ok kern dev bufSize r tr res"
      proof cases
        case 1
        then show ?thesis using body by (auto intro!: loop_ok_start split: if_splits)
      next
        case 2
        then have "rec kern dev bufSize ctxDone (k + 1) r1 tr1 = Some res" using body rd by simp
        then have "loop_ok kern dev bufSize r1 tr1 res" using IH fit by (simp add: P_def)
        with io_Read_Continue [OF fit rd 2(3)] show ?thesis by (blast intro: loop_ok_step)
      next
        case 3
        then have "res = (reason, r1, tr1)" using body rd by simp
        with io_Read_Stopped [OF fit rd 3(3)] show ?thesis
          by (auto simp: loop_ok_def length_Suc_conv le_Suc_eq)
      qed
    qed
  qed
  with assms(2) show ?thesis by (simp add: P_def)
qed

lemma loop_returns_in:
  "ctxDone (k + m) \<Longrightarrow> \<exists>reason r' tr'. loop kern dev bufSize ctxDone k r tr = Some (reason, r', tr')
     \<and> length tr' \<le> length tr + m"
proof (induction m arbitrary: k r tr)
  case 0
  then show ?case by (simp add: loop.simps [of _ _ _ _ k])
next
  case (Suc m)
  obtain rd tr1 where rd: "io_Read kern dev (replicate (nat bufSize) 0) tr = (rd, tr1)" by fastforce
  have l: "length tr1 \<le> length tr + 1"
    using rd by (cases dev) (auto simp: TunRead_def RawRead_def sys_def Let_def split: if_splits)
  show ?case
  proof (cases "ctxDone k \<or> bufSize < 0")
    case True
    then show ?thesis by (auto simp: loop.simps [of _ _ _ _ k])
  next
    case False
    show ?thesis
    proof (cases "after_read rd (ctxDone (k + 1)) r")
      case (Continue r1)
      have "ctxDone (k + 1 + m)" using Suc.prems by simp
      from Suc.IH [OF this, of r1 tr1] False Continue rd l show ?thesis
        by (subst loop.simps) fastforce
    next
      case (Stopped reason r1)
      with False rd l show ?thesis by (subst loop.simps) simp
    qed
  qed
qed

section \<open>Properties\<close>

text \<open>
  Property C28. The accounts of a finished loop are exact. On a kernel whose reads fit their
  buffer, the packets handed to the goroutines are exactly those the kernel delivered, in order
  and cut to their length; the counters are the number of packets, the sum of their lengths and
  1 for a fatal read; the loop made no other call than reads of one buffer each; an
  interrupted read neither stops the loop nor counts, any other failed read is the last one; and
  no slice bound is exceeded.
\<close>

theorem loop_accounts:
  assumes "loop kern dev bufSize ctxDone 0 NewReadLoop tr = Some (reason, r, tr')"
    and "reads_fit kern" "0 \<le> bufSize"
  shows "\<exists>new. tr' = tr @ new \<and> (\<forall>c \<in> fst ` set new. c = Sys_read (io_fd dev) (nat bufSize))
    \<and> spawned r = received (io_fd dev) new
    \<and> LoopStats r = \<lparr>PacketsRead = of_nat (length (received (io_fd dev) new)),
        BytesRead = of_nat (length (concat (received (io_fd dev) new))),
        Errors = (case reason of FatalRead _ \<Rightarrow> 1 | _ \<Rightarrow> 0)\<rparr>
    \<and> (\<forall>(c, a) \<in> set (butlast new). a_errno a = 0 \<or> a_errno a = EINTR)
    \<and> reason \<noteq> LoopPanic"
proof -
  have n: "of_nat (case reason of FatalRead _ \<Rightarrow> 1 | _ \<Rightarrow> 0) = ((case reason of FatalRead _ \<Rightarrow> 1 | _ \<Rightarrow> 0) :: 64 word)"
    by (cases reason) simp_all
  show ?thesis
    using loop_loop_ok [OF assms(1,2)] assms(3)
    by (force simp: loop_ok_def accounted_def LoopStats_def NewReadLoop_def n)
qed

text \<open>One packet, an interruption, and a device that disappears.\<close>

definition short_kernel :: kernel where
  "short_kernel tr c =
     (if length tr = 0 then
        \<lparr>a_errno = 0, a_value = (case c of Sys_read _ n \<Rightarrow> min 2 n | _ \<Rightarrow> 0), a_data = [7, 8]\<rparr>
      else if length tr = 1 then \<lparr>a_errno = EINTR, a_value = 0, a_data = []\<rparr>
      else \<lparr>a_errno = 5, a_value = 0, a_data = []\<rparr>)"

theorem loop_accounts_witness:
  "\<exists>r tr'. loop short_kernel (TunDevice \<lparr>tun_fd = 3, tun_name = [], tun_mtu = 1500\<rparr>) 100 (\<lambda>_. False) 0 NewReadLoop []
      = Some (FatalRead (ReadFailed [] 5), r, tr') \<and> spawned r = [[7, 8]]"
proof -
  let ?d = "TunDevice \<lparr>tun_fd = 3, tun_name = [], tun_mtu = 1500\<rparr>"
  have l: "loop short_kernel ?d 100 (\<lambda>_. False) 0 NewReadLoop [] = Some (FatalRead (ReadFailed [] 5),
      \<lparr>packetsRead = 1, bytesRead = 2, readErrors = 1, spawned = [[7, 8]]\<rparr>,
      [(Sys_read 3 100, \<lparr>a_errno = 0, a_value = 2, a_data = [7, 8]\<rparr>),
       (Sys_read 3 100, \<lparr>a_errno = EINTR, a_value = 0, a_data = []\<rparr>),
       (Sys_read 3 100, \<lparr>a_errno = 5, a_value = 0, a_data = []\<rparr>)])"
    by (simp add: loop.simps TunRead_cases after_read_def is_EINTR_def short_kernel_def NewReadLoop_def
        EINTR_def overlay_def Let_def)
  have "reads_fit short_kernel" by (simp add: reads_fit_def short_kernel_def)
  from loop_accounts [OF l this] show ?thesis using l by auto
qed


text \<open>
  Property C29. The loop stops: once a check finds the context cancelled, be it the n-th, the loop
  has returned after at most n reads, whatever the kernel answers; every check that comes before
  a read is therefore the only one that a cancellation has to reach.
\<close>

theorem loop_returns:
  assumes "ctxDone n"
  shows "\<exists>reason r' tr'. loop kern dev bufSize ctxDone 0 r tr = Some (reason, r', tr')
    \<and> length tr' \<le> length tr + n"
  using loop_returns_in [of ctxDone 0 n] assms by simp

theorem loop_returns_witness:
  "\<exists>reason r' tr'. loop (example_kernel (\<lambda>_. EINTR)) (TunDevice \<lparr>tun_fd = 3, tun_name = [], tun_mtu = 1500\<rparr>) 65535
     (\<lambda>k. 1000 \<le> k) 0 NewReadLoop [] = Some (reason, r', tr') \<and> length tr' \<le> 1000"
  using loop_returns [of "\<lambda>k. 1000 \<le> k" 1000 "example_kernel (\<lambda>_. EINTR)"
      "TunDevice \<lparr>tun_fd = 3, tun_name = [], tun_mtu = 1500\<rparr>" 65535 NewReadLoop "[]"] by simp

text \<open>
  A raw socket can be opened as a device but not read: a loop over it stops at its
  first read with one error and no packet, without a system call.
\<close>

theorem raw_loop_stops:
  assumes "0 \<le> bufSize" "\<not> ctxDone 0" "\<not> ctxDone 1"
  shows "loop kern (RawDevice s) bufSize ctxDone 0 NewReadLoop tr =
    Some (FatalRead ErrNotSupported, NewReadLoop\<lparr>readErrors := 1\<rparr>, tr)"
  using assms by (subst loop.simps) (simp add: RawRead_def after_read_def is_EINTR_def NewReadLoop_def)

theorem raw_loop_stops_witness:
  "loop (example_kernel (\<lambda>_. 0)) (RawDevice \<lparr>raw_fd = 3, raw_name = []\<rparr>) 65535 (\<lambda>k. 2 \<le> k) 0 NewReadLoop []
    = Some (FatalRead ErrNotSupported, NewReadLoop\<lparr>readErrors := 1\<rparr>, [])"
  by (rule raw_loop_stops) simp_all

end
