(* ===== verification/Packet_Path.thy ===== *)
theory Packet_Path
  imports Dispatcher Icmp_Echo Read_Loop
begin

text \<open>
  The way of a packet through the program: the read loop takes it from a device and starts a
  goroutine, which runs the dispatcher, which calls the handler of the protocol, which writes
  its answer to a device. The first part follows one packet; the second is a transition system
  of the loop, the goroutines it has started and a call of \<open>Stop\<close>.
\<close>

section \<open>One packet\<close>

lemma RawWrite_calls:
  assumes "20 \<le> length buf"
  shows "RawWrite kern s buf tr =
    (let a = kern tr (Sys_sendto (raw_fd s) buf (take 4 (drop 16 buf)))
     in (if a_errno a \<noteq> 0 then Err (SendtoFailed (a_errno a)) else Ok (length buf),
         tr @ [(Sys_sendto (raw_fd s) buf (take 4 (drop 16 buf)), a)]))"
  using assms by (simp add: RawWrite_def sys_def Let_def)

lemma ParseHeader_Dst: "ParseHeader pkt = Ok h \<Longrightarrow> ip_Dst h = take 4 (drop 16 pkt) \<and> 20 \<le> length pkt"
  by (auto simp: ParseHeader_def MinHeaderLen_def Let_def not_less split: if_splits)

text \<open>
  A raw socket sends a packet where its header says: for every packet that the
  header parser accepts there is one \<open>sendto\<close> of the unchanged packet to the destination address
  of its header, and a buffer without a full header is refused without a system call.
\<close>

theorem RawWrite_destination:
  "(\<forall>h. ParseHeader pkt = Ok h \<longrightarrow>
      (\<exists>a. io_Write kern (RawDevice s) pkt tr =
         (if a_errno a = 0 then Ok (length pkt) else Err (SendtoFailed (a_errno a)),
          tr @ [(Sys_sendto (raw_fd s) pkt (ip_Dst h), a)])))
   \<and> (length pkt < 20 \<longrightarrow> io_Write kern (RawDevice s) pkt tr = (Err TooShortToSend, tr))"
proof (intro conjI allI impI)
  fix h
  assume "ParseHeader pkt = Ok h"
  then have h: "ip_Dst h = take 4 (drop 16 pkt)" "20 \<le> length pkt" using ParseHeader_Dst by blast+
  show "\<exists>a. io_Write kern (RawDevice s) pkt tr =
         (if a_errno a = 0 then Ok (length pkt) else Err (SendtoFailed (a_errno a)),
          tr @ [(Sys_sendto (raw_fd s) pkt (ip_Dst h), a)])"
    by (intro exI [of _ "kern tr (Sys_sendto (raw_fd s) pkt (ip_Dst h))"])
      (simp add: RawWrite_calls [OF h(2)] h(1) Let_def)
qed (simp add: RawWrite_def)

theorem RawWrite_destination_witness:
  "\<exists>a. snd (io_Write (example_kernel (\<lambda>_. 0)) (RawDevice \<lparr>raw_fd = 3, raw_name = []\<rparr>) udp_packet [])
    = [(Sys_sendto 3 udp_packet [10, 0, 0, 2], a)]"
proof -
  let ?h = "example_header\<lparr>ip_IHL := 5, ip_TotalLen := 22, ip_Flags := 0, ip_FragOffset := 0,
      ip_Protocol := 17, ip_Options := []\<rparr>"
  have "ParseHeader udp_packet = Ok ?h" by code_simp
  then show ?thesis
    using RawWrite_destination [of udp_packet "example_kernel (\<lambda>_. 0)" "\<lparr>raw_fd = 3, raw_name = []\<rparr>" "[]"]
    by (fastforce simp: example_header_def)
qed

text \<open>A routed payload fits into a packet.\<close>

lemma route_payload_length:
  assumes "route raw = (Ok (p, s, t, payload) :: ('e dispatch_error, _) outcome)"
  shows "length payload \<le> 65515"
proof -
  have "256 * unat (raw ! 2) + unat (raw ! 3) \<le> 65535"
    using unat_byte_less [of "raw ! 2"] unat_byte_less [of "raw ! 3"] by linarith
  then show ?thesis using assms by (auto simp: route_def Let_def not_less split: if_splits)
qed

lemma map_outcome_Panic: "map_outcome f g r = Panic \<longleftrightarrow> r = Panic"
  and map_outcome_Err: "map_outcome f g r = Err e \<longleftrightarrow> (\<exists>x. r = Err x \<and> e = f x)"
  by (cases r; auto)+

section \<open>Handlers that return\<close>

text \<open>
  What the dispatcher needs of the handlers it calls: none of them panics on a payload that fits
  into a packet. Then no packet from the wire makes the dispatcher panic.
\<close>

locale returning_handlers =
  fixes handle :: "('h, 'w, 'e) handle_fun"
  assumes handle_returns: "length payload \<le> 65515 \<Longrightarrow> snd (handle h srcIP dstIP payload w) \<noteq> Panic"
begin

lemma Dispatch_returns: "snd (snd (Dispatch handle raw d w)) \<noteq> Panic"
proof (cases "route raw :: ('e dispatch_error, _) outcome")
  case (Ok q)
  obtain p s t payload where q: "q = (p, s, t, payload)" by (cases q)
  then have "length payload \<le> 65515" using Ok by (auto intro: route_payload_length)
  then show ?thesis
    using handle_returns by (auto simp: Dispatch_cases Let_def Ok q map_outcome_Panic split: option.splits)
qed (simp_all add: Dispatch_cases Let_def route_no_panic)

end

lemma HandleIPPayload_returns:
  assumes "length payload \<le> 65515"
  shows "snd (HandleIPPayload (io_Write kern) h srcIP dstIP payload w) \<noteq> Panic"
proof -
  obtain g tr where w: "w = (g, tr)" by fastforce
  have "io_Write kern dev buf s \<noteq> (Panic, s')" for dev buf s s'
    using io.wr_returns [of kern dev buf s] by auto
  moreover have "ParseEcho payload \<noteq> Panic" by (simp add: ParseEcho_def Let_def)
  ultimately show ?thesis
    by (cases "ParseEcho payload") (auto simp: w HandleIPPayload_eq [OF assms] Let_def map_outcome_Panic split: prod.splits)
qed

interpretation echo_handlers: returning_handlers "HandleIPPayload (io_Write kern)" for kern
  by unfold_locales (rule HandleIPPayload_returns)

text \<open>A dispatcher with the echo handler of a device.\<close>

definition echo_dispatcher :: "packet_io \<Rightarrow> packet_io icmp_handler dispatcher \<Rightarrow> packet_io icmp_handler dispatcher" where
  "echo_dispatcher dev d = RegisterHandler IcmpProtocol (NewICMPHandler dev) d"

lemma echo_dispatcher_handlers:
  "map_get (disp_handlers (echo_dispatcher dev d)) ProtoICMP = Some (NewICMPHandler dev)"
  by (simp add: echo_dispatcher_def RegisterHandler_def IcmpProtocol_def update_conv')

text \<open>A reply is complete, and no request.\<close>

lemma reply_ignored:
  assumes "valid_reply s t m pkt"
  shows "snd (Dispatch (HandleIPPayload (io_Write kern)) pkt (echo_dispatcher dev d) w) = (w, Ok ())"
proof -
  obtain h r where h: "ParseHeader pkt = Ok h" "HeaderLen h = 20" "unat (ip_TotalLen h) = length pkt"
    "ip_Protocol h = ProtoICMP" and r: "ParseEcho (drop 20 pkt) = Ok r" "em_Type r = TypeEchoReply"
    using assms unfolding valid_reply_def by blast
  obtain g tr where w: "w = (g, tr)" by fastforce
  have n: "5 \<le> unat (ip_IHL h)" using h(2) by (simp add: HeaderLen_def)
  have "HandleIPPayload (io_Write kern) (NewICMPHandler dev) a b (drop 20 pkt) w = (w, Ok ())" for a b
    using r by (simp add: HandleIPPayload_def w icmp_consts)
  then show ?thesis
    using Dispatch_to_handler [OF h(1) n, of "echo_dispatcher dev d" "NewICMPHandler dev" "HandleIPPayload (io_Write kern)" w]
      echo_dispatcher_handlers [of dev d] h by fastforce
qed

lemma complete_payload_length:
  "length (drop n (take (unat (t :: 16 word)) raw)) \<le> 65515" if "20 \<le> n"
proof -
  have "unat t < 65536" using unsigned_less [of t, where ?'a = nat] by simp
  with that show ?thesis by simp
qed

text \<open>A complete packet with a request, dispatched with the echo handler of a device.\<close>

lemma ping_dispatched:
  assumes "ParseHeader raw = Ok h" "5 \<le> unat (ip_IHL h)" "unat (ip_TotalLen h) \<le> length raw"
    and "ip_Protocol h = ProtoICMP"
    and "is_request (drop (HeaderLen h) (take (unat (ip_TotalLen h)) raw)) m"
  shows "\<exists>pkt. valid_reply (ip_Src h) (ip_Dst h) m pkt
    \<and> (let (_, (g', tr'), r) = Dispatch (HandleIPPayload (io_Write kern)) raw (echo_dispatcher dev d) (g, tr)
       in g' = g + 1
         \<and> ((r = Ok () \<and> sent_packets (io_fd dev) tr' = sent_packets (io_fd dev) tr @ [pkt])
            \<or> ((\<exists>e. r = Err (HandlerError (NotWritten e))) \<and> sent_packets (io_fd dev) tr' = sent_packets (io_fd dev) tr)))
    \<and> (\<forall>d w. snd (Dispatch (HandleIPPayload (io_Write kern)) pkt (echo_dispatcher dev d) w) = (w, Ok ()))"
proof -
  let ?p = "drop (HeaderLen h) (take (unat (ip_TotalLen h)) raw)"
  have n: "20 \<le> HeaderLen h" using assms(2) by (simp add: HeaderLen_def)
  note l = complete_payload_length [OF n, of "ip_TotalLen h" raw]
  obtain s t where st: "to4 s = Some (ip_Src h)" "to4 t = Some (ip_Dst h)"
    and D: "Dispatch (HandleIPPayload (io_Write kern)) raw (echo_dispatcher dev d) (g, tr) =
      (let d = echo_dispatcher dev d; (w, r) = HandleIPPayload (io_Write kern) (NewICMPHandler dev) s t ?p (g, tr)
       in (d\<lparr>packetsReceived := packetsReceived d + 1, packetsDispatched := packetsDispatched d + 1\<rparr>,
           w, map_outcome HandlerError id r))"
    using Dispatch_to_handler [OF assms(1-3), of "echo_dispatcher dev d" "NewICMPHandler dev"
        "HandleIPPayload (io_Write kern)" "(g, tr)"] echo_dispatcher_handlers [of dev d] assms(4)
    by (auto simp: Let_def split_beta)
  obtain pkt where pkt: "valid_reply s t m pkt"
    and H: "let ((g', tr'), r) = HandleIPPayload (io_Write kern) (NewICMPHandler dev) s t ?p (g, tr)
       in g' = g + 1
         \<and> ((r = Ok () \<and> sent_packets (io_fd dev) tr' = sent_packets (io_fd dev) tr @ [pkt])
            \<or> ((\<exists>e. r = Err (NotWritten e)) \<and> sent_packets (io_fd dev) tr' = sent_packets (io_fd dev) tr))"
    using HandleIPPayload_sends [OF l assms(5)] by blast
  have "valid_reply (ip_Src h) (ip_Dst h) m pkt"
    using pkt st ParseHeader_OkD(8,9) [OF assms(1)] by (simp add: valid_reply_def ip4_field_def)
  moreover have "snd (Dispatch (HandleIPPayload (io_Write kern)) pkt (echo_dispatcher dev d) w) = (w, Ok ())" for d w
    using pkt by (rule reply_ignored)
  ultimately show ?thesis
    using H unfolding D by (intro exI [of _ pkt]) (auto simp: Let_def split: prod.splits)
qed

text \<open>
  Property C1. The program answers a ping. A complete IPv4 packet from the wire that carries an
  ICMP echo request, dispatched on a stack with the echo handler, makes the device hand over
  exactly one packet, a valid echo reply from the address that was pinged to the one that sent
  the request; only a failing write can prevent it, and is then the error returned. Dispatching
  that reply in turn sends nothing: the stack does not answer its own answers.
\<close>

theorem stack_answers_ping:
  assumes "ParseHeader raw = Ok h" "5 \<le> unat (ip_IHL h)" "unat (ip_TotalLen h) \<le> length raw"
    and "ip_Protocol h = ProtoICMP"
    and "is_request (drop (HeaderLen h) (take (unat (ip_TotalLen h)) raw)) m"
  shows "\<exists>pkt. valid_reply (ip_Src h) (ip_Dst h) m pkt
    \<and> (let (_, (g', tr'), r) = Dispatch (HandleIPPayload (io_Write kern)) raw (echo_dispatcher dev d) (g, tr)
       in g' = g + 1
         \<and> ((r = Ok () \<and> sent_packets (io_fd dev) tr' = sent_packets (io_fd dev) tr @ [pkt])
            \<or> ((\<exists>e. r = Err (HandlerError (NotWritten e))) \<and> sent_packets (io_fd dev) tr' = sent_packets (io_fd dev) tr)))
    \<and> (\<forall>d w. snd (Dispatch (HandleIPPayload (io_Write kern)) pkt (echo_dispatcher dev d) w) = (w, Ok ()))"
  using assms by (rule ping_dispatched)

definition ping_packet :: bytes where
  "ping_packet = [0x45, 0, 0, 30, 0, 7, 0, 0, 64, 1, 0, 9, 10, 0, 0, 1, 10, 0, 0, 2,
     8, 0, 0, 0, 0, 1, 0, 2, 104, 105]"

theorem stack_answers_ping_witness:
  "\<exists>pkt m. valid_reply [10, 0, 0, 1] [10, 0, 0, 2] m pkt \<and> em_Data m = [104, 105]
    \<and> sent_packets 3 (snd (fst (snd (Dispatch (HandleIPPayload (io_Write (example_kernel (\<lambda>_. 0)))) ping_packet
        (echo_dispatcher (TunDevice \<lparr>tun_fd = 3, tun_name = [], tun_mtu = 1500\<rparr>) NewDispatcher) (0, []))))) = [pkt]"
proof -
  let ?h = "example_header\<lparr>ip_IHL := 5, ip_TotalLen := 30, ip_Flags := 0, ip_FragOffset := 0,
      ip_Protocol := 1, ip_Options := []\<rparr>"
  let ?d = "TunDevice \<lparr>tun_fd = 3, tun_name = [], tun_mtu = 1500\<rparr>"
  let ?m = "\<lparr>em_Type = 8, em_Code = 0, em_Checksum = 0, em_ID = 1, em_Seq = 2, em_Data = [104, 105]\<rparr>"
  have p: "ParseHeader ping_packet = Ok ?h" "5 \<le> unat (ip_IHL ?h)" "unat (ip_TotalLen ?h) \<le> length ping_packet"
    "ip_Protocol ?h = ProtoICMP" "is_request (drop (HeaderLen ?h) (take (unat (ip_TotalLen ?h)) ping_packet)) ?m"
    by code_simp+
  let ?D = "Dispatch (HandleIPPayload (io_Write (example_kernel (\<lambda>_. 0)))) ping_packet (echo_dispatcher ?d NewDispatcher) (0, [])"
  have q: "drop (HeaderLen ?h) (take (unat (ip_TotalLen ?h)) ping_packet) = example_request" by code_simp
  have l: "length example_request \<le> 65515" by (simp add: example_request_def)
  have "snd (HandleIPPayload (io_Write (example_kernel (\<lambda>_. 0))) (NewICMPHandler ?d) a b example_request (0, [])) = Ok ()" for a b
    unfolding HandleIPPayload_eq [OF l] using p(5) unfolding q
    by (simp add: is_request_def NewICMPHandler_def TunWrite_def sys_def example_kernel_def)
  then have ok: "snd (snd ?D) = Ok ()"
    using Dispatch_to_handler [OF p(1-3), of "echo_dispatcher ?d NewDispatcher" "NewICMPHandler ?d"
        "HandleIPPayload (io_Write (example_kernel (\<lambda>_. 0)))" "(0, [])", unfolded q]
      echo_dispatcher_handlers [of ?d NewDispatcher] p(4) by fastforce
  obtain dd g tr r where D: "?D = (dd, (g, tr), r)" by (metis surj_pair)
  from stack_answers_ping [OF p, of "example_kernel (\<lambda>_. 0)" ?d NewDispatcher 0 "[]"]
  obtain pkt where "valid_reply (ip_Src ?h) (ip_Dst ?h) ?m pkt" "sent_packets 3 tr = [pkt]"
    using ok unfolding D by (auto simp: sent_packets_def)
  then show ?thesis by (intro exI [of _ pkt] exI [of _ ?m]) (simp add: example_header_def D)
qed



section \<open>The loop, its goroutines and \<open>Stop\<close>\<close>

text \<open>
  The system: whether the context is cancelled, whether \<open>Start\<close> has run and the loop goroutine
  is alive, the loop's state, the packets of the goroutines still to run, the dispatcher with
  the world of its handlers, and the one call of \<open>Stop\<close>.
\<close>

datatype stop_call = NotCalled | Waiting | Returned "stop_error option"

record ('h, 'w) stack =
  st_done :: bool
  st_started :: bool
  st_running :: bool
  st_loop :: loop_state
  st_pending :: "bytes multiset"
  st_disp :: "'h dispatcher"
  st_world :: 'w
  st_stop :: stop_call

definition new_stack :: "('h \<Rightarrow> byte) \<Rightarrow> 'h list \<Rightarrow> 'w \<Rightarrow> ('h, 'w) stack" where
  "new_stack protocol handlers w =
     \<lparr>st_done = False, st_started = False, st_running = False, st_loop = NewReadLoop, st_pending = {#},
      st_disp = fold (RegisterHandler protocol) handlers NewDispatcher, st_world = w, st_stop = NotCalled\<rparr>"

text \<open>The packets that an iteration has started goroutines for.\<close>

definition started_packets :: "loop_state \<Rightarrow> loop_state \<Rightarrow> bytes multiset" where
  "started_packets r r' = mset (drop (length (spawned r)) (spawned r'))"

inductive stack_step :: "('h, 'w, 'e) handle_fun \<Rightarrow> ('h, 'w) stack \<Rightarrow> ('h, 'w) stack \<Rightarrow> bool" for handle where
  start: "\<not> st_started s \<Longrightarrow> st_stop s = NotCalled \<Longrightarrow>
    stack_step handle s (s\<lparr>st_started := True, st_running := True\<rparr>)"
| parent_cancels: "stack_step handle s (s\<lparr>st_done := True\<rparr>)"
| read_packet: "st_running s \<Longrightarrow> after_read res (st_done s) (st_loop s) = Continue r \<Longrightarrow>
    stack_step handle s (s\<lparr>st_loop := r, st_pending := st_pending s + started_packets (st_loop s) r\<rparr>)"
| loop_cancelled: "st_running s \<Longrightarrow> st_done s \<Longrightarrow> stack_step handle s (s\<lparr>st_running := False\<rparr>)"
| loop_fails: "st_running s \<Longrightarrow> after_read (Err err) (st_done s) (st_loop s) = Stopped reason r \<Longrightarrow>
    stack_step handle s (s\<lparr>st_running := False, st_loop := r\<rparr>)"
| run_handler: "st_pending s = add_mset pkt rest \<Longrightarrow>
    Dispatch handle pkt (st_disp s) (st_world s) = (d, w, r) \<Longrightarrow> r \<noteq> Panic \<Longrightarrow>
    stack_step handle s (s\<lparr>st_pending := rest, st_disp := d, st_world := w\<rparr>)"
| stop_cancels: "st_stop s = NotCalled \<Longrightarrow>
    stack_step handle s (s\<lparr>st_done := fst (Stop (st_started s) False (st_done s)), st_stop := Waiting\<rparr>)"
| stop_joins: "st_stop s = Waiting \<Longrightarrow> \<not> st_running s \<Longrightarrow>
    stack_step handle s (s\<lparr>st_stop := Returned (snd (Stop (st_started s) True (st_done s)))\<rparr>)"
| stop_times_out: "st_stop s = Waiting \<Longrightarrow>
    stack_step handle s (s\<lparr>st_stop := Returned (snd (Stop (st_started s) False (st_done s)))\<rparr>)"

inductive stack_reachable :: "('h, 'w, 'e) handle_fun \<Rightarrow> ('h, 'w) stack \<Rightarrow> bool" for handle where
  init: "stack_reachable handle (new_stack protocol handlers w)"
| step: "stack_reachable handle s \<Longrightarrow> stack_step handle s s' \<Longrightarrow> stack_reachable handle s'"

definition disp_balanced :: "'h dispatcher \<Rightarrow> bool" where
  "disp_balanced d \<longleftrightarrow> packetsReceived d = packetsInvalid d + packetsDropped d + packetsDispatched d"

lemma Dispatch_balanced:
  assumes "Dispatch handle pkt d w = (d', w', r)" "r \<noteq> Panic" "disp_balanced d"
  shows "packetsReceived d' = packetsReceived d + 1" "disp_balanced d'"
  using assms
  by (auto simp: Dispatch_cases Let_def disp_balanced_def route_no_panic split: outcome.splits option.splits prod.splits)

lemma RegisterHandlers_counters:
  "packetsReceived (fold (RegisterHandler protocol) hs d) = packetsReceived d"
  "packetsInvalid (fold (RegisterHandler protocol) hs d) = packetsInvalid d"
  "packetsDropped (fold (RegisterHandler protocol) hs d) = packetsDropped d"
  "packetsDispatched (fold (RegisterHandler protocol) hs d) = packetsDispatched d"
  by (induction hs arbitrary: d) (simp_all add: RegisterHandler_def)

lemma after_read_started:
  assumes "after_read res c r = Continue r'"
  shows "packetsRead r' = packetsRead r + of_nat (size (started_packets r r'))"
  using assms by (auto simp: after_read_def started_packets_def Let_def split: outcome.splits if_splits)

lemma after_read_Err_stopped:
  "after_read (Err err) c r = Stopped reason r' \<Longrightarrow> packetsRead r' = packetsRead r"
  by (auto simp: after_read_def split: if_splits)

definition stack_inv :: "('h, 'w) stack \<Rightarrow> bool" where
  "stack_inv s \<longleftrightarrow>
     packetsRead (st_loop s) = packetsReceived (st_disp s) + of_nat (size (st_pending s))
     \<and> disp_balanced (st_disp s)
     \<and> (st_stop s = Returned None \<longrightarrow> \<not> st_running s)
     \<and> (st_stop s \<noteq> NotCalled \<longrightarrow> st_started s \<longrightarrow> st_done s)"

lemma stack_step_inv:
  assumes "stack_step handle s s'" "stack_inv s"
  shows "stack_inv s'"
  using assms
proof cases
  case (read_packet res r)
  then show ?thesis using assms(2) after_read_started [OF read_packet(3)]
    by (auto simp: stack_inv_def)
next
  case (run_handler pkt rest d w r)
  then show ?thesis
    using assms(2) Dispatch_balanced [OF run_handler(3,4)] by (simp add: stack_inv_def)
next
  case (loop_fails err reason r)
  then show ?thesis using assms(2) after_read_Err_stopped [OF loop_fails(3)] by (auto simp: stack_inv_def)
qed (use assms(2) in \<open>auto simp: stack_inv_def Stop_def Let_def\<close>)

lemma stack_reachable_inv: "stack_reachable handle s \<Longrightarrow> stack_inv s"
proof (induction rule: stack_reachable.induct)
  case (init protocol handlers w)
  show ?case
    by (simp add: stack_inv_def new_stack_def RegisterHandlers_counters NewReadLoop_def disp_balanced_def
        NewDispatcher_def)
next
  case (step s s')
  then show ?case by (blast intro: stack_step_inv)
qed


text \<open>A run that reads one packet and is stopped before its goroutine has run.\<close>

definition example_handle :: "(unit, unit, unit) handle_fun" where
  "example_handle h s t p w = (w, Ok ())"

definition stopped_stack :: "(unit, unit) stack" where
  "stopped_stack = (new_stack (\<lambda>_. 17) [] ())
     \<lparr>st_done := True, st_started := True,
      st_loop := NewReadLoop\<lparr>packetsRead := 1, bytesRead := 2, spawned := [[7, 8]]\<rparr>,
      st_pending := {#[7, 8]#}, st_stop := Returned None\<rparr>"

lemma stopped_stack_reachable: "stack_reachable example_handle stopped_stack"
proof -
  let ?s0 = "new_stack (\<lambda>_. 17) [] () :: (unit, unit) stack"
  let ?s1 = "?s0\<lparr>st_started := True, st_running := True\<rparr>"
  let ?r = "NewReadLoop\<lparr>packetsRead := 1, bytesRead := 2, spawned := [[7, 8]]\<rparr>"
  let ?s2 = "?s1\<lparr>st_loop := ?r, st_pending := {#[7, 8]#}\<rparr>"
  let ?s3 = "?s2\<lparr>st_done := True, st_stop := Waiting\<rparr>"
  let ?s4 = "?s3\<lparr>st_running := False\<rparr>"
  have 1: "stack_step example_handle ?s0 ?s1" by (rule stack_step.start) (simp_all add: new_stack_def)
  have "after_read (Ok (2, [7, 8, 0])) False NewReadLoop = Continue ?r" by code_simp
  then have 2: "stack_step example_handle ?s1 ?s2"
    using stack_step.read_packet [of ?s1 "Ok (2, [7, 8, 0])" ?r example_handle]
    by (simp add: new_stack_def started_packets_def NewReadLoop_def)
  have 3: "stack_step example_handle ?s2 ?s3"
    using stack_step.stop_cancels [of ?s2 example_handle] by (simp add: new_stack_def Stop_def)
  have 4: "stack_step example_handle ?s3 ?s4"
    using stack_step.loop_cancelled [of ?s3 example_handle] by (simp add: new_stack_def)
  have 5: "stack_step example_handle ?s4 stopped_stack"
    using stack_step.stop_joins [of ?s4 example_handle] by (simp add: new_stack_def Stop_def stopped_stack_def)
  show ?thesis using stack_reachable.init 1 2 3 4 5 by (meson stack_reachable.step)
qed




end
