(* ===== verification/Concurrent_Echo.thy ===== *)
theory Concurrent_Echo
  imports Packet_Path
begin

text \<open>
  The goroutines of the read loop, one per packet, each running \<open>HandlePacket\<close> of the dispatcher
  with the echo handler, interleaved at every access to what they share: the counters and the
  map of handlers (\<^verbatim>\<open>internal/ip/dispatcher.go\<close>), the identification counter behind \<open>Build\<close>
  (\<^verbatim>\<open>internal/ip/builder.go\<close>) and the device (\<^verbatim>\<open>internal/icmp/handler.go\<close>). Whatever the
  interleaving, what is sent are replies to requests that arrived, one for each.
\<close>

section \<open>Goroutines\<close>

text \<open>
  A goroutine, with the packet it was started for: before \<open>Dispatch\<close>, behind the first counter,
  behind the lookup of the handler, in the handler before and after \<open>Build\<close>.
\<close>

datatype 'io task =
    Arriving bytes
  | Parsing bytes
  | Counting bytes "'io icmp_handler option" bytes bytes bytes
  | Handling bytes "'io icmp_handler" bytes bytes bytes
  | Sending bytes "'io icmp_handler" bytes

fun task_packet :: "'io task \<Rightarrow> bytes" where
  "task_packet (Arriving raw) = raw"
| "task_packet (Parsing raw) = raw"
| "task_packet (Counting raw found src dst payload) = raw"
| "task_packet (Handling raw h src dst payload) = raw"
| "task_packet (Sending raw h packetBytes) = raw"

type_synonym packet_result = "(tun_error handle_error dispatch_error, unit) outcome"

record echo_shared =
  es_disp :: "packet_io icmp_handler dispatcher"
  es_idGen :: "32 word"
  es_trace :: trace

text \<open>
  One access of a goroutine: it goes on at its next point or is over with the result of
  \<open>HandlePacket\<close>, which the read loop only logs.
\<close>

fun task_access ::
  "kernel \<Rightarrow> packet_io task \<Rightarrow> echo_shared \<Rightarrow> (packet_io task + packet_result) \<times> echo_shared" where
  "task_access kern (Arriving raw) s =
     (let d = es_disp s
      in (Inl (Parsing raw), s\<lparr>es_disp := d\<lparr>packetsReceived := packetsReceived d + 1\<rparr>\<rparr>))"
| "task_access kern (Parsing raw) s =
     (let d = es_disp s
      in case route raw of
        Err e \<Rightarrow> (Inr (Err e), s\<lparr>es_disp := d\<lparr>packetsInvalid := packetsInvalid d + 1\<rparr>\<rparr>)
      | Panic \<Rightarrow> (Inr Panic, s)
      | Ok (protocol, srcIP, dstIP, payload) \<Rightarrow>
          (Inl (Counting raw (map_get (disp_handlers d) protocol) srcIP dstIP payload), s))"
| "task_access kern (Counting raw None srcIP dstIP payload) s =
     (let d = es_disp s
      in (Inr (Ok ()), s\<lparr>es_disp := d\<lparr>packetsDropped := packetsDropped d + 1\<rparr>\<rparr>))"
| "task_access kern (Counting raw (Some h) srcIP dstIP payload) s =
     (let d = es_disp s
      in (Inl (Handling raw h srcIP dstIP payload), s\<lparr>es_disp := d\<lparr>packetsDispatched := packetsDispatched d + 1\<rparr>\<rparr>))"
| "task_access kern (Handling raw h srcIP dstIP payload) s =
     (case ParseEcho payload of
        Panic \<Rightarrow> (Inr Panic, s)
      | Err err \<Rightarrow>
          (Inr (if err = IcmpNotEcho then Ok () else Err (HandlerError (NotParsed err))), s)
      | Ok msg \<Rightarrow>
          if em_Type msg = TypeEchoRequest then
            (case MarshalEcho (NewEchoReply msg) of
               Panic \<Rightarrow> (Inr Panic, s)
             | Err err \<Rightarrow> (Inr (Err (HandlerError err)), s)
             | Ok replyBytes \<Rightarrow>
                 let (idGen, packet) = Build (NewPacketBuilder dstIP srcIP ProtoICMP) (es_idGen s) replyBytes;
                     s = s\<lparr>es_idGen := idGen\<rparr>
                 in case packet of
                   Panic \<Rightarrow> (Inr Panic, s)
                 | Err err \<Rightarrow> (Inr (Err (HandlerError (NotBuilt err))), s)
                 | Ok packetBytes \<Rightarrow> (Inl (Sending raw h packetBytes), s))
          else (Inr (Ok ()), s))"
| "task_access kern (Sending raw h packetBytes) s =
     (let (res, tr) = io_Write kern (ih_io h) packetBytes (es_trace s)
      in (Inr (map_outcome (\<lambda>err. HandlerError (NotWritten err)) (\<lambda>n. ()) res), s\<lparr>es_trace := tr\<rparr>))"

text \<open>
  The system: what is shared, the goroutines, the packets they were started for in the order of
  the read loop, and the results of those that are over.
\<close>

record echo_system =
  sy_shared :: echo_shared
  sy_tasks :: "packet_io task multiset"
  sy_spawned :: "bytes list"
  sy_results :: "(bytes \<times> packet_result) list"

inductive echo_step :: "kernel \<Rightarrow> echo_system \<Rightarrow> echo_system \<Rightarrow> bool" for kern where
  spawn: "echo_step kern s (s\<lparr>sy_tasks := add_mset (Arriving raw) (sy_tasks s), sy_spawned := sy_spawned s @ [raw]\<rparr>)"
| access: "sy_tasks s = add_mset t ts \<Longrightarrow> task_access kern t (sy_shared s) = (Inl t', sh) \<Longrightarrow>
    echo_step kern s (s\<lparr>sy_shared := sh, sy_tasks := add_mset t' ts\<rparr>)"
| finish: "sy_tasks s = add_mset t ts \<Longrightarrow> task_access kern t (sy_shared s) = (Inr r, sh) \<Longrightarrow> r \<noteq> Panic \<Longrightarrow>
    echo_step kern s (s\<lparr>sy_shared := sh, sy_tasks := ts, sy_results := sy_results s @ [(task_packet t, r)]\<rparr>)"

text \<open>The program starts with its counters at zero and, here, the echo handler of a device.\<close>

definition start_shared :: "packet_io \<Rightarrow> echo_shared" where
  "start_shared dev = \<lparr>es_disp = echo_dispatcher dev NewDispatcher, es_idGen = 0, es_trace = []\<rparr>"

inductive echo_reachable :: "kernel \<Rightarrow> packet_io \<Rightarrow> echo_system \<Rightarrow> bool" for kern dev where
  start: "echo_reachable kern dev \<lparr>sy_shared = start_shared dev, sy_tasks = {#}, sy_spawned = [], sy_results = []\<rparr>"
| step: "echo_reachable kern dev s \<Longrightarrow> echo_step kern s s' \<Longrightarrow> echo_reachable kern dev s'"

section \<open>One goroutine alone\<close>

text \<open>A goroutine that is not interrupted does what the sequential functions do.\<close>

lemma access_step:
  "task_access kern t sh = (Inl t', sh') \<Longrightarrow>
   echo_step kern \<lparr>sy_shared = sh, sy_tasks = add_mset t ts, sy_spawned = sp, sy_results = rs\<rparr>
     \<lparr>sy_shared = sh', sy_tasks = add_mset t' ts, sy_spawned = sp, sy_results = rs\<rparr>"
  using echo_step.access [of "\<lparr>sy_shared = sh, sy_tasks = add_mset t ts, sy_spawned = sp, sy_results = rs\<rparr>" t ts] by simp

lemma finish_step:
  "task_access kern t sh = (Inr r, sh') \<Longrightarrow> r \<noteq> Panic \<Longrightarrow> raw = task_packet t \<Longrightarrow>
   echo_step kern \<lparr>sy_shared = sh, sy_tasks = add_mset t ts, sy_spawned = sp, sy_results = rs\<rparr>
     \<lparr>sy_shared = sh', sy_tasks = ts, sy_spawned = sp, sy_results = rs @ [(raw, r)]\<rparr>"
  using echo_step.finish [of "\<lparr>sy_shared = sh, sy_tasks = add_mset t ts, sy_spawned = sp, sy_results = rs\<rparr>" t ts] by simp

lemma handler_steps:
  assumes "HandleIPPayload (io_Write kern) h src dst payload (g, tr) = ((g', tr'), r)" "r \<noteq> Panic"
  shows "(echo_step kern)\<^sup>*\<^sup>*
     \<lparr>sy_shared = \<lparr>es_disp = d, es_idGen = g, es_trace = tr\<rparr>, sy_tasks = add_mset (Handling raw h src dst payload) ts,
      sy_spawned = sp, sy_results = rs\<rparr>
     \<lparr>sy_shared = \<lparr>es_disp = d, es_idGen = g', es_trace = tr'\<rparr>, sy_tasks = ts, sy_spawned = sp,
      sy_results = rs @ [(raw, map_outcome HandlerError id r)]\<rparr>"
proof -
  let ?sh = "\<lparr>es_disp = d, es_idGen = g, es_trace = tr\<rparr>" and ?t = "Handling raw h src dst payload"
  show ?thesis
  proof (cases "ParseEcho payload")
    case (Ok m)
    show ?thesis
    proof (cases "em_Type m = TypeEchoRequest")
      case True
      let ?bs = "echo_bytes (echo_checksum (NewEchoReply m)) (NewEchoReply m)"
      obtain g1 p where b: "Build (NewPacketBuilder dst src ProtoICMP) g ?bs = (g1, p)" by fastforce
      show ?thesis
      proof (cases p)
        case (Ok pkt)
        obtain res tr1 where w: "io_Write kern (ih_io h) pkt tr = (res, tr1)" by fastforce
        have e: "g' = g1" "tr' = tr1" "r = map_outcome NotWritten (\<lambda>_. ()) res"
          using assms \<open>ParseEcho payload = Ok m\<close> True Ok b w
          by (auto simp: HandleIPPayload_def MarshalEcho_eq Let_def split: outcome.splits)
        have n: "map_outcome (\<lambda>err. HandlerError (NotWritten err)) (\<lambda>n. ()) res = map_outcome HandlerError id r"
          unfolding e(3) by (cases res) simp_all
        then have "map_outcome (\<lambda>err. HandlerError (NotWritten err)) (\<lambda>n. ()) res \<noteq> Panic"
          using assms(2) by (simp add: map_outcome_Panic)
        then show ?thesis
          using access_step [of kern ?t ?sh "Sending raw h pkt" "?sh\<lparr>es_idGen := g1\<rparr>" ts sp rs]
            finish_step [of kern "Sending raw h pkt" "?sh\<lparr>es_idGen := g1\<rparr>"
              "map_outcome (\<lambda>err. HandlerError (NotWritten err)) (\<lambda>n. ()) res" _ raw ts sp rs]
            \<open>ParseEcho payload = Ok m\<close> True Ok b w e n
          by (simp add: MarshalEcho_eq Let_def)
      qed (use assms \<open>ParseEcho payload = Ok m\<close> True b finish_step [of kern ?t ?sh _ _ raw ts sp rs] in
          \<open>auto simp: HandleIPPayload_def MarshalEcho_eq Let_def intro!: r_into_rtranclp\<close>)
    qed (use assms Ok finish_step [of kern ?t ?sh _ _ raw ts sp rs] in
        \<open>auto simp: HandleIPPayload_def intro!: r_into_rtranclp\<close>)
  qed (use assms finish_step [of kern ?t ?sh _ _ raw ts sp rs] in
      \<open>auto simp: HandleIPPayload_def intro!: r_into_rtranclp split: if_splits\<close>)
qed

lemma HandlePacket_steps:
  assumes "HandlePacket (HandleIPPayload (io_Write kern)) raw d (g, tr) = (d', (g', tr'), r)" "r \<noteq> Panic"
  shows "(echo_step kern)\<^sup>*\<^sup>*
     \<lparr>sy_shared = \<lparr>es_disp = d, es_idGen = g, es_trace = tr\<rparr>, sy_tasks = add_mset (Arriving raw) ts,
      sy_spawned = sp, sy_results = rs\<rparr>
     \<lparr>sy_shared = \<lparr>es_disp = d', es_idGen = g', es_trace = tr'\<rparr>, sy_tasks = ts, sy_spawned = sp,
      sy_results = rs @ [(raw, r)]\<rparr>"
proof -
  let ?sys = "\<lambda>d t. \<lparr>sy_shared = \<lparr>es_disp = d, es_idGen = g, es_trace = tr\<rparr>, sy_tasks = add_mset t ts,
      sy_spawned = sp, sy_results = rs\<rparr>"
  let ?d = "d\<lparr>packetsReceived := packetsReceived d + 1\<rparr>"
  have D: "Dispatch (HandleIPPayload (io_Write kern)) raw d (g, tr) = (d', (g', tr'), r)"
    using assms(1) by (simp add: HandlePacket_def)
  have 1: "echo_step kern (?sys d (Arriving raw)) (?sys ?d (Parsing raw))"
    by (rule access_step) simp
  show ?thesis
  proof (cases "route raw :: (tun_error handle_error dispatch_error, _) outcome")
    case (Ok q)
    obtain p s t payload where q: "q = (p, s, t, payload)" by (cases q)
    let ?found = "map_get (disp_handlers d) p"
    have 2: "echo_step kern (?sys ?d (Parsing raw)) (?sys ?d (Counting raw ?found s t payload))"
      by (rule access_step) (simp add: Ok q Let_def)
    show ?thesis
    proof (cases ?found)
      case None
      have "echo_step kern (?sys ?d (Counting raw None s t payload))
          \<lparr>sy_shared = \<lparr>es_disp = d', es_idGen = g', es_trace = tr'\<rparr>, sy_tasks = ts, sy_spawned = sp,
           sy_results = rs @ [(raw, r)]\<rparr>"
        using D assms(2) by (intro finish_step) (auto simp: Dispatch_cases Ok q None Let_def)
      then show ?thesis using 1 2 None by (simp add: converse_rtranclp_into_rtranclp r_into_rtranclp)
    next
      case (Some h)
      let ?e = "?d\<lparr>packetsDispatched := packetsDispatched ?d + 1\<rparr>"
      obtain g1 tr1 r1 where H: "HandleIPPayload (io_Write kern) h s t payload (g, tr) = ((g1, tr1), r1)"
        by (metis surj_pair)
      then have e: "d' = ?e" "g' = g1" "tr' = tr1" "r = map_outcome HandlerError id r1"
        using D by (auto simp: Dispatch_cases Ok q Some Let_def)
      have 3: "echo_step kern (?sys ?d (Counting raw ?found s t payload)) (?sys ?e (Handling raw h s t payload))"
        by (rule access_step) (simp add: Some Let_def)
      show ?thesis
        using handler_steps [OF H, of ?e raw ts sp rs] 1 2 3 assms(2) e
        by (auto simp: map_outcome_Panic intro: converse_rtranclp_into_rtranclp)
    qed
  next
    case (Err e)
    have "echo_step kern (?sys ?d (Parsing raw))
        \<lparr>sy_shared = \<lparr>es_disp = d', es_idGen = g', es_trace = tr'\<rparr>, sy_tasks = ts, sy_spawned = sp,
         sy_results = rs @ [(raw, r)]\<rparr>"
      using D assms(2) by (intro finish_step) (auto simp: Dispatch_cases Err Let_def)
    then show ?thesis using 1 by (simp add: converse_rtranclp_into_rtranclp r_into_rtranclp)
  qed (simp add: route_no_panic)
qed

section \<open>Requests and replies\<close>

text \<open>
  A packet that has to be answered, and a packet that answers it, both said of the bytes through
  the parsers: a complete IPv4 packet with an ICMP echo request, and a valid reply to it.
\<close>

definition request_in :: "bytes \<Rightarrow> ip_header \<Rightarrow> echo_message \<Rightarrow> bool" where
  "request_in raw h m \<longleftrightarrow>
     ParseHeader raw = Ok h \<and> 5 \<le> unat (ip_IHL h) \<and> unat (ip_TotalLen h) \<le> length raw
     \<and> ip_Protocol h = ProtoICMP \<and> is_request (drop (HeaderLen h) (take (unat (ip_TotalLen h)) raw)) m"

definition is_ping :: "bytes \<Rightarrow> bool" where
  "is_ping raw \<longleftrightarrow> (\<exists>h m. request_in raw h m)"

definition answers :: "bytes \<Rightarrow> bytes \<Rightarrow> bool" where
  "answers raw pkt \<longleftrightarrow> (\<exists>h m. request_in raw h m \<and> valid_reply (ip_Src h) (ip_Dst h) m pkt)"

lemma route_ParseHeader:
  assumes "route raw = (Ok (p, s, t, payload) :: ('e dispatch_error, _) outcome)"
  obtains h where "ParseHeader raw = Ok h" "5 \<le> unat (ip_IHL h)" "unat (ip_TotalLen h) \<le> length raw"
    "p = ip_Protocol h" "to4 s = Some (ip_Src h)" "to4 t = Some (ip_Dst h)"
    "payload = drop (HeaderLen h) (take (unat (ip_TotalLen h)) raw)"
proof -
  obtain h where h: "ParseHeader raw = Ok h" "5 \<le> unat (ip_IHL h)" "unat (ip_TotalLen h) \<le> length raw"
    using route_accepts [of raw, where ?'e = 'e] assms by auto
  moreover have "payload = drop (HeaderLen h) (take (unat (ip_TotalLen h)) raw)"
    using assms by (simp add: route_of_ParseHeader [OF h])
  ultimately show ?thesis using route_Ok_payload [OF assms h(1)] that by blast
qed

text \<open>A routed ICMP payload is a request exactly when its packet is.\<close>

lemma routed_ping:
  assumes "route raw = (Ok (ProtoICMP, s, t, payload) :: ('e dispatch_error, _) outcome)"
  shows "is_ping raw \<longleftrightarrow> (\<exists>m. is_request payload m)"
    and "is_request payload m \<Longrightarrow> valid_reply s t m pkt \<Longrightarrow> answers raw pkt"
proof -
  obtain h where h: "ParseHeader raw = Ok h" "5 \<le> unat (ip_IHL h)" "unat (ip_TotalLen h) \<le> length raw"
    "ProtoICMP = ip_Protocol h" "to4 s = Some (ip_Src h)" "to4 t = Some (ip_Dst h)"
    "payload = drop (HeaderLen h) (take (unat (ip_TotalLen h)) raw)"
    using assms by (rule route_ParseHeader)
  have r: "request_in raw h m \<longleftrightarrow> is_request payload m" for m
    unfolding request_in_def using h by auto
  show "is_ping raw \<longleftrightarrow> (\<exists>m. is_request payload m)"
    using r h(1) unfolding is_ping_def request_in_def by auto
  show "answers raw pkt" if "is_request payload m" "valid_reply s t m pkt"
  proof -
    have "valid_reply (ip_Src h) (ip_Dst h) m pkt"
      using that(2) h(5,6) ParseHeader_OkD(8,9) [OF h(1)] by (simp add: valid_reply_def ip4_field_def)
    then show ?thesis using r that(1) unfolding answers_def by blast
  qed
qed

lemma unrouted_no_ping:
  "route raw = (Err e :: ('e dispatch_error, byte \<times> bytes \<times> bytes \<times> bytes) outcome) \<Longrightarrow> \<not> is_ping raw"
  "route raw = (Ok (p, s, t, payload) :: ('e dispatch_error, _) outcome) \<Longrightarrow> p \<noteq> ProtoICMP \<Longrightarrow> \<not> is_ping raw"
  by (auto simp: is_ping_def request_in_def route_of_ParseHeader)

section \<open>The invariant\<close>

lemma handling_access:
  assumes "length payload \<le> 65515"
  shows "task_access kern (Handling raw h s t payload) sh =
    (case ParseEcho payload of
       Panic \<Rightarrow> (Inr Panic, sh)
     | Err e \<Rightarrow> (Inr (if e = IcmpNotEcho then Ok () else Err (HandlerError (NotParsed e))), sh)
     | Ok m \<Rightarrow>
         if em_Type m = TypeEchoRequest then
           (Inl (Sending raw h (reply_packet s t m (es_idGen sh))), sh\<lparr>es_idGen := es_idGen sh + 1\<rparr>)
         else (Inr (Ok ()), sh))"
proof (cases "ParseEcho payload")
  case (Ok m)
  then have "length (em_Data m) \<le> 65507" using ParseEcho_OkD(2) assms by fastforce
  then show ?thesis by (simp add: Ok MarshalEcho_eq Build_reply Let_def)
qed simp_all

type_synonym routed = "(tun_error handle_error dispatch_error, byte \<times> bytes \<times> bytes \<times> bytes) outcome"

fun task_ok :: "packet_io \<Rightarrow> packet_io task \<Rightarrow> bool" where
  "task_ok dev (Arriving raw) = True"
| "task_ok dev (Parsing raw) = True"
| "task_ok dev (Counting raw found s t payload) =
     (\<exists>p. route raw = (Ok (p, s, t, payload) :: routed)
        \<and> found = (if p = ProtoICMP then Some (NewICMPHandler dev) else None))"
| "task_ok dev (Handling raw h s t payload) =
     (route raw = (Ok (ProtoICMP, s, t, payload) :: routed) \<and> h = NewICMPHandler dev)"
| "task_ok dev (Sending raw h pkt) = (answers raw pkt \<and> h = NewICMPHandler dev)"

text \<open>A request gets no other result than that of the write of its reply.\<close>

definition result_ok :: "bytes \<Rightarrow> packet_result \<Rightarrow> bool" where
  "result_ok raw r \<longleftrightarrow> r \<noteq> Panic \<and> (is_ping raw \<longrightarrow> r = Ok () \<or> (\<exists>e. r = Err (HandlerError (NotWritten e))))"

definition answered :: "(bytes \<times> packet_result) list \<Rightarrow> bytes list" where
  "answered results = map fst (filter (\<lambda>(raw, r). is_ping raw \<and> r = Ok ()) results)"

definition unanswered :: "(bytes \<times> packet_result) list \<Rightarrow> bytes list" where
  "unanswered results = map fst (filter (\<lambda>(raw, r). is_ping raw \<and> r \<noteq> Ok ()) results)"

definition echo_only :: "packet_io \<Rightarrow> echo_shared \<Rightarrow> bool" where
  "echo_only dev sh \<longleftrightarrow>
     (\<forall>p. map_get (disp_handlers (es_disp sh)) p = (if p = ProtoICMP then Some (NewICMPHandler dev) else None))"

lemma echo_only_start: "echo_only dev (start_shared dev)"
  by (simp add: echo_only_def start_shared_def echo_dispatcher_def RegisterHandler_def IcmpProtocol_def
      NewDispatcher_def)

lemma answers_ping: "answers raw pkt \<Longrightarrow> is_ping raw"
  by (auto simp: answers_def is_ping_def)

text \<open>What an access does to the goroutine and to the wire.\<close>

lemma task_access_goes_on:
  assumes "task_access kern t sh = (Inl t', sh')" "task_ok dev t" "echo_only dev sh"
  shows "task_ok dev t' \<and> task_packet t' = task_packet t \<and> echo_only dev sh' \<and> es_trace sh' = es_trace sh"
proof (cases t)
  case (Parsing raw)
  then show ?thesis using assms by (auto simp: Let_def echo_only_def split: outcome.splits)
next
  case (Counting raw found s r payload)
  then show ?thesis using assms by (cases found) (auto simp: Let_def echo_only_def split: if_splits)
next
  case (Handling raw h s r payload)
  then have rt: "route raw = (Ok (ProtoICMP, s, r, payload) :: routed)" and h: "h = NewICMPHandler dev"
    using assms(2) by auto
  have l: "length payload \<le> 65515" using rt by (rule route_payload_length)
  obtain m where m: "is_request payload m" "t' = Sending raw h (reply_packet s r m (es_idGen sh))"
    "sh' = sh\<lparr>es_idGen := es_idGen sh + 1\<rparr>"
    using assms(1) unfolding Handling handling_access [OF l]
    by (auto simp: is_request_def split: outcome.splits if_splits)
  have "length (em_Data m) \<le> 65507" using ParseEcho_OkD(2) l m(1) by (fastforce simp: is_request_def)
  then have "answers raw (reply_packet s r m (es_idGen sh))"
    by (intro routed_ping(2) [OF rt m(1)] reply_packet_valid)
  then show ?thesis using m(2,3) h assms(3) Handling by (simp add: echo_only_def)
qed (use assms in \<open>auto simp: Let_def echo_only_def split: prod.splits\<close>)

lemma task_access_ends:
  assumes "task_access kern t sh = (Inr r, sh')" "task_ok dev t" "echo_only dev sh"
  shows "echo_only dev sh' \<and> result_ok (task_packet t) r
    \<and> (if is_ping (task_packet t) \<and> r = Ok ()
       then \<exists>pkt. answers (task_packet t) pkt
              \<and> sent_packets (io_fd dev) (es_trace sh') = sent_packets (io_fd dev) (es_trace sh) @ [pkt]
       else sent_packets (io_fd dev) (es_trace sh') = sent_packets (io_fd dev) (es_trace sh))"
proof (cases t)
  case (Parsing raw)
  have "route raw \<noteq> (Panic :: routed)" by (rule route_no_panic)
  then obtain e where "route raw = (Err e :: routed)" "r = Err e" "es_trace sh' = es_trace sh" "echo_only dev sh'"
    using assms(1,3) Parsing by (auto simp: Let_def echo_only_def split: outcome.splits prod.splits)
  then show ?thesis using unrouted_no_ping(1) by (auto simp: result_ok_def Parsing)
next
  case (Counting raw found s d payload)
  then obtain p where p: "route raw = (Ok (p, s, d, payload) :: routed)"
    "found = (if p = ProtoICMP then Some (NewICMPHandler dev) else None)"
    using assms(2) by auto
  have f: "found = None" using assms(1) Counting by (cases found) (auto simp: Let_def)
  then have "p \<noteq> ProtoICMP" using p(2) by (auto split: if_splits)
  then have "\<not> is_ping raw" by (rule unrouted_no_ping(2) [OF p(1)])
  then show ?thesis using assms(1,3) Counting f by (auto simp: Let_def result_ok_def echo_only_def)
next
  case (Handling raw h s d payload)
  then have rt: "route raw = (Ok (ProtoICMP, s, d, payload) :: routed)" using assms(2) by auto
  have l: "length payload \<le> 65515" using rt by (rule route_payload_length)
  have "ParseEcho payload \<noteq> Panic" by (simp add: ParseEcho_def Let_def)
  then have "sh' = sh \<and> r \<noteq> Panic \<and> \<not> (\<exists>m. is_request payload m)"
    using assms(1) unfolding Handling handling_access [OF l] is_request_def
    by (auto split: outcome.splits if_splits)
  then show ?thesis using routed_ping(1) [OF rt] assms(3) Handling by (simp add: result_ok_def)
next
  case (Sending raw h pkt)
  obtain res tr where w: "io_Write kern dev pkt (es_trace sh) = (res, tr)" by fastforce
  have a: "answers raw pkt" and e: "r = map_outcome (\<lambda>err. HandlerError (NotWritten err)) (\<lambda>n. ()) res"
    "sh' = sh\<lparr>es_trace := tr\<rparr>"
    using assms(1,2) w by (auto simp: Sending NewICMPHandler_def)
  have "is_ping raw" using a by (rule answers_ping)
  moreover have "echo_only dev sh'" using assms(3) by (simp add: e echo_only_def)
  moreover have "res \<noteq> Panic" using io.wr_returns [of kern dev pkt "es_trace sh"] w by simp
  ultimately show ?thesis
    using a w io.sent_wr [of dev kern pkt "es_trace sh"]
    by (cases res) (auto simp: Sending e result_ok_def)
qed (use assms in \<open>auto simp: Let_def\<close>)

definition echo_inv :: "packet_io \<Rightarrow> echo_system \<Rightarrow> bool" where
  "echo_inv dev s \<longleftrightarrow>
     echo_only dev (sy_shared s) \<and> (\<forall>t \<in># sy_tasks s. task_ok dev t)
     \<and> (\<forall>(raw, r) \<in> set (sy_results s). result_ok raw r)
     \<and> mset (sy_spawned s) = image_mset task_packet (sy_tasks s) + mset (map fst (sy_results s))
     \<and> (\<exists>reqs. list_all2 answers reqs (sent_packets (io_fd dev) (es_trace (sy_shared s)))
          \<and> mset reqs = mset (answered (sy_results s)))"

lemma echo_step_inv:
  assumes "echo_step kern s s'" "echo_inv dev s"
  shows "echo_inv dev s'"
  using assms(1)
proof cases
  case (spawn raw)
  then show ?thesis using assms(2) by (simp add: echo_inv_def)
next
  case (access t ts t' sh)
  have "task_ok dev t" "echo_only dev (sy_shared s)" using assms(2) access(2) by (auto simp: echo_inv_def)
  then show ?thesis
    using task_access_goes_on [OF access(3)] access(1,2) assms(2) by (simp add: echo_inv_def)
next
  case (finish t ts r sh)
  obtain reqs where R: "list_all2 answers reqs (sent_packets (io_fd dev) (es_trace (sy_shared s)))"
    "mset reqs = mset (answered (sy_results s))"
    using assms(2) by (auto simp: echo_inv_def)
  have i: "task_ok dev t" "echo_only dev (sy_shared s)" using assms(2) finish(2) by (auto simp: echo_inv_def)
  note e = task_access_ends [OF finish(3) i]
  have "\<exists>reqs. list_all2 answers reqs (sent_packets (io_fd dev) (es_trace sh))
      \<and> mset reqs = mset (answered (sy_results s @ [(task_packet t, r)]))"
  proof (cases "is_ping (task_packet t) \<and> r = Ok ()")
    case True
    then obtain pkt where "answers (task_packet t) pkt"
      "sent_packets (io_fd dev) (es_trace sh) = sent_packets (io_fd dev) (es_trace (sy_shared s)) @ [pkt]"
      using e by auto
    then show ?thesis
      using R True by (intro exI [of _ "reqs @ [task_packet t]"]) (simp add: answered_def list_all2_appendI)
  next
    case False
    then have "sent_packets (io_fd dev) (es_trace sh) = sent_packets (io_fd dev) (es_trace (sy_shared s))"
      using e by auto
    then show ?thesis using R False by (intro exI [of _ reqs]) (auto simp: answered_def)
  qed
  then show ?thesis using e finish(1,2) assms(2) by (simp add: echo_inv_def)
qed

lemma echo_reachable_inv: "echo_reachable kern dev s \<Longrightarrow> echo_inv dev s"
proof (induction rule: echo_reachable.induct)
  case start
  show ?case
    using echo_only_start [of dev] by (simp add: echo_inv_def answered_def start_shared_def sent_packets_def)
next
  case (step s s')
  then show ?case by (blast intro: echo_step_inv)
qed

lemma mset_split_filter:
  "mset (map fst (filter (\<lambda>(raw, r). P raw) rs)) =
   mset (map fst (filter (\<lambda>(raw, r). P raw \<and> Q r) rs)) + mset (map fst (filter (\<lambda>(raw, r). P raw \<and> \<not> Q r) rs))"
  by (induction rs) auto

lemma pings_of_results:
  "filter_mset is_ping (mset (map fst rs)) = mset (answered rs) + mset (unanswered rs)"
proof -
  have "filter_mset is_ping (mset (map fst rs)) = mset (map fst (filter (\<lambda>(raw, r). is_ping raw) rs))"
    by (induction rs) auto
  then show ?thesis
    using mset_split_filter [of is_ping rs "\<lambda>r. r = Ok ()"] by (simp add: answered_def unanswered_def)
qed

section \<open>Identifications\<close>

text \<open>The identification field of a packet, and of the packets about to be written.\<close>

definition reply_id :: "bytes \<Rightarrow> 16 word" where
  "reply_id pkt = get16 pkt 4"

fun about_to_send :: "packet_io task \<Rightarrow> 16 word multiset" where
  "about_to_send (Sending raw h pkt) = {#reply_id pkt#}"
| "about_to_send _ = {#}"

fun undrawn :: "packet_io task \<Rightarrow> bool" where
  "undrawn (Sending raw h pkt) = False"
| "undrawn _ = True"

definition drawn_ids :: "nat \<Rightarrow> 16 word multiset" where
  "drawn_ids n = mset (map of_nat [1..<Suc n])"

lemma drawn_ids_Suc: "drawn_ids (Suc n) = add_mset (of_nat (Suc n)) (drawn_ids n)"
  by (simp add: drawn_ids_def)

lemma drawn_ids_distinct:
  assumes "n \<le> 65536"
  shows "distinct (map of_nat [1..<Suc n] :: 16 word list)"
proof -
  have "inj_on (of_nat :: nat \<Rightarrow> 16 word) {1..<Suc n}"
  proof (rule inj_onI)
    fix i j
    assume "i \<in> {1..<Suc n}" "j \<in> {1..<Suc n}" "(of_nat i :: 16 word) = of_nat j"
    then have "i mod 65536 = j mod 65536" "1 \<le> i" "1 \<le> j" "i \<le> 65536" "j \<le> 65536"
      using assms by (auto simp: word_of_nat_eq_iff take_bit_eq_mod)
    then show "i = j" by (cases "i = 65536"; cases "j = 65536") auto
  qed
  then show ?thesis by (simp add: distinct_map del: upt_Suc)
qed

lemma distinct_if_drawn:
  assumes "mset xs \<subseteq># drawn_ids n" "n \<le> 65536"
  shows "distinct xs"
proof -
  have "count (drawn_ids n) x \<le> 1" for x
    using drawn_ids_distinct [OF assms(2)] by (simp add: drawn_ids_def distinct_count_atmost_1 del: upt_Suc)
  then have "count (mset xs) x \<le> 1" for x
    using mset_subset_eq_count [OF assms(1), of x] by (meson le_trans)
  moreover have "count (mset xs) x = 1" if "x \<in> set xs" for x
    using that calculation [of x] by (metis count_greater_zero_iff le_neq_implies_less less_one set_mset_mset neq0_conv)
  ultimately show ?thesis by (auto simp: distinct_count_atmost_1 not_in_iff)
qed

lemma ucast_of_nat_32: "(ucast (of_nat n :: 32 word) :: 16 word) = of_nat n"
  by (rule unsigned_word_eqI [where ?'a = nat]) (simp add: unsigned_ucast_eq unat_of_nat take_bit_eq_mod mod_mod_cancel)

lemma reply_id_packet: "reply_id (reply_packet s t m g) = ucast (g + 1)"
  by (simp add: reply_id_def reply_packet_def Let_def header_bytes_def header_fixed_def get16_def put_be16_def
      built_header_def build_header_def build_ctx_def)

definition id_inv :: "packet_io \<Rightarrow> echo_system \<Rightarrow> bool" where
  "id_inv dev s \<longleftrightarrow>
     (\<exists>n. es_idGen (sy_shared s) = of_nat n
        \<and> mset (map reply_id (sent_packets (io_fd dev) (es_trace (sy_shared s))))
            + \<Sum>\<^sub># (image_mset about_to_send (sy_tasks s)) \<subseteq># drawn_ids n
        \<and> n + size (filter_mset undrawn (sy_tasks s)) \<le> length (sy_spawned s))"

text \<open>What an access does to the identifications.\<close>

lemma task_access_ids:
  assumes "task_access kern t sh = (Inl t', sh')" "task_ok dev t"
  shows "(es_idGen sh' = es_idGen sh \<and> about_to_send t = {#} \<and> about_to_send t' = {#} \<and> undrawn t)
    \<or> (es_idGen sh' = es_idGen sh + 1 \<and> about_to_send t = {#} \<and> about_to_send t' = {#ucast (es_idGen sh + 1)#}
        \<and> undrawn t \<and> \<not> undrawn t')"
proof (cases t)
  case (Counting raw found s d payload)
  then show ?thesis using assms(1) by (cases found) (auto simp: Let_def)
next
  case (Handling raw h s d payload)
  then have "length payload \<le> 65515" using assms(2) by (auto intro: route_payload_length)
  from assms(1) [unfolded Handling handling_access [OF this]] show ?thesis
    by (auto simp: Handling reply_id_packet split: outcome.splits if_splits)
qed (use assms in \<open>auto simp: Let_def split: outcome.splits prod.splits\<close>)

lemma task_access_ids_end:
  assumes "task_access kern t sh = (Inr r, sh')" "task_ok dev t"
  shows "es_idGen sh' = es_idGen sh
    \<and> mset (map reply_id (sent_packets (io_fd dev) (es_trace sh')))
        \<subseteq># mset (map reply_id (sent_packets (io_fd dev) (es_trace sh))) + about_to_send t"
proof (cases t)
  case (Parsing raw)
  then show ?thesis using assms(1) by (auto simp: Let_def split: outcome.splits prod.splits)
next
  case (Counting raw found s d payload)
  then show ?thesis using assms(1) by (cases found) (auto simp: Let_def)
next
  case (Handling raw h s d payload)
  then have "length payload \<le> 65515" using assms(2) by (auto intro: route_payload_length)
  from assms(1) [unfolded Handling handling_access [OF this]] show ?thesis
    by (auto simp: Handling split: outcome.splits if_splits)
next
  case (Sending raw h pkt)
  then have "h = NewICMPHandler dev" using assms(2) by simp
  then show ?thesis
    using assms(1) io.sent_wr [of dev kern pkt "es_trace sh"]
    by (auto simp: Sending NewICMPHandler_def split: prod.splits outcome.splits)
qed (use assms in \<open>auto simp: Let_def\<close>)

lemma echo_step_ids:
  assumes "echo_step kern s s'" "id_inv dev s" "echo_inv dev s"
  shows "id_inv dev s'"
proof -
  obtain n where n: "es_idGen (sy_shared s) = of_nat n"
    "mset (map reply_id (sent_packets (io_fd dev) (es_trace (sy_shared s))))
       + \<Sum>\<^sub># (image_mset about_to_send (sy_tasks s)) \<subseteq># drawn_ids n"
    "n + size (filter_mset undrawn (sy_tasks s)) \<le> length (sy_spawned s)"
    using assms(2) by (auto simp: id_inv_def)
  from assms(1) show ?thesis
  proof cases
    case (spawn raw)
    then show ?thesis using n by (auto simp: id_inv_def intro!: exI [of _ n])
  next
    case (access t ts t' sh)
    have t: "task_ok dev t" "echo_only dev (sy_shared s)" using assms(3) access(2) by (auto simp: echo_inv_def)
    have tr: "es_trace sh = es_trace (sy_shared s)" using task_access_goes_on [OF access(3) t] by blast
    from task_access_ids [OF access(3) t(1)] show ?thesis
    proof (elim disjE conjE)
      assume "es_idGen sh = es_idGen (sy_shared s)" "about_to_send t = {#}" "about_to_send t' = {#}" "undrawn t"
      then show ?thesis
        using n access(1,2) tr unfolding id_inv_def by (intro exI [of _ n]) auto
    next
      assume e: "es_idGen sh = es_idGen (sy_shared s) + 1" "about_to_send t = {#}"
        "about_to_send t' = {#ucast (es_idGen (sy_shared s) + 1)#}" "undrawn t" "\<not> undrawn t'"
      have "(ucast (es_idGen (sy_shared s) + 1) :: 16 word) = of_nat (Suc n)"
        using ucast_of_nat_32 [of "Suc n"] by (simp add: n(1) add.commute)
      moreover have "es_idGen sh = of_nat (Suc n)" using e(1) n(1) by simp
      ultimately show ?thesis
        using n(2,3) access(1,2) tr e(2-5) unfolding id_inv_def
        by (intro exI [of _ "Suc n"]) (auto simp: drawn_ids_Suc add.commute simp del: of_nat_Suc)
    qed
  next
    case (finish t ts r sh)
    have t: "task_ok dev t" using assms(3) finish(2) by (auto simp: echo_inv_def)
    note e = task_access_ids_end [OF finish(3) t]
    have "mset (map reply_id (sent_packets (io_fd dev) (es_trace sh))) + \<Sum>\<^sub># (image_mset about_to_send ts)
        \<subseteq># mset (map reply_id (sent_packets (io_fd dev) (es_trace (sy_shared s))))
           + \<Sum>\<^sub># (image_mset about_to_send (sy_tasks s))"
      using subset_mset.add_right_mono [OF conjunct2 [OF e], of "\<Sum>\<^sub># (image_mset about_to_send ts)"]
      by (simp add: finish(2) ac_simps)
    from subset_mset.order_trans [OF this n(2)]
    show ?thesis
      using n e finish(1,2) unfolding id_inv_def by (intro exI [of _ n]) (auto split: if_splits)
  qed
qed

lemma echo_reachable_ids: "echo_reachable kern dev s \<Longrightarrow> id_inv dev s"
proof (induction rule: echo_reachable.induct)
  case start
  show ?case by (auto simp: id_inv_def start_shared_def sent_packets_def intro!: exI [of _ 0])
next
  case (step s s')
  then show ?case by (blast intro: echo_step_ids echo_reachable_inv)
qed

section \<open>Properties\<close>


text \<open>
  Property C31. The identifications of the replies are all different, whatever the interleaving, as long as the
  loop has read no more packets than there are identifications.
\<close>

theorem reply_ids_distinct:
  assumes "echo_reachable kern dev s" "length (sy_spawned s) \<le> 65536"
  shows "distinct (map reply_id (sent_packets (io_fd dev) (es_trace (sy_shared s))))"
proof -
  obtain n where n: "mset (map reply_id (sent_packets (io_fd dev) (es_trace (sy_shared s))))
       + \<Sum>\<^sub># (image_mset about_to_send (sy_tasks s)) \<subseteq># drawn_ids n" "n \<le> length (sy_spawned s)"
    using echo_reachable_ids [OF assms(1)] by (auto simp: id_inv_def)
  show ?thesis
  proof (rule distinct_if_drawn)
    show "mset (map reply_id (sent_packets (io_fd dev) (es_trace (sy_shared s)))) \<subseteq># drawn_ids n"
      using n(1) by (meson mset_subset_eq_add_left subset_mset.order_trans)
    show "n \<le> 65536" using n(2) assms(2) by simp
  qed
qed

text \<open>A run with two requests: both goroutines are started before the first of them goes on.\<close>

definition example_device :: packet_io where
  "example_device = TunDevice \<lparr>tun_fd = 3, tun_name = [], tun_mtu = 1500\<rparr>"

lemma ping_handled:
  assumes "map_get (disp_handlers d) ProtoICMP = Some (NewICMPHandler example_device)"
  shows "\<exists>d' g' tr'. HandlePacket (HandleIPPayload (io_Write (example_kernel (\<lambda>_. 0)))) ping_packet d (g, tr)
      = (d', (g', tr'), Ok ()) \<and> disp_handlers d' = disp_handlers d"
proof -
  have r: "route ping_packet = (Ok (1, IPv4 10 0 0 1, IPv4 10 0 0 2, example_request) :: routed)" by code_simp
  obtain m where m: "ParseEcho example_request = Ok m" "em_Type m = TypeEchoRequest"
    using is_request_def by (simp add: example_request_def ParseEcho_def Let_def icmp_consts)
  have l: "length example_request \<le> 65515" by (simp add: example_request_def)
  show ?thesis
    using assms
    by (simp add: HandlePacket_def Dispatch_cases Let_def r HandleIPPayload_eq [OF l] m ProtoICMP_def
        NewICMPHandler_def example_device_def TunWrite_def sys_def example_kernel_def)
qed

lemma two_pings:
  "\<exists>s. echo_reachable (example_kernel (\<lambda>_. 0)) example_device s \<and> sy_tasks s = {#}
    \<and> sy_spawned s = [ping_packet, ping_packet] \<and> sy_results s = [(ping_packet, Ok ()), (ping_packet, Ok ())]"
proof -
  let ?k = "example_kernel (\<lambda>_. 0)" and ?sp = "[ping_packet, ping_packet]"
  let ?d = "echo_dispatcher example_device NewDispatcher"
  note go = echo_reachable.step [where kern = ?k and dev = example_device]
  note 1 = go [OF echo_reachable.start echo_step.spawn [where raw = ping_packet], simplified]
  note 2 = go [OF 1 echo_step.spawn [where raw = ping_packet], simplified]
  have star: "echo_reachable ?k example_device t" if "(echo_step ?k)\<^sup>*\<^sup>* s t" "echo_reachable ?k example_device s" for s t
    using that by (induction rule: rtranclp_induct) (blast intro: echo_reachable.step)+
  obtain d1 g1 tr1 where h1: "HandlePacket (HandleIPPayload (io_Write ?k)) ping_packet ?d (0, []) = (d1, (g1, tr1), Ok ())"
    "disp_handlers d1 = disp_handlers ?d"
    using ping_handled [OF echo_dispatcher_handlers] by blast
  have "map_get (disp_handlers d1) ProtoICMP = Some (NewICMPHandler example_device)"
    unfolding h1(2) by (rule echo_dispatcher_handlers)
  then obtain d2 g2 tr2 where h2: "HandlePacket (HandleIPPayload (io_Write ?k)) ping_packet d1 (g1, tr1) = (d2, (g2, tr2), Ok ())"
    using ping_handled by blast
  have "echo_reachable ?k example_device
      \<lparr>sy_shared = \<lparr>es_disp = ?d, es_idGen = 0, es_trace = []\<rparr>, sy_tasks = {#Arriving ping_packet, Arriving ping_packet#},
       sy_spawned = ?sp, sy_results = []\<rparr>"
    using 2 by (simp add: start_shared_def)
  from star [OF HandlePacket_steps [OF h1(1)] this] have "echo_reachable ?k example_device
      \<lparr>sy_shared = \<lparr>es_disp = d1, es_idGen = g1, es_trace = tr1\<rparr>, sy_tasks = {#Arriving ping_packet#},
       sy_spawned = ?sp, sy_results = [(ping_packet, Ok ())]\<rparr>" by simp
  from star [OF HandlePacket_steps [OF h2] this]
  have "echo_reachable ?k example_device
      \<lparr>sy_shared = \<lparr>es_disp = d2, es_idGen = g2, es_trace = tr2\<rparr>, sy_tasks = {#}, sy_spawned = ?sp,
       sy_results = [(ping_packet, Ok ()), (ping_packet, Ok ())]\<rparr>" by simp
  then show ?thesis by (intro exI conjI) (assumption, simp_all)
qed

lemma ping_packet_is_ping: "is_ping ping_packet"
proof -
  have "route ping_packet = (Ok (ProtoICMP, IPv4 10 0 0 1, IPv4 10 0 0 2, example_request) :: routed)" by code_simp
  moreover have "\<exists>m. is_request example_request m"
    by (simp add: is_request_def example_request_def ParseEcho_def Let_def icmp_consts)
  ultimately show ?thesis using routed_ping(1) by blast
qed


theorem reply_ids_distinct_witness:
  "\<exists>s. echo_reachable (example_kernel (\<lambda>_. 0)) example_device s \<and> length (sy_results s) = 2
    \<and> distinct (map reply_id (sent_packets 3 (es_trace (sy_shared s))))"
proof -
  obtain s where s: "echo_reachable (example_kernel (\<lambda>_. 0)) example_device s"
    "sy_spawned s = [ping_packet, ping_packet]" "length (sy_results s) = 2"
    using two_pings by auto
  then have "length (sy_spawned s) \<le> 65536" by simp
  from reply_ids_distinct [OF s(1) this] show ?thesis
    using s by (intro exI [of _ s]) (simp add: example_device_def)
qed

end
