(* ===== verification/Ping_Trip.thy ===== *)
theory Ping_Trip
  imports Packet_Path Reassembly
begin

text \<open>
  A ping from one end to the other, through the components in the order in which a packet meets
  them: the echo message is marshalled (\<^verbatim>\<open>internal/icmp/icmp.go\<close>), built into a packet
  (\<^verbatim>\<open>internal/ip/builder.go\<close>), cut into fragments for the path (\<^verbatim>\<open>fragment.go\<close>), put together
  again by the receiver (\<^verbatim>\<open>reassembly.go\<close>), dispatched (\<^verbatim>\<open>dispatcher.go\<close>) and answered by the
  handler (\<^verbatim>\<open>internal/icmp/handler.go\<close>). The program has no caller that joins the reassembly
  buffer to the dispatcher; here the packet that \<open>Add\<close> returns is the one that is dispatched.
\<close>

section \<open>The request as a packet\<close>

text \<open>The header that a request is built with, and what the receiver's parsers make of it.\<close>

lemma built_request:
  assumes "em_Type m = TypeEchoRequest" "length (em_Data m) \<le> 65507"
    and "MarshalEcho m = (Ok bs :: (ip_error, bytes) outcome)"
    and "Build (NewPacketBuilder src dst ProtoICMP) g bs = (g', Ok packet)"
  obtains h where "ParseHeader packet = Ok h" "HeaderLen h = 20" "unat (ip_TotalLen h) = length packet"
    "seal_header h = Ok (take 20 packet)" "ip_FragOffset h = 0" "ip_Flags h = 0"
    "ip_Protocol h = ProtoICMP" "ip_Src h = ip4_field src" "ip_Dst h = ip4_field dst"
    "is_request (drop 20 packet) (m\<lparr>em_Checksum := echo_checksum m\<rparr>)"
proof -
  define b where "b = NewPacketBuilder src dst ProtoICMP"
  define h where "h = built_header b (build_ctx b [] (ucast (g + 1))) (20 + length bs)"
  have bs: "bs = echo_bytes (echo_checksum m) m" using assms(3) by (simp add: MarshalEcho_eq)
  have l: "length bs \<le> 65515" using assms(2) by (simp add: bs)
  note B = Build_Ok [OF l h_def]
  have p: "packet = header_bytes h @ bs"
    using assms(4) B(1) by (simp add: Build_def b_def [symmetric] prod_eq_iff)
  have n: "length (header_bytes h) = 20" using B(3) by simp
  have "sealed (sealed x) = sealed x" for x :: ip_header
    by (subst (2) sealed_def) simp
  then have s: "sealed h = h" by (simp add: h_def built_header_def)
  show thesis
  proof (rule that)
    show "ParseHeader packet = Ok h" unfolding p using B(2) by (rule ParseHeader_header_bytes)
    show "HeaderLen h = 20" "unat (ip_TotalLen h) = length packet" using B(3,4) n by (simp_all add: p)
    show "seal_header h = Ok (take 20 packet)" using B(3) n s by (simp add: seal_header_eq p)
    show "ip_FragOffset h = 0" "ip_Flags h = 0" "ip_Protocol h = ProtoICMP"
      "ip_Src h = ip4_field src" "ip_Dst h = ip4_field dst"
      by (simp_all add: h_def built_header_def build_header_def b_def NewPacketBuilder_def build_ctx_def)
    show "is_request (drop 20 packet) (m\<lparr>em_Checksum := echo_checksum m\<rparr>)"
      using assms(1) n by (simp add: is_request_def p bs ParseEcho_bytes)
  qed
qed

section \<open>Properties\<close>

text \<open>
  Property C11. A ping survives fragmentation. The fragments of a built echo request, handed to the receiver's
  buffer in any order and at any times, yield the packet again; dispatched there, it is answered
  with one valid reply that carries the identifier, the sequence number and all the data of the
  request from the address pinged to the one that pinged, unless the write itself fails.
\<close>

theorem fragmented_ping_answered:
  assumes "em_Type m = TypeEchoRequest" "length (em_Data m) \<le> 65507"
    and "MarshalEcho m = (Ok bs :: (ip_error, bytes) outcome)"
    and "Build (NewPacketBuilder src dst ProtoICMP) g bs = (g', Ok packet)"
    and "28 \<le> mtu" "mtu < int (length packet)" "Fragment packet mtu = Some (Ok frs)"
    and "mset (map (\<lambda>(ord, now, f). f) ops) = mset frs"
    and "\<forall>(ord, now, f) \<in> set ops. is_range_order ord"
  shows "\<exists>buffer reply. add_all ops NewReassemblyBuffer = Ok (buffer, [packet])
    \<and> valid_reply (ip4_field src) (ip4_field dst) m reply
    \<and> (let (_, (_, tr'), r) = Dispatch (HandleIPPayload (io_Write kern)) packet (echo_dispatcher dev d) (i, tr)
       in (r = Ok () \<and> sent_packets (io_fd dev) tr' = sent_packets (io_fd dev) tr @ [reply])
          \<or> ((\<exists>e. r = Err (HandlerError (NotWritten e))) \<and> sent_packets (io_fd dev) tr' = sent_packets (io_fd dev) tr))"
proof -
  obtain h where h: "ParseHeader packet = Ok h" "HeaderLen h = 20" "unat (ip_TotalLen h) = length packet"
    "seal_header h = Ok (take 20 packet)" "ip_FragOffset h = 0" "ip_Flags h = 0" "ip_Protocol h = ProtoICMP"
    "ip_Src h = ip4_field src" "ip_Dst h = ip4_field dst"
    "is_request (drop 20 packet) (m\<lparr>em_Checksum := echo_checksum m\<rparr>)"
    using built_request [OF assms(1-4)] .
  have n: "5 \<le> unat (ip_IHL h)" using h(2) by (simp add: HeaderLen_def)
  obtain buffer where b: "add_all ops NewReassemblyBuffer = Ok (buffer, [packet])"
    using add_all_fragments [OF h(1,3) _ h(5), of mtu frs ops NewReassemblyBuffer] h(2,4,6) n assms(5-9)
    by (simp add: NewReassemblyBuffer_def)
  have "is_request (drop (HeaderLen h) (take (unat (ip_TotalLen h)) packet)) (m\<lparr>em_Checksum := echo_checksum m\<rparr>)"
    using h(2,3,10) by simp
  from ping_dispatched [OF h(1) n _ h(7) this, of kern dev d i tr] h(3) obtain reply where
    r: "valid_reply (ip_Src h) (ip_Dst h) (m\<lparr>em_Checksum := echo_checksum m\<rparr>) reply"
      "let (_, (g', tr'), r) = Dispatch (HandleIPPayload (io_Write kern)) packet (echo_dispatcher dev d) (i, tr)
       in g' = i + 1
         \<and> ((r = Ok () \<and> sent_packets (io_fd dev) tr' = sent_packets (io_fd dev) tr @ [reply])
            \<or> ((\<exists>e. r = Err (HandlerError (NotWritten e))) \<and> sent_packets (io_fd dev) tr' = sent_packets (io_fd dev) tr))"
    by auto
  have "valid_reply (ip4_field src) (ip4_field dst) m reply"
    using r(1) by (simp add: valid_reply_def h(8,9))
  then show ?thesis
    using b r(2) by (intro exI [of _ buffer] exI [of _ reply]) (auto simp: Let_def split: prod.splits)
qed

text \<open>A request of twelve bytes over a path that takes twenty-eight at a time, last fragment first.\<close>

definition trip_request :: echo_message where
  "trip_request = \<lparr>em_Type = 8, em_Code = 0, em_Checksum = 0, em_ID = 7, em_Seq = 1, em_Data = [1, 2, 3, 4, 5, 6, 7, 8, 9, 10, 11, 12]\<rparr>"

theorem fragmented_ping_answered_witness:
  "\<exists>packet frs buffer reply. Fragment packet 28 = Some (Ok frs) \<and> 2 \<le> length frs
    \<and> add_all (map (\<lambda>f. (rev, 7, f)) (rev frs)) NewReassemblyBuffer = Ok (buffer, [packet])
    \<and> valid_reply [10, 0, 0, 1] [10, 0, 0, 2] trip_request reply"
proof -
  have t: "em_Type trip_request = TypeEchoRequest" "length (em_Data trip_request) \<le> 65507"
    by (simp_all add: trip_request_def icmp_consts)
  let ?bs = "echo_bytes (echo_checksum trip_request) trip_request"
  have m: "MarshalEcho trip_request = (Ok ?bs :: (ip_error, bytes) outcome)" by (rule MarshalEcho_eq)
  have l: "length ?bs \<le> 65515" by (simp add: trip_request_def)
  define b where "b = NewPacketBuilder [10, 0, 0, 1] [10, 0, 0, 2] ProtoICMP"
  define packet where "packet = header_bytes (built_header b (build_ctx b [] (ucast (0 + 1 :: 32 word))) (20 + length ?bs)) @ ?bs"
  have B: "Build (NewPacketBuilder [10, 0, 0, 1] [10, 0, 0, 2] ProtoICMP) 0 ?bs = (fst (Build b 0 ?bs), Ok packet)"
    unfolding b_def [symmetric] packet_def
    using Build_Ok(1) [OF l refl, of b 0 "[]"] by (metis Build_def prod.collapse)
  obtain h where h: "ParseHeader packet = Ok h" "HeaderLen h = 20" "unat (ip_TotalLen h) = length packet"
    "seal_header h = Ok (take 20 packet)" "ip_Flags h = 0" "ip_FragOffset h = 0"
    using built_request [OF t m B] by metis
  have len: "length packet = 40" by (simp add: packet_def trip_request_def)
  have n: "5 \<le> unat (ip_IHL h)" using h(2) by (simp add: HeaderLen_def)
  have "block_size 28 20 = 8" "n_blocks 20 8 = 3" by (simp_all add: block_size_def n_blocks_def)
  then obtain frs where F: "Fragment packet 28 = Some (Ok frs)" "length frs = 3"
    using Fragment_blocks [OF h(1), of 28] h len n by auto
  let ?ops = "map (\<lambda>f. (rev, 7, f)) (rev frs)"
  have o: "mset (map (\<lambda>(ord, now, f). f) ?ops) = mset frs" "\<forall>(ord, now, f) \<in> set ?ops. is_range_order ord"
    using rev_range_order by (auto simp: comp_def)
  have a: "ip4_field [10, 0, 0, 1] = [10, 0, 0, 1]" "ip4_field [10, 0, 0, 2] = [10, 0, 0, 2]" by code_simp+
  have mtu: "28 \<le> (28 :: int)" "28 < int (length packet)" by (simp_all add: len)
  obtain buffer reply where "add_all ?ops NewReassemblyBuffer = Ok (buffer, [packet])"
    "valid_reply [10, 0, 0, 1] [10, 0, 0, 2] trip_request reply"
    using fragmented_ping_answered [OF t m B mtu F(1) o, unfolded a] by blast
  then show ?thesis using F by (intro exI conjI) (assumption | simp)+
qed

end
