(* ===== verification/Tcp_Header.thy ===== *)
theory Tcp_Header
  imports Ip_Checksum
begin

text \<open>
  \<^verbatim>\<open>internal/tcp/header.go\<close> and \<^verbatim>\<open>internal/tcp/checksum.go\<close>: the TCP header with its option
  list, and the checksum calculator. The parser of the options runs over an index, as in the
  code; it is related to a parser that consumes the bytes, from which the round trips follow.
  \<open>Marshal\<close> updates the data offset of the header it is called on, so the model returns the new
  header with the bytes.
\<close>

section \<open>The code\<close>

definition FlagFIN :: byte where "FlagFIN = 0x01"
definition FlagSYN :: byte where "FlagSYN = 0x02"
definition FlagRST :: byte where "FlagRST = 0x04"
definition FlagPSH :: byte where "FlagPSH = 0x08"
definition FlagACK :: byte where "FlagACK = 0x10"
definition FlagURG :: byte where "FlagURG = 0x20"
definition FlagECE :: byte where "FlagECE = 0x40"
definition FlagCWR :: byte where "FlagCWR = 0x80"

definition OptEndOfList :: byte where "OptEndOfList = 0"
definition OptNOP :: byte where "OptNOP = 1"
definition OptMSS :: byte where "OptMSS = 2"
definition OptWindowScale :: byte where "OptWindowScale = 3"
definition OptSACKPermit :: byte where "OptSACKPermit = 4"
definition OptSACK :: byte where "OptSACK = 5"
definition OptTimestamps :: byte where "OptTimestamps = 8"

definition TcpMinHeaderLen :: nat where "TcpMinHeaderLen = 20"

lemmas tcp_consts = FlagFIN_def FlagSYN_def FlagRST_def FlagPSH_def FlagACK_def FlagURG_def
  FlagECE_def FlagCWR_def OptEndOfList_def OptNOP_def OptMSS_def TcpMinHeaderLen_def

record tcp_option =
  opt_Kind :: byte
  opt_Length :: byte
  opt_Data :: bytes

record tcp_header =
  tcp_SrcPort :: "16 word"
  tcp_DstPort :: "16 word"
  tcp_SeqNum :: "32 word"
  tcp_AckNum :: "32 word"
  tcp_DataOffset :: byte
  tcp_Flags :: byte
  tcp_Window :: "16 word"
  tcp_Checksum :: "16 word"
  tcp_Urgent :: "16 word"
  tcp_Options :: "tcp_option list"

text \<open>
  The errors of the parser; the last three wrap \<open>ErrMalformedOptions\<close> with the kind and length
  they print.
\<close>

datatype tcp_error =
    ErrHeaderTooShort
  | ErrInvalidDataOffset
  | ErrLengthExceedsPacket
  | ErrOptionNoLength byte
  | ErrOptionTooShort byte byte
  | ErrOptionTooLong byte byte

text \<open>The loop of \<open>ParseOptions\<close> from the index \<open>i\<close>, with the options found so far.\<close>

function parse_options_at :: "bytes \<Rightarrow> nat \<Rightarrow> tcp_option list \<Rightarrow> (tcp_error, tcp_option list) outcome" where
  "parse_options_at data i options =
     (if i < length data then
        (let kind = data ! i
         in if kind = OptEndOfList then Ok options
         else if kind = OptNOP then
           parse_options_at data (i + 1) (options @ [\<lparr>opt_Kind = kind, opt_Length = 0, opt_Data = []\<rparr>])
         else if i + 1 \<ge> length data then Err (ErrOptionNoLength kind)
         else let len = data ! (i + 1)
           in if len < 2 then Err (ErrOptionTooShort len kind)
           else if i + unat len > length data then Err (ErrOptionTooLong len kind)
           else let optData = take (unat len - 2) (drop (i + 2) data)
             in parse_options_at data (i + unat len)
                  (options @ [\<lparr>opt_Kind = kind, opt_Length = len, opt_Data = optData\<rparr>]))
      else Ok options)"
  by pat_completeness auto
termination
  by (relation "measure (\<lambda>(data, i, _). length data - i)") (auto simp: word_less_nat_alt)

declare parse_options_at.simps [simp del]

definition ParseOptions :: "bytes \<Rightarrow> (tcp_error, tcp_option list) outcome" where
  "ParseOptions data = parse_options_at data 0 []"

definition TcpParseHeader :: "bytes \<Rightarrow> (tcp_error, tcp_header) outcome" where
  "TcpParseHeader raw =
     (if length raw < TcpMinHeaderLen then Err ErrHeaderTooShort
      else let h = \<lparr>tcp_SrcPort = get16 raw 0, tcp_DstPort = get16 raw 2,
                    tcp_SeqNum = get32 raw 4, tcp_AckNum = get32 raw 8,
                    tcp_DataOffset = drop_bit 4 (raw ! 12), tcp_Flags = 0,
                    tcp_Window = get16 raw 14, tcp_Checksum = get16 raw 16,
                    tcp_Urgent = get16 raw 18, tcp_Options = []\<rparr>
      in if tcp_DataOffset h < 5 then Err ErrInvalidDataOffset
      else let headerLenBytes = unat (tcp_DataOffset h) * 4
      in if length raw < headerLenBytes then Err ErrLengthExceedsPacket
      else let h = h\<lparr>tcp_Flags := raw ! 13\<rparr>
      in if headerLenBytes > TcpMinHeaderLen then
           obind (ParseOptions (take (headerLenBytes - 20) (drop 20 raw))) (\<lambda>opts.
             Ok (h\<lparr>tcp_Options := opts\<rparr>))
         else Ok h)"

text \<open>The two loops of \<open>Marshal\<close>: the option bytes, and the padding to a multiple of 4.\<close>

fun options_bytes :: "tcp_option list \<Rightarrow> bytes" where
  "options_bytes [] = []"
| "options_bytes (opt # opts) =
     (if opt_Kind opt = OptEndOfList then [OptEndOfList]
      else if opt_Kind opt = OptNOP then OptNOP # options_bytes opts
      else opt_Kind opt # opt_Length opt # opt_Data opt @ options_bytes opts)"

function pad_options :: "bytes \<Rightarrow> bytes" where
  "pad_options bs =
     (if (TcpMinHeaderLen + length bs) mod 4 \<noteq> 0 then pad_options (bs @ [OptEndOfList]) else bs)"
  by pat_completeness auto
termination
proof (relation "measure (\<lambda>bs. 3 - (length bs + 3) mod 4)")
  fix bs :: bytes
  assume "(TcpMinHeaderLen + length bs) mod 4 \<noteq> 0"
  then have "3 - (length bs + 1 + 3) mod 4 < 3 - (length bs + 3) mod 4"
    unfolding TcpMinHeaderLen_def by presburger
  then show "(bs @ [OptEndOfList], bs) \<in> measure (\<lambda>bs. 3 - (length bs + 3) mod 4)" by simp
qed simp

declare pad_options.simps [simp del]

definition TcpMarshal :: "tcp_header \<Rightarrow> (tcp_error, tcp_header \<times> bytes) outcome" where
  "TcpMarshal h =
     (let optsBytes = pad_options (options_bytes (tcp_Options h));
          dataOffset = of_nat (TcpMinHeaderLen + length optsBytes) div 4;
          h = h\<lparr>tcp_DataOffset := dataOffset\<rparr>
      in obind (run_stmts
           [buf_put16 0 (tcp_SrcPort h), buf_put16 2 (tcp_DstPort h),
            buf_put32 4 (tcp_SeqNum h), buf_put32 8 (tcp_AckNum h),
            buf_set 12 (push_bit 4 (tcp_DataOffset h)), buf_set 13 (tcp_Flags h),
            buf_put16 14 (tcp_Window h), buf_put16 16 (tcp_Checksum h),
            buf_put16 18 (tcp_Urgent h), buf_copy_from TcpMinHeaderLen optsBytes]
           (replicate (TcpMinHeaderLen + length optsBytes) 0))
         (\<lambda>buf. Ok (h, buf)))"

definition HasFlag :: "tcp_header \<Rightarrow> byte \<Rightarrow> bool" where
  "HasFlag h flag \<longleftrightarrow> tcp_Flags h AND flag \<noteq> 0"

definition SetFlag :: "tcp_header \<Rightarrow> byte \<Rightarrow> tcp_header" where
  "SetFlag h flag = h\<lparr>tcp_Flags := tcp_Flags h OR flag\<rparr>"

definition TcpHeaderLen :: "tcp_header \<Rightarrow> nat" where
  "TcpHeaderLen h = unat (tcp_DataOffset h) * 4"

text \<open>\<open>String\<close>: the flag names in the order of their bits, the trailing space cut.\<close>

definition flag_names :: "(byte \<times> string) list" where
  "flag_names =
     [(FlagCWR, ''CWR ''), (FlagECE, ''ECE ''), (FlagURG, ''URG ''), (FlagACK, ''ACK ''),
      (FlagPSH, ''PSH ''), (FlagRST, ''RST ''), (FlagSYN, ''SYN ''), (FlagFIN, ''FIN '')]"

definition flags_string :: "tcp_header \<Rightarrow> string" where
  "flags_string h =
     (let flagsStr = concat (map snd (filter (\<lambda>(f, _). HasFlag h f) flag_names))
      in if 0 < length flagsStr then take (length flagsStr - 1) flagsStr else flagsStr)"

definition TcpString :: "tcp_header \<Rightarrow> string" where
  "TcpString h =
     ''TCP :'' @ dec (unat (tcp_SrcPort h)) @ '' -> :'' @ dec (unat (tcp_DstPort h))
     @ '' ['' @ flags_string h @ ''] seq='' @ dec (unat (tcp_SeqNum h))
     @ '' ack='' @ dec (unat (tcp_AckNum h)) @ '' win='' @ dec (unat (tcp_Window h))"

subsection \<open>The checksum calculator\<close>

record checksum_calculator =
  cc_src :: bytes
  cc_dst :: bytes

definition NewChecksumCalculator :: "bytes \<Rightarrow> bytes \<Rightarrow> checksum_calculator" where
  "NewChecksumCalculator src dst = \<lparr>cc_src = src, cc_dst = dst\<rparr>"

definition Compute :: "checksum_calculator \<Rightarrow> bytes \<Rightarrow> 16 word" where
  "Compute c tcpSegment = TCPChecksum (cc_src c) (cc_dst c) tcpSegment"

definition Verify :: "checksum_calculator \<Rightarrow> bytes \<Rightarrow> bool" where
  "Verify c tcpSegment \<longleftrightarrow> TCPChecksum (cc_src c) (cc_dst c) tcpSegment = 0"

definition SetAndCompute :: "checksum_calculator \<Rightarrow> bytes \<Rightarrow> bytes" where
  "SetAndCompute c tcpSegment =
     (if length tcpSegment < TcpMinHeaderLen then tcpSegment
      else let zeroed = tcpSegment[16 := 0, 17 := 0];
               chksum = Compute c zeroed
           in zeroed[16 := put_be16 chksum ! 0, 17 := put_be16 chksum ! 1])"

section \<open>The options\<close>

text \<open>The parser by consumption of the bytes.\<close>

function parse_opts :: "bytes \<Rightarrow> (tcp_error, tcp_option list) outcome" where
  "parse_opts [] = Ok []"
| "parse_opts (kind # bs) =
     (if kind = OptEndOfList then Ok []
      else if kind = OptNOP then
        obind (parse_opts bs) (\<lambda>os. Ok (\<lparr>opt_Kind = kind, opt_Length = 0, opt_Data = []\<rparr> # os))
      else case bs of
          [] \<Rightarrow> Err (ErrOptionNoLength kind)
        | len # bs' \<Rightarrow>
            if len < 2 then Err (ErrOptionTooShort len kind)
            else if unat len > 2 + length bs' then Err (ErrOptionTooLong len kind)
            else obind (parse_opts (drop (unat len - 2) bs')) (\<lambda>os.
              Ok (\<lparr>opt_Kind = kind, opt_Length = len, opt_Data = take (unat len - 2) bs'\<rparr> # os)))"
  by pat_completeness auto
termination
  by (relation "measure length") auto

declare parse_opts.simps(2) [simp del]

lemma parse_options_at_eq:
  "i \<le> length data \<Longrightarrow>
   parse_options_at data i options = obind (parse_opts (drop i data)) (\<lambda>os. Ok (options @ os))"
proof (induction data i options rule: parse_options_at.induct)
  case (1 data i options)
  show ?case
  proof (cases "i < length data")
    case False
    then show ?thesis using 1 by (subst parse_options_at.simps) simp
  next
    case True
    define kind where "kind = data ! i"
    have d: "drop i data = kind # drop (i + 1) data"
      using True by (simp add: kind_def Cons_nth_drop_Suc)
    consider "kind = OptEndOfList" | "kind \<noteq> OptEndOfList" "kind = OptNOP"
      | "kind \<noteq> OptEndOfList" "kind \<noteq> OptNOP" "length data \<le> i + 1"
      | "kind \<noteq> OptEndOfList" "kind \<noteq> OptNOP" "i + 1 < length data" by linarith
    then show ?thesis
    proof cases
      case 1
      then show ?thesis
        using True by (subst parse_options_at.simps) (simp add: kind_def [symmetric] d parse_opts.simps)
    next
      case 2
      have "parse_options_at data i options = parse_options_at data (i + 1)
          (options @ [\<lparr>opt_Kind = kind, opt_Length = 0, opt_Data = []\<rparr>])"
        using True 2 by (subst parse_options_at.simps) (simp add: kind_def [symmetric])
      also have "\<dots> = obind (parse_opts (drop (i + 1) data))
          (\<lambda>os. Ok ((options @ [\<lparr>opt_Kind = kind, opt_Length = 0, opt_Data = []\<rparr>]) @ os))"
        using "1.IH"(1) [OF True, of kind] 2 True by (simp add: kind_def)
      finally show ?thesis
        using 2 by (simp add: d parse_opts.simps) (cases "parse_opts (drop (Suc i) data)"; simp)
    next
      case 3
      then show ?thesis
        using True by (subst parse_options_at.simps)
          (simp add: kind_def [symmetric] d parse_opts.simps)
    next
      case 4
      define len where "len = data ! (i + 1)"
      have d2: "drop (Suc i) data = len # drop (Suc (Suc i)) data"
        using 4(3) by (simp add: len_def Cons_nth_drop_Suc)
      consider "len < 2" | "\<not> len < 2" "length data < i + unat len"
        | "\<not> len < 2" "i + unat len \<le> length data" by linarith
      then show ?thesis
      proof cases
        case 3
        have l: "2 \<le> unat len" using 3(1) by (simp add: word_less_nat_alt)
        let ?o = "\<lparr>opt_Kind = kind, opt_Length = len, opt_Data = take (unat len - 2) (drop (i + 2) data)\<rparr>"
        have "parse_options_at data i options = parse_options_at data (i + unat len) (options @ [?o])"
          using True 3 4 by (subst parse_options_at.simps)
            (simp add: kind_def [symmetric] len_def [symmetric, simplified] Let_def)
        also have "\<dots> = obind (parse_opts (drop (i + unat len) data)) (\<lambda>os. Ok ((options @ [?o]) @ os))"
          using "1.IH"(2) [OF True, of kind len "opt_Data ?o"] 3 4 by (simp add: kind_def len_def)
        finally have L: "parse_options_at data i options
            = obind (parse_opts (drop (i + unat len) data)) (\<lambda>os. Ok ((options @ [?o]) @ os))" .
        have e: "drop (unat len - 2) (drop (Suc (Suc i)) data) = drop (i + unat len) data"
        proof -
          have "unat len - 2 + Suc (Suc i) = i + unat len" using l by linarith
          then show ?thesis by (simp only: drop_drop)
        qed
        have "\<not> 2 + length (drop (Suc (Suc i)) data) < unat len"
          using 3(2) 4(3) by simp
        then have "parse_opts (drop i data) = obind (parse_opts (drop (i + unat len) data)) (\<lambda>os. Ok (?o # os))"
          using 3(1) 4 by (simp only: d Suc_eq_plus1 [symmetric] d2 parse_opts.simps e list.case if_False)
            simp
        then show ?thesis unfolding L by (cases "parse_opts (drop (i + unat len) data)") simp_all
      qed (use True 4 in \<open>subst parse_options_at.simps;
          auto simp: kind_def [symmetric] len_def [symmetric, simplified] d d2 parse_opts.simps Let_def\<close>)+
    qed
  qed
qed

lemma ParseOptions_eq: "ParseOptions data = parse_opts data"
  using parse_options_at_eq [of 0 data "[]"] by (cases "parse_opts data") (simp_all add: ParseOptions_def)

definition opt_wf :: "tcp_option \<Rightarrow> bool" where
  "opt_wf opt \<longleftrightarrow>
     opt_Kind opt \<noteq> OptEndOfList
     \<and> (opt_Kind opt = OptNOP \<longrightarrow> opt_Length opt = 0 \<and> opt_Data opt = [])
     \<and> (opt_Kind opt \<noteq> OptNOP \<longrightarrow> unat (opt_Length opt) = 2 + length (opt_Data opt))"

lemma parse_opts_wf: "parse_opts data = Ok os \<Longrightarrow> list_all opt_wf os"
proof (induction data arbitrary: os rule: parse_opts.induct)
  case (2 kind bs)
  show ?case
  proof (cases "kind = OptEndOfList \<or> kind = OptNOP")
    case True
    then show ?thesis
      using 2 by (auto simp: parse_opts.simps obind_Ok_iff opt_wf_def OptNOP_def OptEndOfList_def split: if_splits)
  next
    case False
    then obtain len bs' rest where b: "bs = len # bs'" "\<not> len < 2" "\<not> 2 + length bs' < unat len"
      and r: "parse_opts (drop (unat len - 2) bs') = Ok rest"
        "os = \<lparr>opt_Kind = kind, opt_Length = len, opt_Data = take (unat len - 2) bs'\<rparr> # rest"
      using 2(3) by (auto simp: parse_opts.simps obind_Ok_iff split: list.splits if_splits)
    have "list_all opt_wf rest" using 2(2) False b r(1) by blast
    moreover have "2 \<le> unat len" using b(2) by (simp add: word_less_nat_alt)
    ultimately show ?thesis using False b(3) by (simp add: r(2)) (simp add: opt_wf_def)
  qed
qed simp

lemma parse_options_bytes:
  assumes "list_all opt_wf os"
  shows "parse_opts (options_bytes os @ replicate k OptEndOfList) = Ok os"
  using assms
proof (induction os)
  case Nil
  then show ?case by (cases k) (simp_all add: parse_opts.simps)
next
  case (Cons opt os)
  show ?case
  proof (cases "opt_Kind opt = OptNOP")
    case True
    then have "opt = \<lparr>opt_Kind = OptNOP, opt_Length = 0, opt_Data = []\<rparr>"
      using Cons.prems by (simp add: opt_wf_def)
    then show ?thesis using Cons by (simp add: parse_opts.simps OptNOP_def OptEndOfList_def)
  next
    case False
    then have l: "unat (opt_Length opt) = 2 + length (opt_Data opt)" "opt_Kind opt \<noteq> OptEndOfList"
      using Cons.prems by (simp_all add: opt_wf_def)
    then have "\<not> opt_Length opt < 2" by (simp add: word_less_nat_alt)
    then show ?thesis using Cons l False by (simp add: parse_opts.simps)
  qed
qed

text \<open>The padding in closed form.\<close>

definition pad_len :: "nat \<Rightarrow> nat" where
  "pad_len n = (4 - n mod 4) mod 4"

lemma mod4_cases:
  fixes n :: nat
  obtains "n mod 4 = 0" | "n mod 4 = 1" | "n mod 4 = 2" | "n mod 4 = 3"
proof -
  have "n mod 4 < 4" by simp
  then show thesis using that by linarith
qed

lemma pad_len_step: "pad_len n = (if (20 + n) mod 4 = 0 then 0 else Suc (pad_len (n + 1)))"
proof -
  have e: "(20 + n) mod 4 = n mod 4" using mod_mult_self2 [of n 4 5] by (simp add: add.commute)
  show ?thesis unfolding e by (cases n rule: mod4_cases) (simp_all add: pad_len_def mod_Suc)
qed

lemma pad_len_bounds: "4 dvd n + pad_len n" and pad_len_le: "4 dvd k \<Longrightarrow> n + pad_len n \<le> k \<longleftrightarrow> n \<le> k"
proof -
  define d where "d = n div 4"
  have n: "n = 4 * d + n mod 4" by (simp add: d_def)
  have c: "n + pad_len n = 4 * d \<and> n = 4 * d \<or>
      n + pad_len n = 4 * (d + 1) \<and> 4 * d < n \<and> n < 4 * (d + 1)"
    by (cases n rule: mod4_cases) (use n in \<open>simp_all add: pad_len_def\<close>)
  then show "4 dvd n + pad_len n" by (metis dvd_triv_left)
  assume "4 dvd k"
  then obtain j where k: "k = 4 * j" by blast
  show "n + pad_len n \<le> k \<longleftrightarrow> n \<le> k"
  proof
    assume "n \<le> k"
    show "n + pad_len n \<le> k"
    proof (cases "4 * d < n")
      case True
      then have "n + pad_len n = 4 * (d + 1)" using c by auto
      moreover have "d + 1 \<le> j" using True k \<open>n \<le> k\<close> by linarith
      ultimately show ?thesis unfolding k by simp
    next
      case False
      then show ?thesis using c \<open>n \<le> k\<close> by auto
    qed
  qed simp
qed

lemma pad_options_eq: "pad_options bs = bs @ replicate (pad_len (length bs)) OptEndOfList"
proof (induction bs rule: pad_options.induct)
  case (1 bs)
  show ?case
  proof (cases "(TcpMinHeaderLen + length bs) mod 4 = 0")
    case True
    then have "pad_len (length bs) = 0"
      using pad_len_step [of "length bs"] by (simp add: TcpMinHeaderLen_def)
    then show ?thesis using True by (subst pad_options.simps) simp
  next
    case False
    then have "pad_len (length bs) = Suc (pad_len (length bs + 1))"
      using pad_len_step [of "length bs"] by (simp add: TcpMinHeaderLen_def)
    then show ?thesis using False 1 by (subst pad_options.simps) simp
  qed
qed

definition padded_options :: "tcp_header \<Rightarrow> bytes" where
  "padded_options h = pad_options (options_bytes (tcp_Options h))"

lemma padded_options_dvd: "4 dvd length (padded_options h)"
  using pad_len_bounds by (simp add: padded_options_def pad_options_eq)

lemma padded_options_le:
  "length (padded_options h) \<le> n \<longleftrightarrow> length (options_bytes (tcp_Options h)) \<le> n" if "4 dvd n"
  using pad_len_le [OF that] by (simp add: padded_options_def pad_options_eq)

section \<open>What the serializer writes\<close>

definition tcp_fixed :: "tcp_header \<Rightarrow> bytes" where
  "tcp_fixed h =
     put_be16 (tcp_SrcPort h) @ put_be16 (tcp_DstPort h) @ put_be32 (tcp_SeqNum h)
     @ put_be32 (tcp_AckNum h) @ [push_bit 4 (tcp_DataOffset h), tcp_Flags h]
     @ put_be16 (tcp_Window h) @ put_be16 (tcp_Checksum h) @ put_be16 (tcp_Urgent h)"

definition with_offset :: "tcp_header \<Rightarrow> tcp_header" where
  "with_offset h = h\<lparr>tcp_DataOffset := of_nat (20 + length (padded_options h)) div 4\<rparr>"

definition tcp_bytes :: "tcp_header \<Rightarrow> bytes" where
  "tcp_bytes h = tcp_fixed (with_offset h) @ padded_options h"

lemma length_tcp_fixed [simp]: "length (tcp_fixed h) = 20"
  by (simp add: tcp_fixed_def)

lemma length_tcp_bytes: "length (tcp_bytes h) = 20 + length (padded_options h)"
  by (simp add: tcp_bytes_def)

lemma with_offset_simps [simp]:
  "tcp_SrcPort (with_offset h) = tcp_SrcPort h" "tcp_DstPort (with_offset h) = tcp_DstPort h"
  "tcp_SeqNum (with_offset h) = tcp_SeqNum h" "tcp_AckNum (with_offset h) = tcp_AckNum h"
  "tcp_Flags (with_offset h) = tcp_Flags h" "tcp_Window (with_offset h) = tcp_Window h"
  "tcp_Checksum (with_offset h) = tcp_Checksum h" "tcp_Urgent (with_offset h) = tcp_Urgent h"
  "tcp_Options (with_offset h) = tcp_Options h"
  by (simp_all add: with_offset_def)

lemma TcpMarshal_eq: "TcpMarshal h = Ok (with_offset h, tcp_bytes h)"
proof -
  let ?h = "with_offset h"
  have r: "replicate (20 + length (padded_options h)) (0 :: byte)
      = [0,0,0,0,0,0,0,0,0,0,0,0,0,0,0,0,0,0,0,0] @ replicate (length (padded_options h)) 0"
    using replicate_20 [of "20 + length (padded_options h)"] by simp
  have m: "run_stmts
     [buf_put16 0 (tcp_SrcPort ?h), buf_put16 2 (tcp_DstPort ?h),
      buf_put32 4 (tcp_SeqNum ?h), buf_put32 8 (tcp_AckNum ?h),
      buf_set 12 (push_bit 4 (tcp_DataOffset ?h)), buf_set 13 (tcp_Flags ?h),
      buf_put16 14 (tcp_Window ?h), buf_put16 16 (tcp_Checksum ?h),
      buf_put16 18 (tcp_Urgent ?h), buf_copy_from TcpMinHeaderLen (padded_options h)]
     (replicate (20 + length (padded_options h)) 0)
     = obind (Ok (tcp_fixed ?h @ replicate (length (padded_options h)) 0))
         (run_stmts [buf_copy_from 20 (padded_options h)])"
    unfolding r tcp_fixed_def TcpMinHeaderLen_def
    by (simp add: go_simps numeral_eq_Suc del: with_offset_simps)
  show ?thesis
    unfolding TcpMarshal_def Let_def padded_options_def [symmetric] TcpMinHeaderLen_def
      with_offset_def [symmetric] m [unfolded TcpMinHeaderLen_def]
    by (simp add: buf_copy_from_tail tcp_bytes_def)
qed

section \<open>Round trips\<close>

text \<open>
  A header is well formed when its options are and take at most 40 bytes, and its data offset
  is the one \<open>Marshal\<close> computes.
\<close>

definition options_wf :: "tcp_header \<Rightarrow> bool" where
  "options_wf h \<longleftrightarrow> list_all opt_wf (tcp_Options h) \<and> length (options_bytes (tcp_Options h)) \<le> 40"

definition tcp_wf :: "tcp_header \<Rightarrow> bool" where
  "tcp_wf h \<longleftrightarrow> options_wf h \<and> with_offset h = h"

lemma padded_options_cong [simp]:
  "padded_options (h\<lparr>tcp_DataOffset := d\<rparr>) = padded_options h"
  "padded_options (with_offset h) = padded_options h"
  by (simp_all add: padded_options_def)

lemma with_offset_idem [simp]: "with_offset (with_offset h) = with_offset h"
  by (simp add: with_offset_def)

lemma tcp_wf_with_offset: "options_wf h \<Longrightarrow> tcp_wf (with_offset h)"
  by (simp add: tcp_wf_def options_wf_def)

lemma options_wf_len: "options_wf h \<Longrightarrow> length (padded_options h) \<le> 40"
  by (simp add: options_wf_def padded_options_le)

lemma with_offset_value:
  assumes "length (padded_options h) \<le> 40"
  shows "unat (tcp_DataOffset (with_offset h)) * 4 = 20 + length (padded_options h)"
    and "unat (tcp_DataOffset (with_offset h)) < 16"
proof -
  have u: "unat (of_nat (20 + length (padded_options h)) :: byte) = 20 + length (padded_options h)"
    using assms by (simp add: unat_of_nat del: of_nat_add)
  have o: "unat (tcp_DataOffset (with_offset h)) = (20 + length (padded_options h)) div 4"
    by (simp add: with_offset_def unat_div u del: of_nat_add)
  have "4 dvd 20 + length (padded_options h)" using padded_options_dvd [of h] by (simp add: dvd_add)
  then show "unat (tcp_DataOffset (with_offset h)) * 4 = 20 + length (padded_options h)"
    by (simp only: o dvd_div_mult_self)
  then show "unat (tcp_DataOffset (with_offset h)) < 16" using assms by simp
qed

lemma nibble_push: "unat (b :: byte) < 16 \<Longrightarrow> drop_bit 4 (push_bit 4 b) = b"
  by (rule bit_word_eqI) (auto simp: bit_simps dest: bit_unat_less [of b 4, simplified])

lemma TcpParseHeader_tcp_bytes:
  assumes "options_wf h"
  shows "TcpParseHeader (tcp_bytes h @ payload) = Ok (with_offset h)"
proof -
  let ?h = "with_offset h" and ?o = "padded_options h"
  note l = options_wf_len [OF assms] and v = with_offset_value [OF options_wf_len [OF assms]]
  have d: "drop_bit 4 (push_bit 4 (tcp_DataOffset ?h)) = tcp_DataOffset ?h"
    using v(2) by (rule nibble_push)
  have five: "\<not> tcp_DataOffset ?h < 5" using v(1) by (simp add: word_less_nat_alt)
  have po: "ParseOptions ?o = Ok (tcp_Options h)"
    using assms parse_options_bytes [of "tcp_Options h"]
    by (simp add: ParseOptions_eq padded_options_def pad_options_eq options_wf_def)
  have ne: "?o = [] \<Longrightarrow> tcp_Options h = []" using po by (simp add: ParseOptions_eq)
  have raw: "tcp_bytes h @ payload =
     [ucast (drop_bit 8 (tcp_SrcPort h)), ucast (tcp_SrcPort h),
      ucast (drop_bit 8 (tcp_DstPort h)), ucast (tcp_DstPort h),
      ucast (drop_bit 24 (tcp_SeqNum h)), ucast (drop_bit 16 (tcp_SeqNum h)),
      ucast (drop_bit 8 (tcp_SeqNum h)), ucast (tcp_SeqNum h),
      ucast (drop_bit 24 (tcp_AckNum h)), ucast (drop_bit 16 (tcp_AckNum h)),
      ucast (drop_bit 8 (tcp_AckNum h)), ucast (tcp_AckNum h),
      push_bit 4 (tcp_DataOffset ?h), tcp_Flags h,
      ucast (drop_bit 8 (tcp_Window h)), ucast (tcp_Window h),
      ucast (drop_bit 8 (tcp_Checksum h)), ucast (tcp_Checksum h),
      ucast (drop_bit 8 (tcp_Urgent h)), ucast (tcp_Urgent h)] @ ?o @ payload"
    by (simp add: tcp_bytes_def tcp_fixed_def put_be16_def put_be32_def)
  define k where "k = length ?o"
  have k: "unat (tcp_DataOffset ?h) * 4 = 20 + k" using v(1) by (simp add: k_def)
  show ?thesis
    unfolding TcpParseHeader_def raw
    using five ne
    by (cases "?o = []")
      (simp_all add: TcpMinHeaderLen_def get16_def get32_def d k Let_def k_def po)
qed

interpretation tcph: framed_codec "\<lambda>h. obind (TcpMarshal h) (\<lambda>(h, bs). Ok bs)" TcpParseHeader tcp_wf
proof
  have e: "TcpParseHeader (bs @ payload) = Ok h"
    if "tcp_wf h" "obind (TcpMarshal h) (\<lambda>(h, bs). Ok bs) = Ok bs" for h bs payload
    using that TcpParseHeader_tcp_bytes [of h payload] by (simp add: TcpMarshal_eq tcp_wf_def)
  show "\<exists>bs. obind (TcpMarshal h) (\<lambda>(h, bs). Ok bs) = Ok bs" if "tcp_wf h" for h
    by (simp add: TcpMarshal_eq)
  show "TcpParseHeader bs = Ok h"
    if "tcp_wf h" "obind (TcpMarshal h) (\<lambda>(h, bs). Ok bs) = Ok bs" for h bs
    using e [OF that, of "[]"] by simp
  show "TcpParseHeader (bs @ payload) = Ok h"
    if "tcp_wf h" "obind (TcpMarshal h) (\<lambda>(h, bs). Ok bs) = Ok bs" for h bs payload
    using that by (rule e)
qed

text \<open>What the parser guarantees: options that can be written again, in no more bytes.\<close>

lemma parse_opts_len: "parse_opts data = Ok os \<Longrightarrow> length (options_bytes os) \<le> length data"
proof (induction data arbitrary: os rule: parse_opts.induct)
  case (2 kind bs)
  show ?case
  proof (cases "kind = OptEndOfList \<or> kind = OptNOP")
    case True
    then show ?thesis
      using 2 by (auto simp: parse_opts.simps obind_Ok_iff OptNOP_def OptEndOfList_def split: if_splits)
  next
    case False
    then obtain len bs' rest where b: "bs = len # bs'" "\<not> len < 2" "\<not> 2 + length bs' < unat len"
      and r: "parse_opts (drop (unat len - 2) bs') = Ok rest"
        "os = \<lparr>opt_Kind = kind, opt_Length = len, opt_Data = take (unat len - 2) bs'\<rparr> # rest"
      using 2(3) by (auto simp: parse_opts.simps obind_Ok_iff split: list.splits if_splits)
    have "length (options_bytes rest) \<le> length (drop (unat len - 2) bs')" using 2(2) False b r(1) by blast
    moreover have "2 \<le> unat len" using b(2) by (simp add: word_less_nat_alt)
    ultimately show ?thesis using False b(3) by (simp add: r(2) b(1))
  qed
qed simp

lemma parse_opts_no_panic: "parse_opts data \<noteq> Panic"
proof (induction data rule: parse_opts.induct)
  case (2 kind bs)
  then show ?case by (auto simp: parse_opts.simps obind_Panic_iff split: list.splits)
qed simp

lemma drop_4_byte: "unat (drop_bit 4 (b :: byte)) < 16"
proof -
  have "unat (drop_bit 4 b) = unat b div 16"
    by (simp only: unat_drop_bit_eq) (simp add: drop_bit_eq_div)
  then show ?thesis using unat_byte_less [of b] by simp
qed

lemma TcpParseHeader_OkD:
  assumes "TcpParseHeader raw = Ok h"
  shows "options_wf h" "20 \<le> TcpHeaderLen h" "TcpHeaderLen h \<le> length raw" "TcpHeaderLen h \<le> 60"
    "length (padded_options h) + 20 \<le> TcpHeaderLen h"
proof -
  have d: "tcp_DataOffset h = drop_bit 4 (raw ! 12)" and five: "\<not> tcp_DataOffset h < 5"
    and len: "TcpHeaderLen h \<le> length raw"
    and o: "(\<exists>os. tcp_Options h = os \<and> ParseOptions (take (TcpHeaderLen h - 20) (drop 20 raw)) = Ok os)
      \<or> tcp_Options h = []"
    using assms
    by (auto simp: TcpParseHeader_def Let_def obind_Ok_iff TcpHeaderLen_def not_less split: if_splits)
  have u: "5 \<le> unat (tcp_DataOffset h)" using five by (simp add: word_less_nat_alt)
  show len20: "20 \<le> TcpHeaderLen h" using u by (simp add: TcpHeaderLen_def)
  show "TcpHeaderLen h \<le> length raw" by (rule len)
  show l60: "TcpHeaderLen h \<le> 60" using drop_4_byte [of "raw ! 12"] by (simp add: TcpHeaderLen_def d)
  have w: "list_all opt_wf (tcp_Options h) \<and> length (options_bytes (tcp_Options h)) \<le> TcpHeaderLen h - 20"
    using o parse_opts_wf parse_opts_len by (fastforce simp: ParseOptions_eq)
  moreover have "TcpHeaderLen h - 20 \<le> 40" using l60 by simp
  ultimately show "options_wf h" by (auto simp: options_wf_def intro: order_trans)
  have "4 dvd TcpHeaderLen h - 20" by (simp add: TcpHeaderLen_def dvd_diff_nat)
  then have "length (padded_options h) \<le> TcpHeaderLen h - 20"
    using w padded_options_le [of "TcpHeaderLen h - 20" h] by blast
  then show "length (padded_options h) + 20 \<le> TcpHeaderLen h" using len20 by linarith
qed

lemma TcpParseHeader_no_panic: "TcpParseHeader raw \<noteq> Panic"
  by (simp add: TcpParseHeader_def Let_def obind_Panic_iff ParseOptions_eq parse_opts_no_panic)

section \<open>The checksum calculator\<close>

lemma put_field_update:
  assumes "18 \<le> length d"
  shows "put_field 16 v d = d[16 := put_be16 v ! 0, 17 := put_be16 v ! 1]"
proof -
  have "drop 16 d = d ! 16 # d ! 17 # drop 18 d"
    using Cons_nth_drop_Suc [of 16 d] Cons_nth_drop_Suc [of 17 d] assms by simp
  then have "d = take 16 d @ d ! 16 # d ! 17 # drop 18 d" by (metis append_take_drop_id)
  moreover have "length (take 16 d) = 16" using assms by simp
  ultimately obtain xs a b ys where d: "d = xs @ a # b # ys" "length xs = 16" by blast
  then show ?thesis
    by (simp add: put_field_def put_be16_def list_update_append)
qed

lemma SetAndCompute_eq:
  assumes "20 \<le> length d"
  shows "SetAndCompute c d = put_field 16 (Compute c (put_field 16 0 d)) (put_field 16 0 d)"
proof -
  have z: "d[16 := 0, 17 := 0] = put_field 16 0 d"
    using assms put_field_update [of d 0] by (simp add: put_be16_def)
  have "length (put_field 16 0 d) = length d" using assms by simp
  then show ?thesis
    using assms put_field_update [of "put_field 16 0 d"]
    by (simp add: SetAndCompute_def TcpMinHeaderLen_def Let_def z)
qed

lemma get16_put_field: "p + 2 \<le> length d \<Longrightarrow> get16 (put_field p v d) p = v"
  by (simp add: get16_def put_field_def put_be16_def nth_append)

lemma SetAndCompute_verifies:
  assumes "20 \<le> length d" "length d \<le> 65535"
  shows "Verify c (SetAndCompute c d)"
proof -
  have "TCPChecksum (cc_src c) (cc_dst c)
      (put_field 16 (TCPChecksum (cc_src c) (cc_dst c) (put_field 16 0 d)) (put_field 16 0 d)) = 0"
    using assms by (intro tcpck.seal_verifies) (simp_all add: get16_put_field)
  then show ?thesis using assms(1) by (simp add: Verify_def SetAndCompute_eq Compute_def)
qed

lemma put_field_twice: "p + 2 \<le> length d \<Longrightarrow> put_field p v (put_field p w d) = put_field p v d"
  by (simp add: put_field_def min_def)

lemma length_SetAndCompute [simp]: "length (SetAndCompute c d) = length d"
  by (simp add: SetAndCompute_def Let_def)

lemma put_field_tcp_bytes:
  "put_field 16 v (tcp_bytes h @ payload) = tcp_bytes (h\<lparr>tcp_Checksum := v\<rparr>) @ payload"
  by (simp add: put_field_def tcp_bytes_def tcp_fixed_def put_be16_def put_be32_def with_offset_def
      padded_options_def numeral_eq_Suc)

text \<open>The checksum of a serialized segment is set in its header field.\<close>

lemma SetAndCompute_segment:
  "SetAndCompute c (tcp_bytes h @ payload) =
   tcp_bytes (h\<lparr>tcp_Checksum := Compute c (tcp_bytes (h\<lparr>tcp_Checksum := 0\<rparr>) @ payload)\<rparr>) @ payload"
  by (simp add: SetAndCompute_eq length_tcp_bytes put_field_tcp_bytes)

section \<open>Properties\<close>

text \<open>
  Property C19. Every header whose options are well formed and take at most 40 bytes is written
  and, in front of any payload, parsed back: with the data offset \<open>Marshal\<close> set, and all its
  other fields and options as they were.
\<close>

theorem TcpParse_of_Marshal:
  assumes "list_all opt_wf (tcp_Options h)" "length (options_bytes (tcp_Options h)) \<le> 40"
  shows "\<exists>h' bs. TcpMarshal h = Ok (h', bs) \<and> TcpParseHeader (bs @ payload) = Ok h'
    \<and> h' = h\<lparr>tcp_DataOffset := tcp_DataOffset h'\<rparr> \<and> TcpHeaderLen h' = length bs"
proof -
  have w: "options_wf h" using assms by (simp add: options_wf_def)
  have "obind (TcpMarshal (with_offset h)) (\<lambda>(h, bs). Ok bs) = Ok (tcp_bytes h)"
    by (simp add: TcpMarshal_eq tcp_bytes_def)
  from tcph.parse_append [OF tcp_wf_with_offset [OF w] this, of payload]
  show ?thesis
    using with_offset_value(1) [OF options_wf_len [OF w]]
    by (auto simp: TcpMarshal_eq TcpHeaderLen_def length_tcp_bytes with_offset_def)
qed

definition syn_header :: tcp_header where
  "syn_header = \<lparr>tcp_SrcPort = 49153, tcp_DstPort = 80, tcp_SeqNum = 100, tcp_AckNum = 0,
     tcp_DataOffset = 0, tcp_Flags = 2, tcp_Window = 65535, tcp_Checksum = 0, tcp_Urgent = 0,
     tcp_Options = [\<lparr>opt_Kind = 2, opt_Length = 4, opt_Data = [5, 180]\<rparr>,
                    \<lparr>opt_Kind = 1, opt_Length = 0, opt_Data = []\<rparr>]\<rparr>"

theorem TcpParse_of_Marshal_witness:
  "\<exists>h' bs. TcpMarshal syn_header = Ok (h', bs) \<and> TcpParseHeader (bs @ [7]) = Ok h' \<and> length bs = 28"
proof -
  have "list_all opt_wf (tcp_Options syn_header)" "length (options_bytes (tcp_Options syn_header)) \<le> 40"
    by code_simp+
  from TcpParse_of_Marshal [OF this, of "[7]"] obtain h' bs where
    r: "TcpMarshal syn_header = Ok (h', bs)" "TcpParseHeader (bs @ [7]) = Ok h'" by blast
  moreover have "length (snd (with_offset syn_header, tcp_bytes syn_header)) = 28" by code_simp
  ultimately show ?thesis by (simp add: TcpMarshal_eq)
qed

text \<open>
  A parsed header can be written again, in at most as many bytes, and what is
  written parses to the same fields and options: parsing and writing only drop the bytes behind
  an end-of-list option and the reserved bits.
\<close>

theorem TcpMarshal_of_Parse:
  assumes "TcpParseHeader raw = Ok h"
  shows "\<exists>h' bs. TcpMarshal h = Ok (h', bs) \<and> length bs \<le> TcpHeaderLen h
    \<and> TcpParseHeader bs = Ok h' \<and> h = h'\<lparr>tcp_DataOffset := tcp_DataOffset h\<rparr>"
  using TcpParseHeader_OkD(1,5) [OF assms] TcpParseHeader_tcp_bytes [of h "[]"]
  by (simp add: TcpMarshal_eq length_tcp_bytes add.commute with_offset_def)

theorem TcpMarshal_of_Parse_witness:
  "\<exists>h h' bs. TcpParseHeader [0, 1, 0, 2, 0, 0, 0, 3, 0, 0, 0, 4, 0x7F, 0x18, 0, 5, 0, 6, 0, 7, 0, 9, 9, 9, 9, 9, 9, 9]
      = Ok h \<and> TcpMarshal h = Ok (h', bs) \<and> length bs \<le> 28 \<and> TcpParseHeader bs = Ok h'"
proof -
  define raw where "raw = [0, 1, 0, 2, 0, 0, 0, 3, 0, 0, 0, 4, 0x7F, 0x18, 0, 5, 0, 6, 0, 7, 0, 9, 9, 9, 9, 9, 9, 9 :: byte]"
  define h where "h = \<lparr>tcp_SrcPort = 1, tcp_DstPort = 2, tcp_SeqNum = 3, tcp_AckNum = 4,
     tcp_DataOffset = 7, tcp_Flags = 0x18, tcp_Window = 5, tcp_Checksum = 6, tcp_Urgent = 7,
     tcp_Options = []\<rparr>"
  have p: "TcpParseHeader raw = Ok h" unfolding raw_def h_def by code_simp
  have "TcpHeaderLen h = 28" by (simp add: TcpHeaderLen_def h_def)
  with TcpMarshal_of_Parse [OF p] show ?thesis unfolding raw_def [symmetric] using p by auto
qed

text \<open>
  \<open>Marshal\<close> does not refuse options of more than 40 bytes: it returns a segment
  whose own data offset field cannot cover its header, so that every parse of it, with any
  payload, fails or ends the header too early.
\<close>

theorem TcpMarshal_overlong:
  assumes "40 < length (options_bytes (tcp_Options h))"
  shows "\<exists>h' bs. TcpMarshal h = Ok (h', bs) \<and> 60 < length bs
    \<and> (\<forall>payload g. TcpParseHeader (bs @ payload) = Ok g \<longrightarrow> TcpHeaderLen g < length bs)"
proof -
  have "60 < length (tcp_bytes h)"
    using assms padded_options_le [of 40 h] by (simp add: length_tcp_bytes)
  moreover have "TcpHeaderLen g < length (tcp_bytes h)" if "TcpParseHeader (tcp_bytes h @ payload) = Ok g"
    for payload g using TcpParseHeader_OkD(4) [OF that] calculation by simp
  ultimately show ?thesis by (auto simp: TcpMarshal_eq)
qed

theorem TcpMarshal_overlong_witness:
  "\<exists>h' bs. TcpMarshal (syn_header\<lparr>tcp_Options := [\<lparr>opt_Kind = 30, opt_Length = 42, opt_Data = replicate 40 0\<rparr>]\<rparr>)
     = Ok (h', bs) \<and> 60 < length bs"
  using TcpMarshal_overlong [of "syn_header\<lparr>tcp_Options := [\<lparr>opt_Kind = 30, opt_Length = 42, opt_Data = replicate 40 0\<rparr>]\<rparr>"]
  by (auto simp: OptEndOfList_def OptNOP_def)

text \<open>
  \<open>SetAndCompute\<close> makes every segment of 20 to 65535 bytes verify, changes nothing
  but the checksum field of it, and leaves a shorter one alone.
\<close>

theorem SetAndCompute_correct:
  "(20 \<le> length seg \<longrightarrow> length seg \<le> 65535 \<longrightarrow> Verify c (SetAndCompute c seg))
   \<and> length (SetAndCompute c seg) = length seg
   \<and> (\<forall>i. i \<noteq> 16 \<and> i \<noteq> 17 \<longrightarrow> SetAndCompute c seg ! i = seg ! i)
   \<and> (length seg < 20 \<longrightarrow> SetAndCompute c seg = seg)"
  using SetAndCompute_verifies [of seg c]
  by (simp add: SetAndCompute_def Let_def TcpMinHeaderLen_def)

theorem SetAndCompute_correct_witness:
  "Verify (NewChecksumCalculator [10, 0, 0, 1] [10, 0, 0, 2])
     (SetAndCompute (NewChecksumCalculator [10, 0, 0, 1] [10, 0, 0, 2]) (replicate 23 7))"
  using SetAndCompute_correct [of "replicate 23 7" "NewChecksumCalculator [10, 0, 0, 1] [10, 0, 0, 2]"] by simp

text \<open>
  Property C24. The index loop of \<open>ParseOptions\<close> is the parser that consumes the bytes: it
  returns on every input, never panics, and every option it returns is well formed.
\<close>

theorem ParseOptions_correct:
  "ParseOptions data = parse_opts data \<and> ParseOptions data \<noteq> Panic
   \<and> (\<forall>os. ParseOptions data = Ok os \<longrightarrow>
        list_all opt_wf os \<and> length (options_bytes os) \<le> length data)"
  using parse_opts_no_panic [of data] parse_opts_wf parse_opts_len by (simp add: ParseOptions_eq)

theorem ParseOptions_correct_witness:
  "\<exists>os. ParseOptions [1, 2, 4, 5, 180, 0, 99] = Ok os \<and> list_all opt_wf os"
proof -
  have "ParseOptions [1, 2, 4, 5, 180, 0, 99] = Ok [\<lparr>opt_Kind = 1, opt_Length = 0, opt_Data = []\<rparr>,
     \<lparr>opt_Kind = 2, opt_Length = 4, opt_Data = [5, 180]\<rparr>]" by code_simp
  then show ?thesis using ParseOptions_correct [of "[1, 2, 4, 5, 180, 0, 99]"] by auto
qed

end
