(* ===== verification/Tcp_State.thy ===== *)
theory Tcp_State
  imports Go_Prelude
begin

text \<open>
  \<^verbatim>\<open>internal/tcp/state.go\<close>: the connection states, the table of valid transitions and the
  state machine, whose callback is modelled by the list of calls made to it. The specification
  is the state diagram of RFC 793 as a relation labelled with events; the lemmas show that the
  table is that diagram and what follows for sequences of transitions.
\<close>

section \<open>The code\<close>

text \<open>
  \<open>State\<close> is a \<open>uint8\<close> of which the program uses the eleven named values; \<open>String\<close> is given on
  all values.
\<close>

datatype tcp_state =
    StateClosed | StateListen | StateSynSent | StateSynReceived | StateEstablished
  | StateFinWait1 | StateFinWait2 | StateCloseWait | StateClosing | StateLastAck | StateTimeWait

fun state_code :: "tcp_state \<Rightarrow> nat" where
  "state_code StateClosed = 0"
| "state_code StateListen = 1"
| "state_code StateSynSent = 2"
| "state_code StateSynReceived = 3"
| "state_code StateEstablished = 4"
| "state_code StateFinWait1 = 5"
| "state_code StateFinWait2 = 6"
| "state_code StateCloseWait = 7"
| "state_code StateClosing = 8"
| "state_code StateLastAck = 9"
| "state_code StateTimeWait = 10"

lemma state_code_inject [simp]: "state_code s = state_code t \<longleftrightarrow> s = t"
  by (cases s; cases t; simp)

text \<open>The order and the enumeration of the states, by their codes.\<close>

instantiation tcp_state :: linorder
begin

definition less_eq_tcp_state :: "tcp_state \<Rightarrow> tcp_state \<Rightarrow> bool" where
  "less_eq_tcp_state s t \<longleftrightarrow> state_code s \<le> state_code t"

definition less_tcp_state :: "tcp_state \<Rightarrow> tcp_state \<Rightarrow> bool" where
  "less_tcp_state s t \<longleftrightarrow> state_code s < state_code t"

instance
  by standard (auto simp: less_eq_tcp_state_def less_tcp_state_def)

end

instantiation tcp_state :: enum
begin

definition enum_tcp_state :: "tcp_state list" where
  "enum_tcp_state = [StateClosed, StateListen, StateSynSent, StateSynReceived, StateEstablished,
     StateFinWait1, StateFinWait2, StateCloseWait, StateClosing, StateLastAck, StateTimeWait]"

definition enum_all_tcp_state :: "(tcp_state \<Rightarrow> bool) \<Rightarrow> bool" where
  "enum_all_tcp_state P \<longleftrightarrow> list_all P enum_class.enum"

definition enum_ex_tcp_state :: "(tcp_state \<Rightarrow> bool) \<Rightarrow> bool" where
  "enum_ex_tcp_state P \<longleftrightarrow> list_ex P enum_class.enum"

instance
proof
  show u: "(UNIV :: tcp_state set) = set enum_class.enum"
    unfolding enum_tcp_state_def by (auto intro: tcp_state.exhaust)
  show "distinct (enum_class.enum :: tcp_state list)" by (simp add: enum_tcp_state_def)
  show "enum_class.enum_all P \<longleftrightarrow> Ball UNIV P" for P :: "tcp_state \<Rightarrow> bool"
    using u unfolding enum_all_tcp_state_def by (simp add: list_all_iff)
  show "enum_class.enum_ex P \<longleftrightarrow> Bex UNIV P" for P :: "tcp_state \<Rightarrow> bool"
    using u unfolding enum_ex_tcp_state_def by (simp add: list_ex_iff)
qed

end

fun state_name :: "tcp_state \<Rightarrow> string" where
  "state_name StateClosed = ''CLOSED''"
| "state_name StateListen = ''LISTEN''"
| "state_name StateSynSent = ''SYN_SENT''"
| "state_name StateSynReceived = ''SYN_RECEIVED''"
| "state_name StateEstablished = ''ESTABLISHED''"
| "state_name StateFinWait1 = ''FIN_WAIT_1''"
| "state_name StateFinWait2 = ''FIN_WAIT_2''"
| "state_name StateCloseWait = ''CLOSE_WAIT''"
| "state_name StateClosing = ''CLOSING''"
| "state_name StateLastAck = ''LAST_ACK''"
| "state_name StateTimeWait = ''TIME_WAIT''"

definition state_of_code :: "byte \<Rightarrow> tcp_state option" where
  "state_of_code b = find (\<lambda>s. state_code s = unat b) enum_class.enum"

definition StateString :: "byte \<Rightarrow> string" where
  "StateString b =
     (case state_of_code b of
        Some s \<Rightarrow> state_name s
      | None \<Rightarrow> ''UNKNOWN('' @ dec (unat b) @ '')'')"

fun validTransitions :: "tcp_state \<Rightarrow> tcp_state list" where
  "validTransitions StateClosed = [StateListen, StateSynSent]"
| "validTransitions StateListen = [StateSynReceived, StateSynSent, StateClosed]"
| "validTransitions StateSynSent = [StateSynReceived, StateEstablished, StateClosed]"
| "validTransitions StateSynReceived = [StateEstablished, StateFinWait1, StateClosed]"
| "validTransitions StateEstablished = [StateFinWait1, StateCloseWait, StateClosed]"
| "validTransitions StateFinWait1 = [StateFinWait2, StateClosing, StateTimeWait, StateClosed]"
| "validTransitions StateFinWait2 = [StateTimeWait, StateClosed]"
| "validTransitions StateCloseWait = [StateLastAck, StateClosed]"
| "validTransitions StateClosing = [StateTimeWait, StateClosed]"
| "validTransitions StateLastAck = [StateClosed]"
| "validTransitions StateTimeWait = [StateClosed]"

text \<open>The state machine; \<open>sm_onTransition\<close> says whether a callback is set.\<close>

record state_machine =
  sm_current :: tcp_state
  sm_onTransition :: bool

datatype transition_error = InvalidTransition tcp_state tcp_state

definition NewStateMachine :: "tcp_state \<Rightarrow> state_machine" where
  "NewStateMachine initial = \<lparr>sm_current = initial, sm_onTransition = False\<rparr>"

definition SetOnTransition :: "bool \<Rightarrow> state_machine \<Rightarrow> state_machine" where
  "SetOnTransition cb sm = sm\<lparr>sm_onTransition := cb\<rparr>"

text \<open>The search through the allowed states, which stops at the first match.\<close>

fun transition_valid :: "tcp_state \<Rightarrow> tcp_state list \<Rightarrow> bool" where
  "transition_valid to [] = False"
| "transition_valid to (state # allowed) = (if state = to then True else transition_valid to allowed)"

text \<open>The new machine, the calls of the callback, and the error.\<close>

definition Transition ::
  "tcp_state \<Rightarrow> state_machine \<Rightarrow> state_machine \<times> (tcp_state \<times> tcp_state) list \<times> transition_error option" where
  "Transition to sm =
     (let from = sm_current sm
      in if \<not> transition_valid to (validTransitions from) then (sm, [], Some (InvalidTransition from to))
      else (sm\<lparr>sm_current := to\<rparr>, (if sm_onTransition sm then [(from, to)] else []), None))"

definition Current :: "state_machine \<Rightarrow> tcp_state" where
  "Current sm = sm_current sm"

definition Is :: "tcp_state \<Rightarrow> state_machine \<Rightarrow> bool" where
  "Is s sm \<longleftrightarrow> sm_current sm = s"

text \<open>A sequence of attempts; the callback's calls are collected, failed attempts change nothing.\<close>

fun transitions :: "tcp_state list \<Rightarrow> state_machine \<Rightarrow> state_machine \<times> (tcp_state \<times> tcp_state) list" where
  "transitions [] sm = (sm, [])"
| "transitions (to # tos) sm =
     (case Transition to sm of (sm', calls, _) \<Rightarrow>
      case transitions tos sm' of (sm'', calls') \<Rightarrow> (sm'', calls @ calls'))"

section \<open>The state diagram\<close>

datatype tcp_event =
    PassiveOpen | ActiveOpen | Send | RcvSyn | RcvSynAck | RcvAckOfSyn | Close | RcvFin
  | RcvAckOfFin | RcvFinAck | Abort | Timeout

inductive rfc793 :: "tcp_state \<Rightarrow> tcp_event \<Rightarrow> tcp_state \<Rightarrow> bool" where
  "rfc793 StateClosed PassiveOpen StateListen"
| "rfc793 StateClosed ActiveOpen StateSynSent"
| "rfc793 StateListen RcvSyn StateSynReceived"
| "rfc793 StateListen Send StateSynSent"
| "rfc793 StateListen Close StateClosed"
| "rfc793 StateSynSent RcvSyn StateSynReceived"
| "rfc793 StateSynSent RcvSynAck StateEstablished"
| "rfc793 StateSynSent Close StateClosed"
| "rfc793 StateSynReceived RcvAckOfSyn StateEstablished"
| "rfc793 StateSynReceived Close StateFinWait1"
| "rfc793 StateEstablished Close StateFinWait1"
| "rfc793 StateEstablished RcvFin StateCloseWait"
| "rfc793 StateFinWait1 RcvAckOfFin StateFinWait2"
| "rfc793 StateFinWait1 RcvFin StateClosing"
| "rfc793 StateFinWait1 RcvFinAck StateTimeWait"
| "rfc793 StateFinWait2 RcvFin StateTimeWait"
| "rfc793 StateCloseWait Close StateLastAck"
| "rfc793 StateClosing RcvAckOfFin StateTimeWait"
| "rfc793 StateLastAck RcvAckOfFin StateClosed"
| "rfc793 StateTimeWait Timeout StateClosed"
| "s \<in> {StateSynReceived, StateEstablished, StateFinWait1, StateFinWait2, StateCloseWait, StateClosing}
   \<Longrightarrow> rfc793 s Abort StateClosed"

inductive_simps rfc793_simps: "rfc793 s e t"

lemma transition_valid_iff: "transition_valid to allowed \<longleftrightarrow> to \<in> set allowed"
  by (induction allowed) auto

lemma validTransitions_rfc: "t \<in> set (validTransitions s) \<longleftrightarrow> (\<exists>e. rfc793 s e t)"
  by (cases s; cases t; simp add: rfc793_simps)

lemma Transition_cases:
  "Transition t sm =
    (if \<exists>e. rfc793 (sm_current sm) e t
     then (sm\<lparr>sm_current := t\<rparr>, if sm_onTransition sm then [(sm_current sm, t)] else [], None)
     else (sm, [], Some (InvalidTransition (sm_current sm) t)))"
  by (simp add: Transition_def Let_def transition_valid_iff validTransitions_rfc)

lemma Transition_hook [simp]: "sm_onTransition (fst (Transition t sm)) = sm_onTransition sm"
  by (simp add: Transition_cases)

section \<open>Runs of the machine\<close>

text \<open>A path of the diagram, and its rank, which falls with every transition but those to CLOSED.\<close>

fun diagram_path :: "tcp_state \<Rightarrow> tcp_state list \<Rightarrow> bool" where
  "diagram_path s [] = True"
| "diagram_path s (t # ts) \<longleftrightarrow> (\<exists>e. rfc793 s e t) \<and> diagram_path t ts"

fun state_rank :: "tcp_state \<Rightarrow> nat" where
  "state_rank StateClosed = 7"
| "state_rank StateListen = 6"
| "state_rank StateSynSent = 5"
| "state_rank StateSynReceived = 4"
| "state_rank StateEstablished = 3"
| "state_rank StateFinWait1 = 2"
| "state_rank StateFinWait2 = 1"
| "state_rank StateCloseWait = 1"
| "state_rank StateClosing = 1"
| "state_rank StateLastAck = 0"
| "state_rank StateTimeWait = 0"

lemma rank_falls: "rfc793 s e t \<Longrightarrow> t \<noteq> StateClosed \<Longrightarrow> state_rank t < state_rank s"
  by (cases rule: rfc793.cases) auto

lemma path_short: "diagram_path s ts \<Longrightarrow> StateClosed \<notin> set ts \<Longrightarrow> length ts \<le> state_rank s"
proof (induction ts arbitrary: s)
  case (Cons t ts)
  then show ?case using rank_falls [of s _ t] by fastforce
qed simp

lemma established_enabled: "rfc793 s e StateEstablished \<Longrightarrow> s = StateSynSent \<or> s = StateSynReceived"
  by (cases rule: rfc793.cases) auto

text \<open>The calls of the callback record the path the machine took.\<close>

lemma transitions_calls:
  "transitions tos sm = (sm', calls) \<Longrightarrow> sm_onTransition sm \<Longrightarrow>
   diagram_path (sm_current sm) (map snd calls)
   \<and> map fst calls = butlast (sm_current sm # map snd calls)
   \<and> sm_current sm' = last (sm_current sm # map snd calls)"
proof (induction tos arbitrary: sm calls)
  case (Cons t tos)
  obtain sm1 c1 err where t: "Transition t sm = (sm1, c1, err)" by (metis prod_cases3)
  obtain c2 where r: "transitions tos sm1 = (sm', c2)" "calls = c1 @ c2"
    using Cons.prems(1) by (auto simp: t split: prod.splits)
  have h: "sm_onTransition sm1" using Transition_hook [of t sm] Cons.prems(2) by (simp add: t)
  note IH = Cons.IH [OF r(1) h]
  show ?case
  proof (cases "\<exists>e. rfc793 (sm_current sm) e t")
    case True
    then have "sm1 = sm\<lparr>sm_current := t\<rparr>" "c1 = [(sm_current sm, t)]"
      using t Cons.prems(2) by (simp_all add: Transition_cases)
    then show ?thesis using IH True by (simp add: r(2))
  next
    case False
    then have "sm1 = sm" "c1 = []" using t by (simp_all add: Transition_cases)
    then show ?thesis using IH by (simp add: r(2))
  qed
qed simp

section \<open>Properties\<close>

text \<open>
  Property C20. The state machine implements the state diagram of RFC 793: an attempt succeeds
  exactly when the diagram has an edge for some event, then moves and reports the edge to the
  callback once, and otherwise names both states in the error and changes nothing.
\<close>

theorem Transition_refines_rfc793:
  "case Transition t sm of (sm', calls, err) \<Rightarrow>
     (err = None \<longleftrightarrow> (\<exists>e. rfc793 (Current sm) e t))
     \<and> (err = None \<longrightarrow> sm' = sm\<lparr>sm_current := t\<rparr>
          \<and> calls = (if sm_onTransition sm then [(Current sm, t)] else []))
     \<and> (err \<noteq> None \<longrightarrow> sm' = sm \<and> calls = [] \<and> err = Some (InvalidTransition (Current sm) t))"
  by (simp add: Transition_cases Current_def)

theorem Transition_refines_rfc793_witness:
  "Transition StateEstablished (NewStateMachine StateSynSent)
     = (NewStateMachine StateEstablished, [], None)
   \<and> Transition StateEstablished (NewStateMachine StateListen)
     = (NewStateMachine StateListen, [], Some (InvalidTransition StateListen StateEstablished))"
proof
  show "Transition StateEstablished (NewStateMachine StateSynSent) = (NewStateMachine StateEstablished, [], None)"
    using Transition_refines_rfc793 [where t = StateEstablished and sm = "NewStateMachine StateSynSent"] rfc793.intros(7)
    by (auto simp: Current_def NewStateMachine_def split: prod.splits)
  show "Transition StateEstablished (NewStateMachine StateListen)
     = (NewStateMachine StateListen, [], Some (InvalidTransition StateListen StateEstablished))"
    using Transition_refines_rfc793 [where t = StateEstablished and sm = "NewStateMachine StateListen"]
    by (auto simp: Current_def NewStateMachine_def rfc793_simps split: prod.splits)
qed

text \<open>
  Along any sequence of attempted transitions, the callback sees a path of the
  state diagram that starts at the initial state and ends at the current one; between two
  visits of CLOSED the path has at most 7 transitions, and it enters ESTABLISHED only from
  SYN_SENT or SYN_RECEIVED.
\<close>

theorem transitions_path:
  assumes "transitions tos sm = (sm', calls)" "sm_onTransition sm"
  shows "map fst calls = butlast (sm_current sm # map snd calls)
    \<and> Current sm' = last (Current sm # map snd calls)
    \<and> (\<forall>(from, to) \<in> set calls. \<exists>e. rfc793 from e to)
    \<and> (StateClosed \<notin> snd ` set calls \<longrightarrow> length calls \<le> 7)
    \<and> (\<forall>from. (from, StateEstablished) \<in> set calls \<longrightarrow> from = StateSynSent \<or> from = StateSynReceived)"
proof -
  note p = transitions_calls [OF assms]
  have rank: "state_rank (sm_current sm) \<le> 7" by (cases "sm_current sm") auto
  have edges: "diagram_path s (map snd cs) \<Longrightarrow> map fst cs = butlast (s # map snd cs) \<Longrightarrow>
      \<forall>(from, to) \<in> set cs. \<exists>e. rfc793 from e to" for s and cs :: "(tcp_state \<times> tcp_state) list"
    by (induction cs arbitrary: s) (auto split: if_splits)
  have e: "\<forall>(from, to) \<in> set calls. \<exists>e. rfc793 from e to" using p by (intro edges) auto
  moreover have "StateClosed \<notin> snd ` set calls \<longrightarrow> length calls \<le> 7"
    using p path_short [of "sm_current sm" "map snd calls"] rank by fastforce
  moreover have "\<forall>from. (from, StateEstablished) \<in> set calls \<longrightarrow> from = StateSynSent \<or> from = StateSynReceived"
    using e established_enabled by fastforce
  ultimately show ?thesis using p by (simp add: Current_def)
qed

theorem transitions_path_witness:
  "\<exists>sm' calls. transitions [StateSynSent, StateListen, StateEstablished, StateFinWait1]
      (SetOnTransition True (NewStateMachine StateClosed)) = (sm', calls)
    \<and> length calls = 3 \<and> Current sm' = StateFinWait1"
proof -
  let ?sm = "SetOnTransition True (NewStateMachine StateClosed)"
  define r where "r = transitions [StateSynSent, StateListen, StateEstablished, StateFinWait1] ?sm"
  have c: "snd r = [(StateClosed, StateSynSent), (StateSynSent, StateEstablished), (StateEstablished, StateFinWait1)]"
    unfolding r_def by code_simp
  have "transitions [StateSynSent, StateListen, StateEstablished, StateFinWait1] ?sm = (fst r, snd r)"
    by (simp add: r_def)
  from transitions_path [OF this] have "Current (fst r) = StateFinWait1"
    using c by (simp add: SetOnTransition_def)
  then show ?thesis unfolding r_def [symmetric] using c by (cases r) simp
qed

text \<open>
  Once a connection starts to close, by \<open>Close\<close>, by a FIN or by an abort, no
  transition leads back to ESTABLISHED without passing CLOSED.
\<close>

theorem closing_is_final:
  assumes "transitions tos sm = (sm', calls)" "sm_onTransition sm"
    and "StateFinWait1 \<le> Current sm" "StateClosed \<notin> snd ` set calls"
  shows "StateFinWait1 \<le> Current sm' \<and> length calls \<le> 2"
proof -
  note p = transitions_calls [OF assms(1,2)]
  have step: "StateFinWait1 \<le> s \<Longrightarrow> rfc793 s e t \<Longrightarrow> t \<noteq> StateClosed \<Longrightarrow> StateFinWait1 \<le> t" for s e t
    by (erule rfc793.cases) (auto simp: less_eq_tcp_state_def)
  have "diagram_path s ts \<Longrightarrow> StateFinWait1 \<le> s \<Longrightarrow> StateClosed \<notin> set ts \<Longrightarrow>
      StateFinWait1 \<le> last (s # ts)" for s ts
  proof (induction ts arbitrary: s)
    case (Cons t ts)
    then obtain e where "rfc793 s e t" by auto
    then have "StateFinWait1 \<le> t" using Cons.prems by (intro step [of s e t]) auto
    with Cons.prems Cons.IH [of t] show ?case by simp
  qed simp
  from this [of "sm_current sm" "map snd calls"] have "StateFinWait1 \<le> Current sm'"
    using p assms(3,4) unfolding Current_def set_map by presburger
  moreover have "state_rank (sm_current sm) \<le> 2"
    using assms(3) by (cases "sm_current sm") (auto simp: less_eq_tcp_state_def Current_def)
  then have "length calls \<le> 2"
    using p path_short [of "sm_current sm" "map snd calls"] assms(4) by fastforce
  ultimately show ?thesis by blast
qed

theorem closing_is_final_witness:
  "StateFinWait1 \<le> Current (fst (transitions [StateFinWait2, StateEstablished, StateTimeWait]
     (SetOnTransition True (NewStateMachine StateFinWait1))))"
proof -
  let ?sm = "SetOnTransition True (NewStateMachine StateFinWait1)"
  define r where "r = transitions [StateFinWait2, StateEstablished, StateTimeWait] ?sm"
  have c: "snd r = [(StateFinWait1, StateFinWait2), (StateFinWait2, StateTimeWait)]"
    unfolding r_def by code_simp
  have "transitions [StateFinWait2, StateEstablished, StateTimeWait] ?sm = (fst r, snd r)"
    by (simp add: r_def)
  from closing_is_final [OF this] show ?thesis
    unfolding r_def [symmetric] using c by (simp add: SetOnTransition_def NewStateMachine_def Current_def)
qed

end
