(* ===== verification/Tcp_Conn.thy ===== *)
theory Tcp_Conn
  imports Tcp_Header Tcp_State
begin

text \<open>
  \<^verbatim>\<open>internal/tcp/conn.go\<close>: the transmission control block of a connection and the operations
  the handshake is made of. The output function of a connection is an argument that maps a
  segment to the error it returns; an operation returns the new connection, the segments it
  passed to the output function, and its error. The sources of randomness and time of
  \<open>GenerateISN\<close> are arguments too.
\<close>

section \<open>The code\<close>

definition DefaultMSS :: "16 word" where "DefaultMSS = 1460"
definition DefaultWindow :: "16 word" where "DefaultWindow = 65535"

record conn_key =
  ck_SrcIP :: bytes
  ck_SrcPort :: "16 word"
  ck_DstIP :: bytes
  ck_DstPort :: "16 word"

record tcp_conn =
  conn_key :: conn_key
  conn_state :: state_machine
  sndISN :: "32 word"
  sndNXT :: "32 word"
  sndUNA :: "32 word"
  sndWND :: "16 word"
  rcvNXT :: "32 word"
  rcvWND :: "16 word"
  conn_mss :: "16 word"

text \<open>
  The errors of the handlers; \<open>SendSYN\<close> and \<open>SendSYNACK\<close> are the wrapped errors of the two
  sends, \<open>OutputError\<close> an error of the output function.
\<close>

datatype 'e conn_error =
    ErrUnexpectedSegment
  | ErrBadAck
  | ErrTransition transition_error
  | OutputError 'e
  | MarshalError tcp_error
  | MarshalPanic
  | SendSYN "'e conn_error"
  | SendSYNACK "'e conn_error"

type_synonym 'e segment_output = "bytes \<Rightarrow> 'e option"
type_synonym 'e handler_result = "tcp_conn \<times> bytes list \<times> 'e conn_error option"

definition NewTCPConn :: "conn_key \<Rightarrow> tcp_conn" where
  "NewTCPConn key =
     \<lparr>conn_key = key, conn_state = NewStateMachine StateClosed, sndISN = 0, sndNXT = 0, sndUNA = 0,
      sndWND = DefaultWindow, rcvNXT = 0, rcvWND = DefaultWindow, conn_mss = DefaultMSS\<rparr>"

definition conn_State :: "tcp_conn \<Rightarrow> tcp_state" where
  "conn_State c = Current (conn_state c)"

text \<open>
  \<open>GenerateISN\<close>: four random bytes plus the low 32 bits of the time in nanoseconds, or the time
  alone when the random source fails.
\<close>

definition GenerateISN :: "bytes option \<Rightarrow> int \<Rightarrow> 32 word" where
  "GenerateISN rnd now =
     (case rnd of None \<Rightarrow> of_int now | Some b \<Rightarrow> get32 b 0 + of_int now)"

definition checksumCalc :: "tcp_conn \<Rightarrow> checksum_calculator" where
  "checksumCalc c = NewChecksumCalculator (ck_SrcIP (conn_key c)) (ck_DstIP (conn_key c))"

definition conn_send :: "'e segment_output \<Rightarrow> tcp_conn \<Rightarrow> tcp_header \<Rightarrow> bytes \<Rightarrow> bytes list \<times> 'e conn_error option" where
  "conn_send emit c h payload =
     (case TcpMarshal h of
        Err e \<Rightarrow> ([], Some (MarshalError e))
      | Panic \<Rightarrow> ([], Some MarshalPanic)
      | Ok (_, segment) \<Rightarrow>
          (let segment = (if length payload > 0 then segment @ payload else segment);
               segment = SetAndCompute (checksumCalc c) segment
           in ([segment], map_option OutputError (emit segment))))"

definition newHeader :: "tcp_conn \<Rightarrow> byte \<Rightarrow> tcp_header" where
  "newHeader c flags =
     \<lparr>tcp_SrcPort = ck_SrcPort (conn_key c), tcp_DstPort = ck_DstPort (conn_key c), tcp_SeqNum = 0,
      tcp_AckNum = 0, tcp_DataOffset = 0, tcp_Flags = flags, tcp_Window = rcvWND c,
      tcp_Checksum = 0, tcp_Urgent = 0, tcp_Options = []\<rparr>"

definition sendACK :: "'e segment_output \<Rightarrow> tcp_conn \<Rightarrow> bytes list \<times> 'e conn_error option" where
  "sendACK emit c =
     (let h = (newHeader c FlagACK)\<lparr>tcp_SeqNum := sndNXT c, tcp_AckNum := rcvNXT c\<rparr>
      in conn_send emit c h [])"

definition mssOption :: "16 word \<Rightarrow> tcp_option" where
  "mssOption mss = \<lparr>opt_Kind = OptMSS, opt_Length = 4, opt_Data = put_be16 mss\<rparr>"

fun find_mss :: "tcp_option list \<Rightarrow> 16 word option" where
  "find_mss [] = None"
| "find_mss (opt # opts) =
     (if opt_Kind opt = OptMSS \<and> length (opt_Data opt) = 2 then Some (get16 (opt_Data opt) 0)
      else find_mss opts)"

definition parseMSS :: "tcp_header \<Rightarrow> 16 word option" where
  "parseMSS h = find_mss (tcp_Options h)"

definition negotiateMSS :: "tcp_header \<Rightarrow> tcp_conn \<Rightarrow> tcp_conn" where
  "negotiateMSS seg c =
     (case parseMSS seg of
        Some peerMSS \<Rightarrow>
          if peerMSS > 0 \<and> peerMSS < conn_mss c then c\<lparr>conn_mss := peerMSS\<rparr> else c
      | None \<Rightarrow> c)"

section \<open>Sending\<close>

lemma newHeader_simps [simp]:
  "tcp_SrcPort (newHeader c f) = ck_SrcPort (conn_key c)"
  "tcp_DstPort (newHeader c f) = ck_DstPort (conn_key c)"
  "tcp_SeqNum (newHeader c f) = 0" "tcp_AckNum (newHeader c f) = 0"
  "tcp_Flags (newHeader c f) = f" "tcp_Window (newHeader c f) = rcvWND c"
  "tcp_Options (newHeader c f) = []"
  by (simp_all add: newHeader_def)

text \<open>The header a segment with the header \<open>h\<close> arrives with: its checksum and offset are set.\<close>

definition received_header :: "tcp_conn \<Rightarrow> tcp_header \<Rightarrow> tcp_header" where
  "received_header c h =
     with_offset (h\<lparr>tcp_Checksum := Compute (checksumCalc c) (tcp_bytes (h\<lparr>tcp_Checksum := 0\<rparr>))\<rparr>)"

definition sent_segment :: "tcp_conn \<Rightarrow> tcp_header \<Rightarrow> bytes" where
  "sent_segment c h = SetAndCompute (checksumCalc c) (tcp_bytes h)"

lemma conn_send_eq:
  "conn_send emit c h [] = ([sent_segment c h], map_option OutputError (emit (sent_segment c h)))"
  by (simp add: conn_send_def TcpMarshal_eq sent_segment_def Let_def)

lemma received_header_simps [simp]:
  "tcp_SrcPort (received_header c h) = tcp_SrcPort h" "tcp_DstPort (received_header c h) = tcp_DstPort h"
  "tcp_SeqNum (received_header c h) = tcp_SeqNum h" "tcp_AckNum (received_header c h) = tcp_AckNum h"
  "tcp_Flags (received_header c h) = tcp_Flags h" "tcp_Window (received_header c h) = tcp_Window h"
  "tcp_Options (received_header c h) = tcp_Options h"
  by (simp_all add: received_header_def)

lemma sent_segment_parses:
  assumes "options_wf h"
  shows "TcpParseHeader (sent_segment c h) = Ok (received_header c h)"
    and "20 \<le> length (sent_segment c h)" "length (sent_segment c h) \<le> 60"
proof -
  have s: "sent_segment c h =
      tcp_bytes (h\<lparr>tcp_Checksum := Compute (checksumCalc c) (tcp_bytes (h\<lparr>tcp_Checksum := 0\<rparr>))\<rparr>)"
    using SetAndCompute_segment [of "checksumCalc c" h "[]"] by (simp add: sent_segment_def)
  have w: "options_wf (h\<lparr>tcp_Checksum := v\<rparr>)" for v using assms by (simp add: options_wf_def)
  show "TcpParseHeader (sent_segment c h) = Ok (received_header c h)"
    unfolding s received_header_def using TcpParseHeader_tcp_bytes [OF w, of _ "[]"] by simp
  show "20 \<le> length (sent_segment c h)" "length (sent_segment c h) \<le> 60"
    using options_wf_len [OF assms] by (simp_all add: sent_segment_def length_tcp_bytes)
qed

text \<open>The checksum of a segment is symmetric in the two addresses.\<close>

lemma pseudo_sum_commute:
  "to4 a \<noteq> None \<Longrightarrow> to4 b \<noteq> None \<Longrightarrow> pseudo_sum a b n = pseudo_sum b a n"
  by (auto simp: pseudo_sum_def)

lemma TCPChecksum_commute:
  assumes "length d \<le> 65535" "length a = 4" "length b = 4"
  shows "TCPChecksum a b d = TCPChecksum b a d"
  using assms pseudo_sum_commute [of a b "length d"]
  by (intro unsigned_word_eqI [where ?'a = nat]) (simp add: unat_TCPChecksum)

definition key_wf :: "conn_key \<Rightarrow> bool" where
  "key_wf k \<longleftrightarrow> length (ck_SrcIP k) = 4 \<and> length (ck_DstIP k) = 4"

definition swap_key :: "conn_key \<Rightarrow> conn_key" where
  "swap_key k = \<lparr>ck_SrcIP = ck_DstIP k, ck_SrcPort = ck_DstPort k, ck_DstIP = ck_SrcIP k, ck_DstPort = ck_SrcPort k\<rparr>"

lemma sent_segment_verifies:
  assumes "options_wf h" "key_wf (conn_key c)"
  shows "Verify (checksumCalc c) (sent_segment c h)"
    and "conn_key d = swap_key (conn_key c) \<Longrightarrow> Verify (checksumCalc d) (sent_segment c h)"
proof -
  note l = sent_segment_parses(2,3) [OF assms(1), of c]
  show v: "Verify (checksumCalc c) (sent_segment c h)"
    using SetAndCompute_verifies [of "tcp_bytes h" "checksumCalc c"] l
    by (simp add: sent_segment_def)
  assume "conn_key d = swap_key (conn_key c)"
  then show "Verify (checksumCalc d) (sent_segment c h)"
    using v assms(2) l(2) TCPChecksum_commute [of "sent_segment c h" "ck_SrcIP (conn_key c)" "ck_DstIP (conn_key c)"]
    by (simp add: Verify_def checksumCalc_def NewChecksumCalculator_def swap_key_def key_wf_def)
qed

lemma options_wf_mss: "options_wf (h\<lparr>tcp_Options := [mssOption m]\<rparr>)"
  by (simp add: options_wf_def opt_wf_def mssOption_def tcp_consts put_be16_def)

lemma options_wf_nil: "tcp_Options h = [] \<Longrightarrow> options_wf h"
  by (simp add: options_wf_def)

lemma find_mss_mssOption [simp]: "find_mss [mssOption m] = Some m"
  by (simp add: mssOption_def get16_def put_be16_def)

lemma negotiateMSS_simps [simp]:
  "conn_key (negotiateMSS seg c) = conn_key c" "conn_state (negotiateMSS seg c) = conn_state c"
  "sndISN (negotiateMSS seg c) = sndISN c" "sndNXT (negotiateMSS seg c) = sndNXT c"
  "sndUNA (negotiateMSS seg c) = sndUNA c" "sndWND (negotiateMSS seg c) = sndWND c"
  "rcvNXT (negotiateMSS seg c) = rcvNXT c" "rcvWND (negotiateMSS seg c) = rcvWND c"
  by (auto simp: negotiateMSS_def split: option.splits)

lemma negotiateMSS_mss:
  "conn_mss (negotiateMSS seg c) =
     (case parseMSS seg of Some m \<Rightarrow> if 0 < m then min m (conn_mss c) else conn_mss c | None \<Rightarrow> conn_mss c)"
  by (auto simp: negotiateMSS_def min_def split: option.splits)

text \<open>What \<open>send\<close> makes of a header and a payload.\<close>

lemma conn_send_segment:
  assumes "options_wf h" "length payload \<le> 65475" "key_wf (conn_key c)"
  shows "\<exists>seg h'. conn_send emit c h payload = ([seg], map_option OutputError (emit seg))
    \<and> TcpParseHeader seg = Ok h' \<and> drop (TcpHeaderLen h') seg = payload
    \<and> h = h'\<lparr>tcp_Checksum := tcp_Checksum h, tcp_DataOffset := tcp_DataOffset h\<rparr>
    \<and> Verify (NewChecksumCalculator (ck_SrcIP (conn_key c)) (ck_DstIP (conn_key c))) seg
    \<and> Verify (NewChecksumCalculator (ck_DstIP (conn_key c)) (ck_SrcIP (conn_key c))) seg"
proof -
  let ?c = "checksumCalc c" and ?d = "tcp_bytes h @ payload"
  define seg where "seg = SetAndCompute ?c ?d"
  define k where "k = h\<lparr>tcp_Checksum := Compute ?c (tcp_bytes (h\<lparr>tcp_Checksum := 0\<rparr>) @ payload)\<rparr>"
  have w: "options_wf k" using assms(1) by (simp add: k_def options_wf_def)
  have s: "seg = tcp_bytes k @ payload" by (simp add: seg_def SetAndCompute_segment k_def)
  have p: "TcpParseHeader seg = Ok (with_offset k)" unfolding s by (rule TcpParseHeader_tcp_bytes [OF w])
  have "TcpHeaderLen (with_offset k) = length (tcp_bytes k)"
    using with_offset_value(1) [OF options_wf_len [OF w]] by (simp add: TcpHeaderLen_def length_tcp_bytes)
  then have d: "drop (TcpHeaderLen (with_offset k)) seg = payload" by (simp add: s)
  have l: "20 \<le> length ?d" "length ?d \<le> 65535"
    using options_wf_len [OF assms(1)] assms(2) by (simp_all add: length_tcp_bytes)
  have v: "Verify ?c seg" unfolding seg_def using l by (rule SetAndCompute_verifies)
  have ls: "length seg \<le> 65535" using l by (simp add: seg_def)
  have "Verify (NewChecksumCalculator (ck_DstIP (conn_key c)) (ck_SrcIP (conn_key c))) seg"
    using v TCPChecksum_commute [OF ls, of "ck_SrcIP (conn_key c)" "ck_DstIP (conn_key c)"] assms(3)
    by (simp add: Verify_def checksumCalc_def NewChecksumCalculator_def key_wf_def)
  moreover have "conn_send emit c h payload = ([seg], map_option OutputError (emit seg))"
    by (simp add: conn_send_def TcpMarshal_eq Let_def seg_def)
  moreover have "h = with_offset k\<lparr>tcp_Checksum := tcp_Checksum h, tcp_DataOffset := tcp_DataOffset h\<rparr>"
    by (simp add: k_def with_offset_def)
  ultimately show ?thesis using p d v by (auto simp: checksumCalc_def)
qed

text \<open>
  Property C15. The segments of a connection: \<open>send\<close> passes exactly one segment to the emit
  function, and for a header with at most 40 bytes of options and any payload that keeps the
  segment below 64 KiB, that segment parses back to the header, carries the payload behind it,
  and its checksum verifies at both ends of the connection.
\<close>

theorem conn_send_correct:
  assumes "options_wf h" "length payload \<le> 65475" "key_wf (conn_key c)"
  shows "\<exists>seg h'. conn_send emit c h payload = ([seg], map_option OutputError (emit seg))
    \<and> TcpParseHeader seg = Ok h' \<and> drop (TcpHeaderLen h') seg = payload
    \<and> h = h'\<lparr>tcp_Checksum := tcp_Checksum h, tcp_DataOffset := tcp_DataOffset h\<rparr>
    \<and> Verify (NewChecksumCalculator (ck_SrcIP (conn_key c)) (ck_DstIP (conn_key c))) seg
    \<and> Verify (NewChecksumCalculator (ck_DstIP (conn_key c)) (ck_SrcIP (conn_key c))) seg"
  using assms by (rule conn_send_segment)

definition sample_key :: conn_key where
  "sample_key = \<lparr>ck_SrcIP = [10, 0, 0, 1], ck_SrcPort = 49153, ck_DstIP = [10, 0, 0, 2], ck_DstPort = 80\<rparr>"

theorem conn_send_correct_witness:
  "\<exists>seg. conn_send (\<lambda>_. None :: nat option) (NewTCPConn sample_key) syn_header [1, 2, 3] = ([seg], None)
    \<and> Verify (NewChecksumCalculator [10, 0, 0, 2] [10, 0, 0, 1]) seg"
proof -
  have "options_wf syn_header" "key_wf (conn_key (NewTCPConn sample_key))" by code_simp+
  from conn_send_correct [OF this(1) _ this(2), of "[1, 2, 3]" "\<lambda>_. None :: nat option"]
  show ?thesis by (auto simp: NewTCPConn_def sample_key_def)
qed

end
