(* ===== verification/Tcp_Handshake.thy ===== *)
theory Tcp_Handshake
  imports Tcp_Conn
begin

text \<open>
  \<^verbatim>\<open>internal/tcp/handshake.go\<close>: the four handlers of the three-way handshake. They mutate the
  connection and send before they ask the state machine for the transition, so an error does
  not undo what they did; the model returns the mutated connection with the error. The lemmas
  give every branch of each handler, the outcome of a complete handshake, and the safety of the
  handshake over a network that loses, duplicates and reorders segments.
\<close>

section \<open>The code\<close>

text \<open>\<open>c.state.Transition(to)\<close>: the connection's state machine has no callback.\<close>

definition conn_transition :: "tcp_state \<Rightarrow> tcp_conn \<Rightarrow> tcp_conn \<times> 'e conn_error option" where
  "conn_transition to c =
     (case Transition to (conn_state c) of
        (sm, _, err) \<Rightarrow> (c\<lparr>conn_state := sm\<rparr>, map_option ErrTransition err))"

text \<open>The assignments of a fresh initial sequence number; the SYN consumes one number.\<close>

definition set_isn :: "32 word \<Rightarrow> tcp_conn \<Rightarrow> tcp_conn" where
  "set_isn isn c = c\<lparr>sndISN := isn, sndUNA := isn, sndNXT := isn + 1\<rparr>"

definition sendSYN :: "'e segment_output \<Rightarrow> bytes option \<Rightarrow> int \<Rightarrow> tcp_conn \<Rightarrow> 'e handler_result" where
  "sendSYN emit rnd now c =
     (let c = set_isn (GenerateISN rnd now) c;
          h = (newHeader c FlagSYN)\<lparr>tcp_SeqNum := sndISN c, tcp_Options := [mssOption (conn_mss c)]\<rparr>
      in case conn_send emit c h [] of
           (sent, Some err) \<Rightarrow> (c, sent, Some (SendSYN err))
         | (sent, None) \<Rightarrow> (case conn_transition StateSynSent c of (c, err) \<Rightarrow> (c, sent, err)))"

definition sendSYNACK :: "'e segment_output \<Rightarrow> bytes option \<Rightarrow> int \<Rightarrow> tcp_conn \<Rightarrow> 'e handler_result" where
  "sendSYNACK emit rnd now c =
     (let c = set_isn (GenerateISN rnd now) c;
          h = (newHeader c (FlagSYN OR FlagACK))\<lparr>tcp_SeqNum := sndISN c, tcp_AckNum := rcvNXT c,
                tcp_Options := [mssOption (conn_mss c)]\<rparr>
      in case conn_send emit c h [] of
           (sent, Some err) \<Rightarrow> (c, sent, Some (SendSYNACK err))
         | (sent, None) \<Rightarrow> (c, sent, None))"

definition handleSYN ::
  "'e segment_output \<Rightarrow> bytes option \<Rightarrow> int \<Rightarrow> tcp_header \<Rightarrow> tcp_conn \<Rightarrow> 'e handler_result" where
  "handleSYN emit rnd now seg c =
     (if \<not> HasFlag seg FlagSYN then (c, [], Some ErrUnexpectedSegment)
      else case (if Is StateClosed (conn_state c) then conn_transition StateListen c else (c, None)) of
          (c, Some err) \<Rightarrow> (c, [], Some err)
        | (c, None) \<Rightarrow>
            (let c = negotiateMSS seg (c\<lparr>rcvNXT := tcp_SeqNum seg + 1, sndWND := tcp_Window seg\<rparr>)
             in case sendSYNACK emit rnd now c of
                  (c, sent, Some err) \<Rightarrow> (c, sent, Some err)
                | (c, sent, None) \<Rightarrow>
                    (case conn_transition StateSynReceived c of (c, err) \<Rightarrow> (c, sent, err))))"

definition handleSYNACK :: "'e segment_output \<Rightarrow> tcp_header \<Rightarrow> tcp_conn \<Rightarrow> 'e handler_result" where
  "handleSYNACK emit seg c =
     (if \<not> HasFlag seg FlagSYN \<or> \<not> HasFlag seg FlagACK then (c, [], Some ErrUnexpectedSegment)
      else if tcp_AckNum seg \<noteq> sndNXT c then (c, [], Some ErrBadAck)
      else let c = negotiateMSS seg (c\<lparr>sndUNA := tcp_AckNum seg, rcvNXT := tcp_SeqNum seg + 1,
                                       sndWND := tcp_Window seg\<rparr>)
           in case sendACK emit c of
                (sent, Some err) \<Rightarrow> (c, sent, Some err)
              | (sent, None) \<Rightarrow>
                  (case conn_transition StateEstablished c of (c, err) \<Rightarrow> (c, sent, err)))"

definition handleACKInSynReceived :: "tcp_header \<Rightarrow> tcp_conn \<Rightarrow> 'e handler_result" where
  "handleACKInSynReceived seg c =
     (if \<not> HasFlag seg FlagACK then (c, [], Some ErrUnexpectedSegment)
      else if tcp_AckNum seg \<noteq> sndNXT c then (c, [], Some ErrBadAck)
      else let c = c\<lparr>sndUNA := tcp_AckNum seg, sndWND := tcp_Window seg\<rparr>
           in case conn_transition StateEstablished c of (c, err) \<Rightarrow> (c, [], err))"

section \<open>The segments of the handshake\<close>

definition syn_seg :: "tcp_conn \<Rightarrow> tcp_header" where
  "syn_seg c = (newHeader c FlagSYN)\<lparr>tcp_SeqNum := sndISN c, tcp_Options := [mssOption (conn_mss c)]\<rparr>"

definition synack_seg :: "tcp_conn \<Rightarrow> tcp_header" where
  "synack_seg c = (newHeader c (FlagSYN OR FlagACK))\<lparr>tcp_SeqNum := sndISN c, tcp_AckNum := rcvNXT c,
     tcp_Options := [mssOption (conn_mss c)]\<rparr>"

definition ack_seg :: "tcp_conn \<Rightarrow> tcp_header" where
  "ack_seg c = (newHeader c FlagACK)\<lparr>tcp_SeqNum := sndNXT c, tcp_AckNum := rcvNXT c\<rparr>"

lemma segs_wf: "options_wf (syn_seg c)" "options_wf (synack_seg c)" "options_wf (ack_seg c)"
  by (simp_all add: syn_seg_def synack_seg_def ack_seg_def options_wf_mss options_wf_nil)

lemma set_isn_simps [simp]:
  "conn_key (set_isn i c) = conn_key c" "conn_state (set_isn i c) = conn_state c"
  "sndISN (set_isn i c) = i" "sndUNA (set_isn i c) = i" "sndNXT (set_isn i c) = i + 1"
  "sndWND (set_isn i c) = sndWND c" "rcvNXT (set_isn i c) = rcvNXT c"
  "rcvWND (set_isn i c) = rcvWND c" "conn_mss (set_isn i c) = conn_mss c"
  by (simp_all add: set_isn_def)

lemma conn_transition_eq:
  "conn_transition to c =
     (if to \<in> set (validTransitions (conn_State c))
      then (c\<lparr>conn_state := (conn_state c)\<lparr>sm_current := to\<rparr>\<rparr>, None)
      else (c, Some (ErrTransition (InvalidTransition (conn_State c) to))))"
  by (simp add: conn_transition_def Transition_def Let_def transition_valid_iff conn_State_def Current_def)

text \<open>Moving to a state, as the handlers do after a valid transition.\<close>

definition in_state :: "tcp_state \<Rightarrow> tcp_conn \<Rightarrow> tcp_conn" where
  "in_state s c = c\<lparr>conn_state := (conn_state c)\<lparr>sm_current := s\<rparr>\<rparr>"

lemma in_state_simps [simp]:
  "conn_key (in_state s c) = conn_key c" "conn_State (in_state s c) = s"
  "sndISN (in_state s c) = sndISN c" "sndUNA (in_state s c) = sndUNA c" "sndNXT (in_state s c) = sndNXT c"
  "sndWND (in_state s c) = sndWND c" "rcvNXT (in_state s c) = rcvNXT c"
  "rcvWND (in_state s c) = rcvWND c" "conn_mss (in_state s c) = conn_mss c"
  by (simp_all add: in_state_def conn_State_def Current_def)

lemma conn_State_isn [simp]: "conn_State (set_isn i c) = conn_State c"
  "conn_State (negotiateMSS seg c) = conn_State c"
  by (simp_all add: conn_State_def)

lemma conn_State_upd [simp]:
  "conn_State (c\<lparr>rcvNXT := r\<rparr>) = conn_State c" "conn_State (c\<lparr>sndWND := w\<rparr>) = conn_State c"
  "conn_State (c\<lparr>sndUNA := u\<rparr>) = conn_State c"
  by (simp_all add: conn_State_def)

text \<open>The connection a received SYN, SYN-ACK and ACK lead to, before the transition.\<close>

definition syn_received :: "32 word \<Rightarrow> tcp_header \<Rightarrow> tcp_conn \<Rightarrow> tcp_conn" where
  "syn_received isn seg c =
     set_isn isn (negotiateMSS seg (c\<lparr>rcvNXT := tcp_SeqNum seg + 1, sndWND := tcp_Window seg\<rparr>))"

definition synack_received :: "tcp_header \<Rightarrow> tcp_conn \<Rightarrow> tcp_conn" where
  "synack_received seg c =
     negotiateMSS seg (c\<lparr>sndUNA := tcp_AckNum seg, rcvNXT := tcp_SeqNum seg + 1, sndWND := tcp_Window seg\<rparr>)"

lemma syn_received_simps [simp]:
  "conn_key (syn_received i seg c) = conn_key c" "conn_State (syn_received i seg c) = conn_State c"
  "sndISN (syn_received i seg c) = i" "sndUNA (syn_received i seg c) = i"
  "sndNXT (syn_received i seg c) = i + 1" "sndWND (syn_received i seg c) = tcp_Window seg"
  "rcvNXT (syn_received i seg c) = tcp_SeqNum seg + 1" "rcvWND (syn_received i seg c) = rcvWND c"
  by (simp_all add: syn_received_def)

lemma synack_received_simps [simp]:
  "conn_key (synack_received seg c) = conn_key c" "conn_State (synack_received seg c) = conn_State c"
  "sndISN (synack_received seg c) = sndISN c" "sndUNA (synack_received seg c) = tcp_AckNum seg"
  "sndNXT (synack_received seg c) = sndNXT c" "sndWND (synack_received seg c) = tcp_Window seg"
  "rcvNXT (synack_received seg c) = tcp_SeqNum seg + 1" "rcvWND (synack_received seg c) = rcvWND c"
  by (simp_all add: synack_received_def)

section \<open>Every branch of the handlers\<close>

lemma sendSYN_eq:
  fixes emit :: "'e segment_output" and rnd :: "bytes option" and now :: int and c :: tcp_conn
  defines "c' \<equiv> set_isn (GenerateISN rnd now) c"
  defines "seg \<equiv> sent_segment c' (syn_seg c')"
  shows "sendSYN emit rnd now c =
    (case emit seg of
       Some e \<Rightarrow> (c', [seg], Some (SendSYN (OutputError e)))
     | None \<Rightarrow>
         if conn_State c \<in> {StateClosed, StateListen} then (in_state StateSynSent c', [seg], None)
         else (c', [seg], Some (ErrTransition (InvalidTransition (conn_State c) StateSynSent))))"
proof -
  have "StateSynSent \<in> set (validTransitions s) \<longleftrightarrow> s \<in> {StateClosed, StateListen}" for s
    by (cases s) simp_all
  then show ?thesis
    by (simp add: sendSYN_def Let_def flip: c'_def syn_seg_def)
      (simp add: conn_send_eq conn_transition_eq in_state_def c'_def seg_def split: option.split)
qed

lemma sendSYNACK_eq:
  fixes emit :: "'e segment_output" and rnd :: "bytes option" and now :: int and c :: tcp_conn
  defines "c' \<equiv> set_isn (GenerateISN rnd now) c"
  defines "seg \<equiv> sent_segment c' (synack_seg c')"
  shows "sendSYNACK emit rnd now c = (c', [seg], map_option (SendSYNACK \<circ> OutputError) (emit seg))"
  by (simp add: sendSYNACK_def Let_def flip: c'_def synack_seg_def)
    (simp add: conn_send_eq seg_def split: option.split)

lemma handleSYN_eq:
  fixes emit :: "'e segment_output" and c :: tcp_conn and rnd :: "bytes option" and now :: int
    and seg :: tcp_header
  defines "c1 \<equiv> (if conn_State c = StateClosed then in_state StateListen c else c)"
  defines "c' \<equiv> syn_received (GenerateISN rnd now) seg c1"
  defines "out \<equiv> sent_segment c' (synack_seg c')"
  shows "handleSYN emit rnd now seg c =
    (if \<not> HasFlag seg FlagSYN then (c, [], Some ErrUnexpectedSegment)
     else case emit out of
         Some e \<Rightarrow> (c', [out], Some (SendSYNACK (OutputError e)))
       | None \<Rightarrow>
           if conn_State c \<in> {StateClosed, StateListen, StateSynSent}
           then (in_state StateSynReceived c', [out], None)
           else (c', [out], Some (ErrTransition (InvalidTransition (conn_State c) StateSynReceived))))"
proof -
  have v: "StateSynReceived \<in> set (validTransitions s) \<longleftrightarrow> s \<in> {StateListen, StateSynSent}" for s
    by (cases s) simp_all
  have l: "(if Is StateClosed (conn_state c) then conn_transition StateListen c else (c, None)) = (c1, None)"
    by (simp add: Is_def conn_transition_eq c1_def in_state_def conn_State_def Current_def)
  have st: "conn_State c1 = (if conn_State c = StateClosed then StateListen else conn_State c)"
    "conn_State c' = conn_State c1"
    by (simp_all add: c1_def c'_def)
  show ?thesis
    unfolding handleSYN_def l Let_def sendSYNACK_eq syn_received_def [symmetric] c'_def [symmetric]
      out_def [symmetric] prod.case option.case
    by (simp add: conn_transition_eq v st in_state_def split: option.split)
qed

lemma handleSYNACK_eq:
  fixes emit :: "'e segment_output" and c :: tcp_conn and seg :: tcp_header
  defines "c' \<equiv> synack_received seg c"
  defines "out \<equiv> sent_segment c' (ack_seg c')"
  shows "handleSYNACK emit seg c =
    (if \<not> (HasFlag seg FlagSYN \<and> HasFlag seg FlagACK) then (c, [], Some ErrUnexpectedSegment)
     else if tcp_AckNum seg \<noteq> sndNXT c then (c, [], Some ErrBadAck)
     else case emit out of
         Some e \<Rightarrow> (c', [out], Some (OutputError e))
       | None \<Rightarrow>
           if conn_State c \<in> {StateSynSent, StateSynReceived}
           then (in_state StateEstablished c', [out], None)
           else (c', [out], Some (ErrTransition (InvalidTransition (conn_State c) StateEstablished))))"
proof -
  have v: "StateEstablished \<in> set (validTransitions s) \<longleftrightarrow> s \<in> {StateSynSent, StateSynReceived}" for s
    by (cases s) simp_all
  show ?thesis
    unfolding handleSYNACK_def Let_def sendACK_def synack_received_def [symmetric] c'_def [symmetric]
      ack_seg_def [symmetric] conn_send_eq out_def [symmetric]
    by (simp add: conn_transition_eq v in_state_def split: option.split) (simp add: c'_def)
qed

lemma handleACK_eq:
  "handleACKInSynReceived seg c =
    (if \<not> HasFlag seg FlagACK then (c, [], Some ErrUnexpectedSegment)
     else if tcp_AckNum seg \<noteq> sndNXT c then (c, [], Some ErrBadAck)
     else let c' = c\<lparr>sndUNA := tcp_AckNum seg, sndWND := tcp_Window seg\<rparr>
          in if conn_State c \<in> {StateSynSent, StateSynReceived} then (in_state StateEstablished c', [], None)
             else (c', [], Some (ErrTransition (InvalidTransition (conn_State c) StateEstablished))))"
proof -
  have v: "StateEstablished \<in> set (validTransitions s) \<longleftrightarrow> s \<in> {StateSynSent, StateSynReceived}" for s
    by (cases s) simp_all
  show ?thesis by (simp add: handleACKInSynReceived_def Let_def conn_transition_eq v in_state_def)
qed

section \<open>The handshake over a network\<close>

text \<open>
  Two endpoints and the segments their output functions accepted, each of which may arrive any
  number of times, in any order, or never. A handler runs only in the state its comment names:
  \<open>sendSYN\<close> in CLOSED, \<open>handleSYN\<close> in CLOSED or LISTEN, \<open>handleSYNACK\<close> in SYN_SENT and
  \<open>handleACKInSynReceived\<close> in SYN_RECEIVED. An output function that fails keeps the segment.
\<close>

record hs_world =
  w_client :: tcp_conn
  w_server :: tcp_conn
  w_to_server :: "bytes set"
  w_to_client :: "bytes set"

definition delivered :: "'e segment_output \<Rightarrow> bytes list \<Rightarrow> bytes set" where
  "delivered emit sent = {seg \<in> set sent. emit seg = None}"

inductive hs_reachable :: "conn_key \<Rightarrow> hs_world \<Rightarrow> bool" for k where
  start: "hs_reachable k \<lparr>w_client = NewTCPConn k, w_server = NewTCPConn (swap_key k),
                          w_to_server = {}, w_to_client = {}\<rparr>"
| connect: "hs_reachable k w \<Longrightarrow> conn_State (w_client w) = StateClosed \<Longrightarrow>
    sendSYN (emit :: string segment_output) rnd now (w_client w) = (c, sent, err) \<Longrightarrow>
    hs_reachable k (w\<lparr>w_client := c, w_to_server := w_to_server w \<union> delivered emit sent\<rparr>)"
| syn: "hs_reachable k w \<Longrightarrow> conn_State (w_server w) \<in> {StateClosed, StateListen} \<Longrightarrow>
    seg \<in> w_to_server w \<Longrightarrow> TcpParseHeader seg = Ok h \<Longrightarrow>
    handleSYN (emit :: string segment_output) rnd now h (w_server w) = (s, sent, err) \<Longrightarrow>
    hs_reachable k (w\<lparr>w_server := s, w_to_client := w_to_client w \<union> delivered emit sent\<rparr>)"
| synack: "hs_reachable k w \<Longrightarrow> conn_State (w_client w) = StateSynSent \<Longrightarrow>
    seg \<in> w_to_client w \<Longrightarrow> TcpParseHeader seg = Ok h \<Longrightarrow>
    handleSYNACK (emit :: string segment_output) h (w_client w) = (c, sent, err) \<Longrightarrow>
    hs_reachable k (w\<lparr>w_client := c, w_to_server := w_to_server w \<union> delivered emit sent\<rparr>)"
| ack: "hs_reachable k w \<Longrightarrow> conn_State (w_server w) = StateSynReceived \<Longrightarrow>
    seg \<in> w_to_server w \<Longrightarrow> TcpParseHeader seg = Ok h \<Longrightarrow>
    handleACKInSynReceived h (w_server w) = (s, [], err :: string conn_error option) \<Longrightarrow>
    hs_reachable k (w\<lparr>w_server := s\<rparr>)"

text \<open>What is in flight, as parsed headers.\<close>

definition client_segs_ok :: "tcp_conn \<Rightarrow> bytes set \<Rightarrow> bool" where
  "client_segs_ok c segs \<longleftrightarrow> (\<forall>seg \<in> segs. \<forall>h. TcpParseHeader seg = Ok h \<longrightarrow>
     (conn_State c \<noteq> StateClosed \<and> tcp_Flags h = FlagSYN \<and> tcp_SeqNum h = sndISN c)
     \<or> (conn_State c = StateEstablished \<and> tcp_Flags h = FlagACK \<and> tcp_SeqNum h = sndNXT c
        \<and> tcp_AckNum h = rcvNXT c))"

definition server_segs_ok :: "tcp_conn \<Rightarrow> bytes set \<Rightarrow> bool" where
  "server_segs_ok s segs \<longleftrightarrow> (\<forall>seg \<in> segs. \<forall>h. TcpParseHeader seg = Ok h \<longrightarrow>
     conn_State s \<in> {StateSynReceived, StateEstablished} \<and> tcp_Flags h = FlagSYN OR FlagACK
     \<and> tcp_SeqNum h = sndISN s \<and> tcp_AckNum h = rcvNXT s)"

definition hs_inv :: "hs_world \<Rightarrow> bool" where
  "hs_inv w \<longleftrightarrow> (let c = w_client w; s = w_server w in
     conn_State c \<in> {StateClosed, StateSynSent, StateEstablished}
     \<and> conn_State s \<in> {StateClosed, StateListen, StateSynReceived, StateEstablished}
     \<and> client_segs_ok c (w_to_server w) \<and> server_segs_ok s (w_to_client w)
     \<and> (conn_State c \<noteq> StateClosed \<longrightarrow> sndNXT c = sndISN c + 1)
     \<and> (conn_State s \<in> {StateSynReceived, StateEstablished} \<longrightarrow>
          conn_State c \<noteq> StateClosed \<and> sndNXT s = sndISN s + 1 \<and> rcvNXT s = sndISN c + 1)
     \<and> (conn_State c = StateEstablished \<longrightarrow>
          conn_State s \<in> {StateSynReceived, StateEstablished} \<and> rcvNXT c = sndISN s + 1 \<and> sndUNA c = sndNXT c)
     \<and> (conn_State s = StateEstablished \<longrightarrow> conn_State c = StateEstablished \<and> sndUNA s = sndNXT s))"

lemma syn_flags:
  "FlagSYN AND FlagSYN \<noteq> 0" "FlagSYN AND FlagACK = 0" "FlagACK AND FlagSYN = 0" "FlagACK AND FlagACK \<noteq> 0"
  "(FlagSYN OR FlagACK) AND FlagSYN \<noteq> 0" "(FlagSYN OR FlagACK) AND FlagACK \<noteq> 0"
  by (simp_all add: tcp_consts)

lemma seg_fields:
  "tcp_Flags (syn_seg c) = FlagSYN" "tcp_SeqNum (syn_seg c) = sndISN c" "tcp_Window (syn_seg c) = rcvWND c"
  "tcp_Flags (synack_seg c) = FlagSYN OR FlagACK" "tcp_SeqNum (synack_seg c) = sndISN c"
  "tcp_AckNum (synack_seg c) = rcvNXT c" "tcp_Window (synack_seg c) = rcvWND c"
  "tcp_Flags (ack_seg c) = FlagACK" "tcp_SeqNum (ack_seg c) = sndNXT c" "tcp_AckNum (ack_seg c) = rcvNXT c"
  "tcp_Window (ack_seg c) = rcvWND c"
  by (simp_all add: syn_seg_def synack_seg_def ack_seg_def)

lemma hs_inv_start:
  "hs_inv \<lparr>w_client = NewTCPConn k, w_server = NewTCPConn k', w_to_server = {}, w_to_client = {}\<rparr>"
  by (simp add: hs_inv_def client_segs_ok_def server_segs_ok_def NewTCPConn_def conn_State_def Current_def
      NewStateMachine_def)

lemma delivered_one: "delivered emit [seg] = (if emit seg = None then {seg} else {})"
  by (auto simp: delivered_def)

lemma delivered_nil: "delivered emit [] = {}"
  by (simp add: delivered_def)

lemma hs_inv_connect:
  assumes "hs_inv w" "conn_State (w_client w) = StateClosed"
    and "sendSYN emit rnd now (w_client w) = (c, sent, err)"
  shows "hs_inv (w\<lparr>w_client := c, w_to_server := w_to_server w \<union> delivered emit sent\<rparr>)"
proof -
  let ?c = "set_isn (GenerateISN rnd now) (w_client w)"
  let ?seg = "sent_segment ?c (syn_seg ?c)"
  have p: "TcpParseHeader ?seg = Ok (received_header ?c (syn_seg ?c))"
    by (rule sent_segment_parses(1) [OF segs_wf(1)])
  have old: "client_segs_ok d (w_to_server w)" for d
    using assms(1,2) by (auto simp: hs_inv_def Let_def client_segs_ok_def)
  show ?thesis
  proof (cases "emit ?seg")
    case None
    then have "c = in_state StateSynSent ?c" "sent = [?seg]"
      using assms(2,3) by (auto simp: sendSYN_eq)
    moreover have "client_segs_ok (in_state StateSynSent ?c) {?seg}"
      by (simp add: client_segs_ok_def p seg_fields)
    then have "client_segs_ok (in_state StateSynSent ?c) (w_to_server w \<union> {?seg})"
      using old [of "in_state StateSynSent ?c"] by (auto simp: client_segs_ok_def)
    ultimately show ?thesis
      using assms(1,2) None by (auto simp: hs_inv_def Let_def delivered_one)
  next
    case (Some e)
    then have "c = ?c" "sent = [?seg]" using assms(2,3) by (auto simp: sendSYN_eq)
    then show ?thesis
      using assms(1,2) Some old [of ?c] by (auto simp: hs_inv_def Let_def delivered_one)
  qed
qed

lemma hs_inv_syn:
  assumes "hs_inv w" "conn_State (w_server w) \<in> {StateClosed, StateListen}"
    and "seg \<in> w_to_server w" "TcpParseHeader seg = Ok h"
    and "handleSYN emit rnd now h (w_server w) = (s, sent, err)"
  shows "hs_inv (w\<lparr>w_server := s, w_to_client := w_to_client w \<union> delivered emit sent\<rparr>)"
proof (cases "HasFlag h FlagSYN")
  case False
  then have "s = w_server w" "sent = []" using assms(5) by (auto simp: handleSYN_eq)
  then show ?thesis using assms(1) by (simp add: hs_inv_def delivered_nil)
next
  case True
  let ?s0 = "if conn_State (w_server w) = StateClosed then in_state StateListen (w_server w) else w_server w"
  let ?s = "syn_received (GenerateISN rnd now) h ?s0"
  let ?seg = "sent_segment ?s (synack_seg ?s)"
  have p: "TcpParseHeader ?seg = Ok (received_header ?s (synack_seg ?s))"
    by (rule sent_segment_parses(1) [OF segs_wf(2)])
  have h: "conn_State (w_client w) \<noteq> StateClosed" "tcp_SeqNum h = sndISN (w_client w)"
    "conn_State (w_client w) \<noteq> StateEstablished"
    using assms(1-4) True syn_flags by (auto simp: hs_inv_def Let_def client_segs_ok_def HasFlag_def)
  have old: "server_segs_ok d (w_to_client w)" for d
    using assms(1,2) by (auto simp: hs_inv_def Let_def server_segs_ok_def)
  show ?thesis
  proof (cases "emit ?seg")
    case None
    then have "s = in_state StateSynReceived ?s" "sent = [?seg]"
      using assms(2,5) True by (auto simp: handleSYN_eq)
    moreover have "server_segs_ok (in_state StateSynReceived ?s) {?seg}"
      by (simp add: server_segs_ok_def p seg_fields)
    then have "server_segs_ok (in_state StateSynReceived ?s) (w_to_client w \<union> {?seg})"
      using old [of "in_state StateSynReceived ?s"] by (auto simp: server_segs_ok_def)
    ultimately show ?thesis
      using assms(1) None h by (auto simp: hs_inv_def Let_def delivered_one)
  next
    case (Some e)
    then have "s = ?s" "sent = [?seg]" using assms(2,5) True by (auto simp: handleSYN_eq)
    moreover have "conn_State ?s = StateListen" using assms(2) by auto
    ultimately show ?thesis
      using assms(1) Some h old [of ?s] by (simp add: hs_inv_def Let_def delivered_one)
  qed
qed

lemma hs_inv_synack:
  assumes "hs_inv w" "conn_State (w_client w) = StateSynSent"
    and "seg \<in> w_to_client w" "TcpParseHeader seg = Ok h"
    and "handleSYNACK emit h (w_client w) = (c, sent, err)"
  shows "hs_inv (w\<lparr>w_client := c, w_to_server := w_to_server w \<union> delivered emit sent\<rparr>)"
proof -
  have h: "conn_State (w_server w) \<in> {StateSynReceived, StateEstablished}"
    "tcp_SeqNum h = sndISN (w_server w)" "tcp_AckNum h = rcvNXT (w_server w)"
    "HasFlag h FlagSYN" "HasFlag h FlagACK"
    using assms(1,3,4) syn_flags by (auto simp: hs_inv_def Let_def server_segs_ok_def HasFlag_def)
  have n: "sndNXT (w_client w) = sndISN (w_client w) + 1" "rcvNXT (w_server w) = sndISN (w_client w) + 1"
    using assms(1,2) h(1) by (auto simp: hs_inv_def Let_def)
  let ?c = "synack_received h (w_client w)"
  let ?seg = "sent_segment ?c (ack_seg ?c)"
  have p: "TcpParseHeader ?seg = Ok (received_header ?c (ack_seg ?c))"
    by (rule sent_segment_parses(1) [OF segs_wf(3)])
  have old: "client_segs_ok d (w_to_server w)"
    if "sndISN d = sndISN (w_client w)" "conn_State d \<noteq> StateClosed" for d
    using assms(1,2) that by (auto simp: hs_inv_def Let_def client_segs_ok_def)
  show ?thesis
  proof (cases "emit ?seg")
    case None
    then have "c = in_state StateEstablished ?c" "sent = [?seg]"
      using assms(2,5) h n by (auto simp: handleSYNACK_eq)
    moreover have "client_segs_ok (in_state StateEstablished ?c) {?seg}"
      by (simp add: client_segs_ok_def p seg_fields)
    then have "client_segs_ok (in_state StateEstablished ?c) (w_to_server w \<union> {?seg})"
      using old [of "in_state StateEstablished ?c"] by (auto simp: client_segs_ok_def)
    ultimately show ?thesis
      using assms(1,2) None h n by (auto simp: hs_inv_def Let_def delivered_one)
  next
    case (Some e)
    then have "c = ?c" "sent = [?seg]" using assms(2,5) h n by (auto simp: handleSYNACK_eq)
    then show ?thesis
      using assms(1,2) Some h n old [of ?c] by (auto simp: hs_inv_def Let_def delivered_one)
  qed
qed

lemma hs_inv_ack:
  assumes "hs_inv w" "conn_State (w_server w) = StateSynReceived"
    and "seg \<in> w_to_server w" "TcpParseHeader seg = Ok h"
    and "handleACKInSynReceived h (w_server w) = (s, [], err)"
  shows "hs_inv (w\<lparr>w_server := s\<rparr>)"
proof -
  consider "s = w_server w" | "HasFlag h FlagACK" "tcp_AckNum h = sndNXT (w_server w)"
    "s = in_state StateEstablished ((w_server w)\<lparr>sndUNA := tcp_AckNum h, sndWND := tcp_Window h\<rparr>)"
    using assms(2,5) by (auto simp: handleACK_eq Let_def split: if_splits)
  then show ?thesis
  proof cases
    case 1
    then show ?thesis using assms(1) by (simp add: hs_inv_def)
  next
    case 2
    have e: "conn_State (w_client w) = StateEstablished"
      using assms(1,3,4) 2(1) syn_flags by (auto simp: hs_inv_def Let_def client_segs_ok_def HasFlag_def)
    have "server_segs_ok s (w_to_client w)"
      using assms(1) by (auto simp: hs_inv_def Let_def server_segs_ok_def 2(3))
    then show ?thesis using assms(1,2) 2 e by (auto simp: hs_inv_def Let_def)
  qed
qed

lemma hs_reachable_inv: "hs_reachable k w \<Longrightarrow> hs_inv w"
proof (induction rule: hs_reachable.induct)
  case start
  show ?case by (rule hs_inv_start)
next
  case connect
  then show ?case by (blast intro: hs_inv_connect)
next
  case syn
  then show ?case by (blast intro: hs_inv_syn)
next
  case synack
  then show ?case by (blast intro: hs_inv_synack)
next
  case ack
  then show ?case by (blast intro: hs_inv_ack)
qed

section \<open>A complete handshake\<close>

lemma syn_parse_mss [simp]: "parseMSS (received_header c (syn_seg d)) = Some (conn_mss d)"
  "parseMSS (received_header c (synack_seg d)) = Some (conn_mss d)"
  by (simp_all add: parseMSS_def syn_seg_def synack_seg_def del: find_mss.simps)

lemma syn_received_mss: "conn_mss (syn_received i seg c) = conn_mss (negotiateMSS seg c)"
  "conn_mss (synack_received seg c) = conn_mss (negotiateMSS seg c)"
  by (simp_all add: syn_received_def synack_received_def negotiateMSS_mss set_isn_def split: option.split)

lemma HasFlag_received: "HasFlag (received_header c h) f = HasFlag h f"
  by (simp add: HasFlag_def)

lemma HasFlag_segs:
  "HasFlag (syn_seg c) FlagSYN" "HasFlag (synack_seg c) FlagSYN" "HasFlag (synack_seg c) FlagACK"
  "HasFlag (ack_seg c) FlagACK"
  by (simp_all add: HasFlag_def seg_fields syn_flags) (simp_all add: tcp_consts)

text \<open>The run of the four handlers, with the connections and segments at each step.\<close>

lemma handshake_runs:
  fixes c s :: tcp_conn and rc rs :: "bytes option" and tc ts :: int
  assumes "key_wf (conn_key c)" "conn_key s = swap_key (conn_key c)"
    and "conn_State c = StateClosed" "conn_State s \<in> {StateClosed, StateListen}"
    and "0 < conn_mss c" "0 < conn_mss s"
  defines "emit \<equiv> (\<lambda>_. None) :: string segment_output"
  obtains c1 seg1 h1 s1 seg2 h2 c2 seg3 h3 s2 where
    "sendSYN emit rc tc c = (c1, [seg1], None)" "TcpParseHeader seg1 = Ok h1"
    "Verify (checksumCalc s) seg1"
    "handleSYN emit rs ts h1 s = (s1, [seg2], None)" "TcpParseHeader seg2 = Ok h2"
    "Verify (checksumCalc c) seg2"
    "handleSYNACK emit h2 c1 = (c2, [seg3], None)" "TcpParseHeader seg3 = Ok h3"
    "Verify (checksumCalc s) seg3"
    "handleACKInSynReceived h3 s1 = (s2, [], None :: string conn_error option)"
    "conn_State c1 = StateSynSent" "conn_State s1 = StateSynReceived"
    "conn_State c2 = StateEstablished" "conn_State s2 = StateEstablished"
    "sndISN c2 = GenerateISN rc tc" "sndISN s2 = GenerateISN rs ts"
    "rcvNXT c2 = sndISN s2 + 1" "rcvNXT s2 = sndISN c2 + 1"
    "sndUNA c2 = sndNXT c2" "sndNXT c2 = sndISN c2 + 1" "sndUNA s2 = sndNXT s2" "sndNXT s2 = sndISN s2 + 1"
    "sndWND c2 = rcvWND s" "sndWND s2 = rcvWND c"
    "conn_mss c2 = min (conn_mss c) (conn_mss s)" "conn_mss s2 = min (conn_mss c) (conn_mss s)"
proof -
  define ca where "ca = set_isn (GenerateISN rc tc) c"
  define c1 where "c1 = in_state StateSynSent ca"
  define seg1 where "seg1 = sent_segment ca (syn_seg ca)"
  define h1 where "h1 = received_header ca (syn_seg ca)"
  define sa where "sa = syn_received (GenerateISN rs ts) h1
     (if conn_State s = StateClosed then in_state StateListen s else s)"
  define s1 where "s1 = in_state StateSynReceived sa"
  define seg2 where "seg2 = sent_segment sa (synack_seg sa)"
  define h2 where "h2 = received_header sa (synack_seg sa)"
  define cb where "cb = synack_received h2 c1"
  define c2 where "c2 = in_state StateEstablished cb"
  define seg3 where "seg3 = sent_segment cb (ack_seg cb)"
  define h3 where "h3 = received_header cb (ack_seg cb)"
  define s2 where "s2 = in_state StateEstablished (s1\<lparr>sndUNA := tcp_AckNum h3, sndWND := tcp_Window h3\<rparr>)"
  have keys: "conn_key ca = conn_key c" "conn_key sa = conn_key s" "conn_key cb = conn_key c"
    by (simp_all add: ca_def sa_def cb_def c1_def)
  have wfs: "key_wf (conn_key sa)" "conn_key c = swap_key (conn_key sa)"
    using assms(1,2) by (simp_all add: keys key_wf_def swap_key_def)
  have cs: "checksumCalc d = checksumCalc e" if "conn_key d = conn_key e" for d e :: tcp_conn
    using that by (simp add: checksumCalc_def)
  show thesis
  proof (rule that [of c1 seg1 h1 s1 seg2 h2 c2 seg3 h3 s2])
    show "sendSYN emit rc tc c = (c1, [seg1], None)"
      using assms(3) by (simp add: sendSYN_eq emit_def c1_def seg1_def ca_def)
    show "TcpParseHeader seg1 = Ok h1" "TcpParseHeader seg2 = Ok h2" "TcpParseHeader seg3 = Ok h3"
      unfolding seg1_def h1_def seg2_def h2_def seg3_def h3_def
      by (rule sent_segment_parses(1) [OF segs_wf(1)] sent_segment_parses(1) [OF segs_wf(2)]
          sent_segment_parses(1) [OF segs_wf(3)])+
    show "Verify (checksumCalc s) seg1"
      unfolding seg1_def using assms(1,2) keys
      by (intro sent_segment_verifies(2) [OF segs_wf(1)]) simp_all
    show "Verify (checksumCalc c) seg2"
      unfolding seg2_def using wfs by (intro sent_segment_verifies(2) [OF segs_wf(2)]) simp_all
    show "Verify (checksumCalc s) seg3"
      unfolding seg3_def using assms(1,2) keys
      by (intro sent_segment_verifies(2) [OF segs_wf(3)]) simp_all
    have syn: "HasFlag h1 FlagSYN" "HasFlag h2 FlagSYN" "HasFlag h2 FlagACK" "HasFlag h3 FlagACK"
      by (simp_all add: h1_def h2_def h3_def HasFlag_received HasFlag_segs)
    show "handleSYN emit rs ts h1 s = (s1, [seg2], None)"
      using assms(4) syn(1) by (auto simp: handleSYN_eq emit_def s1_def seg2_def sa_def)
    have ack2: "tcp_AckNum h2 = sndNXT c1"
      by (simp add: h2_def seg_fields sa_def h1_def ca_def c1_def)
    show "handleSYNACK emit h2 c1 = (c2, [seg3], None)"
      using syn ack2 by (simp add: handleSYNACK_eq emit_def c2_def seg3_def cb_def c1_def)
    have ack3: "tcp_AckNum h3 = sndNXT s1"
      by (simp add: h3_def seg_fields cb_def h2_def s1_def sa_def)
    show "handleACKInSynReceived h3 s1 = (s2, [], None :: string conn_error option)"
      using syn(4) ack3 by (simp add: handleACK_eq s2_def) (simp add: s1_def)
    show "conn_State c1 = StateSynSent" "conn_State s1 = StateSynReceived"
      "conn_State c2 = StateEstablished" "conn_State s2 = StateEstablished"
      by (simp_all add: c1_def s1_def c2_def s2_def)
    show "sndISN c2 = GenerateISN rc tc" "sndISN s2 = GenerateISN rs ts"
      "sndNXT c2 = sndISN c2 + 1" "sndNXT s2 = sndISN s2 + 1"
      by (simp_all add: c2_def cb_def c1_def ca_def s2_def s1_def sa_def)
    show "sndUNA c2 = sndNXT c2" "sndUNA s2 = sndNXT s2"
      using ack2 ack3 by (simp_all add: c2_def cb_def s2_def)
    show "rcvNXT c2 = sndISN s2 + 1" "rcvNXT s2 = sndISN c2 + 1"
      by (simp_all add: c2_def cb_def h2_def seg_fields s2_def s1_def sa_def h1_def c1_def ca_def)
    show "sndWND c2 = rcvWND s" "sndWND s2 = rcvWND c"
      by (simp_all add: c2_def cb_def h2_def seg_fields s2_def h3_def sa_def c1_def ca_def)
    have ms: "conn_mss sa = min (conn_mss c) (conn_mss s)"
      using assms(5)
      by (simp add: sa_def syn_received_mss negotiateMSS_mss h1_def ca_def in_state_def)
    then have "0 < conn_mss sa" using assms(5,6) by (simp add: min_def)
    then show "conn_mss c2 = min (conn_mss c) (conn_mss s)"
      by (simp add: c2_def cb_def syn_received_mss negotiateMSS_mss h2_def c1_def ca_def ms)
    show "conn_mss s2 = min (conn_mss c) (conn_mss s)" by (simp add: s2_def s1_def ms)
  qed
qed

section \<open>Properties\<close>

text \<open>
  Property C4. The three-way handshake completes. A client in CLOSED and a server in CLOSED or
  LISTEN with the mirrored key, any initial sequence numbers (wrapping around included), and
  delivered segments: every handler succeeds, each of the three segments parses and verifies at
  its receiver, and in the end both connections are ESTABLISHED, expect exactly the sequence
  number the other will send next, have their SYN acknowledged, know the other's window, and
  agree on the smaller of the two segment sizes.
\<close>

theorem three_way_handshake:
  fixes c s :: tcp_conn and rc rs :: "bytes option" and tc ts :: int
  assumes "key_wf (conn_key c)" "conn_key s = swap_key (conn_key c)"
    and "conn_State c = StateClosed" "conn_State s \<in> {StateClosed, StateListen}"
    and "0 < conn_mss c" "0 < conn_mss s"
  shows "\<exists>c1 seg1 h1 s1 seg2 h2 c2 seg3 h3 s2.
    sendSYN (\<lambda>_. None :: string option) rc tc c = (c1, [seg1], None)
    \<and> TcpParseHeader seg1 = Ok h1 \<and> Verify (checksumCalc s) seg1
    \<and> handleSYN (\<lambda>_. None :: string option) rs ts h1 s = (s1, [seg2], None)
    \<and> TcpParseHeader seg2 = Ok h2 \<and> Verify (checksumCalc c) seg2
    \<and> handleSYNACK (\<lambda>_. None :: string option) h2 c1 = (c2, [seg3], None)
    \<and> TcpParseHeader seg3 = Ok h3 \<and> Verify (checksumCalc s) seg3
    \<and> handleACKInSynReceived h3 s1 = (s2, [], None :: string conn_error option)
    \<and> conn_State c2 = StateEstablished \<and> conn_State s2 = StateEstablished
    \<and> rcvNXT c2 = sndNXT s2 \<and> rcvNXT s2 = sndNXT c2
    \<and> sndUNA c2 = sndNXT c2 \<and> sndUNA s2 = sndNXT s2
    \<and> sndNXT c2 = GenerateISN rc tc + 1 \<and> sndNXT s2 = GenerateISN rs ts + 1
    \<and> sndWND c2 = rcvWND s \<and> sndWND s2 = rcvWND c
    \<and> conn_mss c2 = min (conn_mss c) (conn_mss s) \<and> conn_mss s2 = conn_mss c2"
proof -
  obtain c1 seg1 h1 s1 seg2 h2 c2 seg3 h3 s2 where r:
    "sendSYN (\<lambda>_. None :: string option) rc tc c = (c1, [seg1], None)"
    "TcpParseHeader seg1 = Ok h1" "Verify (checksumCalc s) seg1"
    "handleSYN (\<lambda>_. None :: string option) rs ts h1 s = (s1, [seg2], None)"
    "TcpParseHeader seg2 = Ok h2" "Verify (checksumCalc c) seg2"
    "handleSYNACK (\<lambda>_. None :: string option) h2 c1 = (c2, [seg3], None)"
    "TcpParseHeader seg3 = Ok h3" "Verify (checksumCalc s) seg3"
    "handleACKInSynReceived h3 s1 = (s2, [], None :: string conn_error option)"
    "conn_State c1 = StateSynSent" "conn_State s1 = StateSynReceived"
    "conn_State c2 = StateEstablished" "conn_State s2 = StateEstablished"
    "sndISN c2 = GenerateISN rc tc" "sndISN s2 = GenerateISN rs ts"
    "rcvNXT c2 = sndISN s2 + 1" "rcvNXT s2 = sndISN c2 + 1"
    "sndUNA c2 = sndNXT c2" "sndNXT c2 = sndISN c2 + 1" "sndUNA s2 = sndNXT s2" "sndNXT s2 = sndISN s2 + 1"
    "sndWND c2 = rcvWND s" "sndWND s2 = rcvWND c"
    "conn_mss c2 = min (conn_mss c) (conn_mss s)" "conn_mss s2 = min (conn_mss c) (conn_mss s)"
    using handshake_runs [OF assms, of rc tc rs ts] by blast
  show ?thesis
    by (intro exI [of _ c1] exI [of _ seg1] exI [of _ h1] exI [of _ s1] exI [of _ seg2] exI [of _ h2]
        exI [of _ c2] exI [of _ seg3] exI [of _ h3] exI [of _ s2] conjI) (simp_all only: r)
qed

definition sample_client :: tcp_conn where "sample_client = NewTCPConn sample_key"
definition sample_server :: tcp_conn where
  "sample_server = (NewTCPConn (swap_key sample_key))\<lparr>conn_mss := 536\<rparr>"

lemma sample_conns:
  "key_wf (conn_key sample_client)" "conn_key sample_server = swap_key (conn_key sample_client)"
  "conn_State sample_client = StateClosed" "conn_State sample_server = StateClosed"
  "conn_mss sample_client = 1460" "conn_mss sample_server = 536"
  by code_simp+

theorem three_way_handshake_witness:
  "\<exists>c1 seg1 h1 s1. sendSYN (\<lambda>_. None :: string option) (Some [0xFF, 0xFF, 0xFF, 0xFF]) 0 sample_client
      = (c1, [seg1], None)
    \<and> TcpParseHeader seg1 = Ok h1
    \<and> (\<exists>seg2. handleSYN (\<lambda>_. None :: string option) None 5 h1 sample_server = (s1, [seg2], None))"
proof -
  have "conn_State sample_server \<in> {StateClosed, StateListen}" "0 < conn_mss sample_client"
    "0 < conn_mss sample_server" by (simp_all add: sample_conns)
  from three_way_handshake [OF sample_conns(1,2,3) this, of "Some [0xFF, 0xFF, 0xFF, 0xFF]" 0 None 5]
  show ?thesis by blast
qed


lemma delivered_all: "delivered (\<lambda>_. None) sent = set sent"
  by (simp add: delivered_def)

lemma established_reachable:
  "\<exists>w. hs_reachable sample_key w \<and> conn_State (w_server w) = StateEstablished"
proof -
  let ?c = "NewTCPConn sample_key" and ?s = "NewTCPConn (swap_key sample_key)"
  have pre: "key_wf (conn_key ?c)" "conn_key ?s = swap_key (conn_key ?c)" "conn_State ?c = StateClosed"
    "conn_State ?s \<in> {StateClosed, StateListen}" "0 < conn_mss ?c" "0 < conn_mss ?s"
    by code_simp+
  show ?thesis
  proof (rule handshake_runs [OF pre, of None 1 None 2])
    fix c1 s1 c2 s2 h1 h2 h3 seg1 seg2 seg3
    assume r: "sendSYN (\<lambda>_. None :: string option) None 1 ?c = (c1, [seg1], None)" "TcpParseHeader seg1 = Ok h1"
      "handleSYN (\<lambda>_. None :: string option) None 2 h1 ?s = (s1, [seg2], None)" "TcpParseHeader seg2 = Ok h2"
      "handleSYNACK (\<lambda>_. None :: string option) h2 c1 = (c2, [seg3], None)" "TcpParseHeader seg3 = Ok h3"
      "handleACKInSynReceived h3 s1 = (s2, [], None :: string conn_error option)"
      "conn_State c1 = StateSynSent" "conn_State s1 = StateSynReceived" "conn_State s2 = StateEstablished"
    have w1: "hs_reachable sample_key \<lparr>w_client = c1, w_server = ?s, w_to_server = {seg1}, w_to_client = {}\<rparr>"
      using hs_reachable.connect [OF hs_reachable.start, of sample_key "\<lambda>_. None" None 1 c1 "[seg1]" None]
        r(1) pre(3) by (simp add: delivered_all)
    have w2: "hs_reachable sample_key \<lparr>w_client = c1, w_server = s1, w_to_server = {seg1}, w_to_client = {seg2}\<rparr>"
      using hs_reachable.syn [OF w1, of seg1 h1 "\<lambda>_. None" None 2 s1 "[seg2]" None] r(2,3) pre(4)
      by (simp add: delivered_all)
    have w3: "hs_reachable sample_key \<lparr>w_client = c2, w_server = s1, w_to_server = {seg3, seg1}, w_to_client = {seg2}\<rparr>"
      using hs_reachable.synack [OF w2, of seg2 h2 "\<lambda>_. None" c2 "[seg3]" None] r(4,5,8)
      by (simp add: delivered_all)
    have "hs_reachable sample_key \<lparr>w_client = c2, w_server = s2, w_to_server = {seg3, seg1}, w_to_client = {seg2}\<rparr>"
      using hs_reachable.ack [OF w3, of seg3 h3 s2 None] r(6,7,9) by simp
    then show ?thesis using r(10) by (intro exI conjI) auto
  qed
qed


text \<open>
  A segment without the flags of its step, or with an acknowledgment of anything
  but the number after our SYN, is refused by both acknowledging handlers with the error of
  that cause, and leaves the connection as it was, with nothing sent.
\<close>

theorem handshake_refusals:
  "(\<not> HasFlag seg FlagSYN \<longrightarrow> handleSYN emit rnd now seg c = (c, [], Some ErrUnexpectedSegment))
   \<and> (\<not> (HasFlag seg FlagSYN \<and> HasFlag seg FlagACK) \<longrightarrow>
        handleSYNACK emit seg c = (c, [], Some ErrUnexpectedSegment))
   \<and> (HasFlag seg FlagSYN \<and> HasFlag seg FlagACK \<and> tcp_AckNum seg \<noteq> sndNXT c \<longrightarrow>
        handleSYNACK emit seg c = (c, [], Some ErrBadAck))
   \<and> (\<not> HasFlag seg FlagACK \<longrightarrow> handleACKInSynReceived seg c = (c, [], Some ErrUnexpectedSegment))
   \<and> (HasFlag seg FlagACK \<and> tcp_AckNum seg \<noteq> sndNXT c \<longrightarrow>
        handleACKInSynReceived seg c = (c, [], Some ErrBadAck))"
  by (simp add: handleSYN_def handleSYNACK_def handleACKInSynReceived_def)

theorem handshake_refusals_witness:
  "handleSYNACK (\<lambda>_. None :: string option) (syn_header\<lparr>tcp_Flags := 0x12, tcp_AckNum := 7\<rparr>) sample_client
     = (sample_client, [], Some ErrBadAck)
   \<and> handleACKInSynReceived syn_header sample_client = (sample_client, [], Some ErrUnexpectedSegment :: string conn_error option)"
proof
  have f: "HasFlag (syn_header\<lparr>tcp_Flags := 0x12, tcp_AckNum := 7\<rparr>) FlagSYN"
    "HasFlag (syn_header\<lparr>tcp_Flags := 0x12, tcp_AckNum := 7\<rparr>) FlagACK"
    "tcp_AckNum (syn_header\<lparr>tcp_Flags := 0x12, tcp_AckNum := 7\<rparr>) \<noteq> sndNXT sample_client"
    "\<not> HasFlag syn_header FlagACK" by code_simp+
  show "handleSYNACK (\<lambda>_. None :: string option) (syn_header\<lparr>tcp_Flags := 0x12, tcp_AckNum := 7\<rparr>) sample_client
     = (sample_client, [], Some ErrBadAck)"
    using handshake_refusals [where seg = "syn_header\<lparr>tcp_Flags := 0x12, tcp_AckNum := 7\<rparr>"] f(1-3) by blast
  show "handleACKInSynReceived syn_header sample_client = (sample_client, [], Some ErrUnexpectedSegment :: string conn_error option)"
    using handshake_refusals [where seg = syn_header] f(4) by blast
qed

text \<open>
  The handlers act before they validate: a SYN that arrives in SYN_RECEIVED or any
  later state makes \<open>handleSYN\<close> draw a new initial sequence number, overwrite the sequence
  variables of the connection and send a SYN-ACK, although it then returns an error for the
  invalid transition and leaves the state as it was.
\<close>

theorem late_SYN_overwrites:
  assumes "conn_State c \<notin> {StateClosed, StateListen, StateSynSent}" "HasFlag seg FlagSYN"
  shows "\<exists>c' out. handleSYN (\<lambda>_. None :: string option) rnd now seg c =
      (c', [out], Some (ErrTransition (InvalidTransition (conn_State c) StateSynReceived)))
    \<and> conn_State c' = conn_State c \<and> rcvNXT c' = tcp_SeqNum seg + 1
    \<and> sndISN c' = GenerateISN rnd now \<and> sndUNA c' = GenerateISN rnd now
    \<and> sndNXT c' = GenerateISN rnd now + 1"
  using assms by (simp add: handleSYN_eq)

theorem late_SYN_overwrites_witness:
  "\<exists>c' out. handleSYN (\<lambda>_. None :: string option) (Some [0, 0, 0, 9]) 0 syn_header
      (in_state StateEstablished sample_client)
      = (c', [out], Some (ErrTransition (InvalidTransition StateEstablished StateSynReceived)))
    \<and> conn_State c' = StateEstablished \<and> rcvNXT c' = 101"
proof -
  have "HasFlag syn_header FlagSYN" "tcp_SeqNum syn_header = 100" by code_simp+
  then show ?thesis
    using late_SYN_overwrites [of "in_state StateEstablished sample_client" syn_header
        "Some [0, 0, 0, 9]" 0] by auto
qed

end
