(* ===== verification/Tcp_Typing.thy ===== *)
theory Tcp_Typing
  imports Tcp_Handshake
begin

text \<open>
  A connection (\<^verbatim>\<open>internal/tcp/conn.go\<close>, \<^verbatim>\<open>handshake.go\<close>) under calls of its methods in any
  order and with any segments. No handler looks at the state before it acts, so what holds then
  is the type of a connection: which values its fields can have, and what the segments it sends
  look like. The lemmas at the end are about calls in states the handlers were not written for.
\<close>

section \<open>Well-formed connections\<close>

text \<open>What no method changes, and the segment size, which is only ever lowered and never to zero.\<close>

definition conn_params :: "conn_key \<Rightarrow> tcp_conn \<Rightarrow> bool" where
  "conn_params key c \<longleftrightarrow>
     conn_key c = key \<and> rcvWND c = DefaultWindow \<and> 0 < conn_mss c \<and> conn_mss c \<le> DefaultMSS
     \<and> \<not> sm_onTransition (conn_state c)"

text \<open>
  The send variables: either no number was ever drawn, and the connection is closed, or the next
  number is the one behind the initial one, which is acknowledged or not.
\<close>

definition seq_wf :: "tcp_conn \<Rightarrow> bool" where
  "seq_wf c \<longleftrightarrow>
     (conn_State c = StateClosed \<and> sndISN c = 0 \<and> sndNXT c = 0 \<and> sndUNA c = 0)
     \<or> (sndNXT c = sndISN c + 1 \<and> sndUNA c \<in> {sndISN c, sndISN c + 1})"

definition conn_wf :: "conn_key \<Rightarrow> tcp_conn \<Rightarrow> bool" where
  "conn_wf key c \<longleftrightarrow> conn_params key c \<and> seq_wf c
     \<and> conn_State c \<in> {StateClosed, StateListen, StateSynSent, StateSynReceived, StateEstablished}"

text \<open>
  A segment of a connection: it parses, has no payload, the ports, the window and a flag
  combination of the handshake, an MSS option exactly with a SYN, and a valid checksum.
\<close>

definition segment_wf :: "conn_key \<Rightarrow> bytes \<Rightarrow> bool" where
  "segment_wf key seg \<longleftrightarrow>
     (\<exists>h. TcpParseHeader seg = Ok h \<and> TcpHeaderLen h = length seg
        \<and> tcp_SrcPort h = ck_SrcPort key \<and> tcp_DstPort h = ck_DstPort key \<and> tcp_Window h = DefaultWindow
        \<and> tcp_Flags h \<in> {FlagSYN, FlagSYN OR FlagACK, FlagACK}
        \<and> (if HasFlag h FlagSYN then \<exists>m. parseMSS h = Some m \<and> 0 < m \<and> m \<le> DefaultMSS else tcp_Options h = [])
        \<and> Verify (NewChecksumCalculator (ck_SrcIP key) (ck_DstIP key)) seg)"

text \<open>Any sequence of calls, with the segments passed to the output functions.\<close>

inductive conn_run :: "conn_key \<Rightarrow> tcp_conn \<Rightarrow> bytes list \<Rightarrow> bool" for key where
  create: "conn_run key (NewTCPConn key) []"
| active: "conn_run key c out \<Longrightarrow> sendSYN (emit :: string segment_output) rnd now c = (c', sent, err) \<Longrightarrow>
    conn_run key c' (out @ sent)"
| syn: "conn_run key c out \<Longrightarrow> handleSYN (emit :: string segment_output) rnd now seg c = (c', sent, err) \<Longrightarrow>
    conn_run key c' (out @ sent)"
| synack: "conn_run key c out \<Longrightarrow> handleSYNACK (emit :: string segment_output) seg c = (c', sent, err) \<Longrightarrow>
    conn_run key c' (out @ sent)"
| ack: "conn_run key c out \<Longrightarrow> handleACKInSynReceived seg c = (c', sent, err :: string conn_error option) \<Longrightarrow>
    conn_run key c' (out @ sent)"
| bare_ack: "conn_run key c out \<Longrightarrow> sendACK (emit :: string segment_output) c = (sent, err) \<Longrightarrow>
    conn_run key c (out @ sent)"

section \<open>Segments\<close>

lemma sent_segment_wf:
  assumes "options_wf h" "key_wf key" "conn_key c = key"
    and "tcp_SrcPort h = ck_SrcPort key" "tcp_DstPort h = ck_DstPort key" "tcp_Window h = DefaultWindow"
    and "tcp_Flags h \<in> {FlagSYN, FlagSYN OR FlagACK, FlagACK}"
    and "if HasFlag h FlagSYN then \<exists>m. tcp_Options h = [mssOption m] \<and> 0 < m \<and> m \<le> DefaultMSS else tcp_Options h = []"
  shows "segment_wf key (sent_segment c h)"
proof -
  let ?r = "received_header c h"
  have p: "TcpParseHeader (sent_segment c h) = Ok ?r" by (rule sent_segment_parses [OF assms(1)])
  have "TcpHeaderLen ?r = length (sent_segment c h)"
    using with_offset_value(1) [of "h\<lparr>tcp_Checksum := Compute (checksumCalc c) (tcp_bytes (h\<lparr>tcp_Checksum := 0\<rparr>))\<rparr>"]
      options_wf_len [OF assms(1)]
    by (simp add: received_header_def TcpHeaderLen_def sent_segment_def length_tcp_bytes padded_options_def)
  moreover have "Verify (NewChecksumCalculator (ck_SrcIP key) (ck_DstIP key)) (sent_segment c h)"
    using sent_segment_verifies(1) [OF assms(1), of c] assms(2,3) by (simp add: checksumCalc_def)
  moreover have "if HasFlag ?r FlagSYN then \<exists>m. parseMSS ?r = Some m \<and> 0 < m \<and> m \<le> DefaultMSS
      else tcp_Options ?r = []"
    using assms(8) by (auto simp: HasFlag_def parseMSS_def simp del: find_mss.simps split: if_splits)
  ultimately show ?thesis
    unfolding segment_wf_def using p assms(4-7) by (intro exI [of _ ?r]) auto
qed

lemma segs_of_params:
  assumes "key_wf key" "conn_params key c"
  shows "segment_wf key (sent_segment c (syn_seg c))" "segment_wf key (sent_segment c (synack_seg c))"
    "segment_wf key (sent_segment c (ack_seg c))"
proof -
  note p = assms(2) [unfolded conn_params_def]
  note seg_opts = syn_seg_def synack_seg_def ack_seg_def
  have nz: "FlagSYN \<noteq> 0" "FlagACK \<noteq> 0" by (simp_all add: tcp_consts)
  show "segment_wf key (sent_segment c (syn_seg c))"
    using p assms(1) by (intro sent_segment_wf) (auto simp: seg_opts options_wf_mss options_wf_nil HasFlag_def syn_flags nz)
  show "segment_wf key (sent_segment c (synack_seg c))"
    using p assms(1) by (intro sent_segment_wf) (auto simp: seg_opts options_wf_mss options_wf_nil HasFlag_def syn_flags nz)
  show "segment_wf key (sent_segment c (ack_seg c))"
    using p assms(1) by (intro sent_segment_wf) (auto simp: seg_opts options_wf_mss options_wf_nil HasFlag_def syn_flags nz)
qed

section \<open>Every call keeps the type\<close>

lemma conn_params_upd [simp]:
  "conn_params key (set_isn i c) = conn_params key c"
  "conn_params key (in_state s c) = conn_params key c"
  "conn_params key (c\<lparr>sndUNA := u\<rparr>) = conn_params key c"
  "conn_params key (c\<lparr>sndWND := w\<rparr>) = conn_params key c"
  "conn_params key (c\<lparr>rcvNXT := r\<rparr>) = conn_params key c"
  by (simp_all add: conn_params_def set_isn_def in_state_def)

lemma conn_params_negotiate: "conn_params key c \<Longrightarrow> conn_params key (negotiateMSS seg c)"
  by (auto simp: conn_params_def negotiateMSS_def split: option.splits)

lemma conn_params_received:
  "conn_params key c \<Longrightarrow> conn_params key (syn_received i seg c)"
  "conn_params key c \<Longrightarrow> conn_params key (synack_received seg c)"
  by (simp_all add: syn_received_def synack_received_def conn_params_negotiate)

lemma seq_wf_drawn:
  "sndISN c' = i \<Longrightarrow> sndNXT c' = i + 1 \<Longrightarrow> sndUNA c' \<in> {i, i + 1} \<Longrightarrow> seq_wf c'"
  by (simp add: seq_wf_def)

text \<open>An acknowledgment of the next number is the only one that is taken over.\<close>

lemma seq_wf_acked:
  "seq_wf c \<Longrightarrow> sndISN c' = sndISN c \<Longrightarrow> sndNXT c' = sndNXT c \<Longrightarrow> sndUNA c' = sndNXT c \<Longrightarrow>
   conn_State c = StateClosed \<longrightarrow> conn_State c' = StateClosed \<Longrightarrow> seq_wf c'"
  by (auto simp: seq_wf_def)

lemma sendSYN_keeps:
  assumes "sendSYN emit rnd now c = (c', sent, err)" "conn_wf key c" "key_wf key"
  shows "conn_wf key c' \<and> list_all (segment_wf key) sent"
proof -
  let ?c = "set_isn (GenerateISN rnd now) c"
  have p: "conn_params key ?c" "conn_State c \<in> {StateClosed, StateListen, StateSynSent, StateSynReceived, StateEstablished}"
    using assms(2) by (simp_all add: conn_wf_def)
  have "c' = ?c \<or> c' = in_state StateSynSent ?c" "sent = [sent_segment ?c (syn_seg ?c)]"
    using assms(1) unfolding sendSYN_eq by (auto split: option.splits if_splits)
  then show ?thesis
    using p segs_of_params(1) [OF assms(3) p(1)] by (auto simp: conn_wf_def seq_wf_def)
qed

lemma handleSYN_keeps:
  assumes "handleSYN emit rnd now seg c = (c', sent, err)" "conn_wf key c" "key_wf key"
  shows "conn_wf key c' \<and> list_all (segment_wf key) sent"
proof (cases "HasFlag seg FlagSYN")
  case True
  let ?l = "if conn_State c = StateClosed then in_state StateListen c else c"
  let ?c = "syn_received (GenerateISN rnd now) seg ?l"
  have p: "conn_params key ?c" "conn_State c \<in> {StateClosed, StateListen, StateSynSent, StateSynReceived, StateEstablished}"
    using assms(2) by (auto simp: conn_wf_def intro: conn_params_received)
  have "c' = ?c \<or> c' = in_state StateSynReceived ?c" "sent = [sent_segment ?c (synack_seg ?c)]"
    using assms(1) True unfolding handleSYN_eq by (auto split: option.splits if_splits)
  then show ?thesis
    using p segs_of_params(2) [OF assms(3) p(1)] by (auto simp: conn_wf_def seq_wf_def)
qed (use assms in \<open>simp add: handleSYN_eq\<close>)

lemma handleSYNACK_keeps:
  assumes "handleSYNACK emit seg c = (c', sent, err)" "conn_wf key c" "key_wf key"
  shows "conn_wf key c' \<and> list_all (segment_wf key) sent"
proof (cases "HasFlag seg FlagSYN \<and> HasFlag seg FlagACK \<and> tcp_AckNum seg = sndNXT c")
  case True
  let ?c = "synack_received seg c"
  have p: "conn_params key ?c" "conn_State c \<in> {StateClosed, StateListen, StateSynSent, StateSynReceived, StateEstablished}"
    "seq_wf c"
    using assms(2) by (simp_all add: conn_wf_def conn_params_received)
  have "c' = ?c \<or> (c' = in_state StateEstablished ?c \<and> conn_State c \<noteq> StateClosed)"
    "sent = [sent_segment ?c (ack_seg ?c)]"
    using assms(1) True unfolding handleSYNACK_eq by (auto split: option.splits if_splits)
  moreover have "seq_wf ?c" using True by (intro seq_wf_acked [OF p(3)]) simp_all
  moreover have "seq_wf (in_state StateEstablished ?c)" if "conn_State c \<noteq> StateClosed"
    using True that by (intro seq_wf_acked [OF p(3)]) simp_all
  ultimately show ?thesis
    using p segs_of_params(3) [OF assms(3) p(1)] by (auto simp: conn_wf_def)
qed (use assms in \<open>auto simp: handleSYNACK_eq split: if_splits\<close>)

lemma handleACK_keeps:
  assumes "handleACKInSynReceived seg c = (c', sent, err)" "conn_wf key c"
  shows "conn_wf key c' \<and> sent = []"
proof (cases "HasFlag seg FlagACK \<and> tcp_AckNum seg = sndNXT c")
  case True
  let ?c = "c\<lparr>sndUNA := tcp_AckNum seg, sndWND := tcp_Window seg\<rparr>"
  have p: "conn_params key ?c" "conn_State c \<in> {StateClosed, StateListen, StateSynSent, StateSynReceived, StateEstablished}"
    "seq_wf c"
    using assms(2) by (simp_all add: conn_wf_def)
  have "c' = ?c \<or> (c' = in_state StateEstablished ?c \<and> conn_State c \<noteq> StateClosed)" "sent = []"
    using assms(1) True by (auto simp: handleACK_eq Let_def split: if_splits)
  moreover have "seq_wf ?c" using True by (intro seq_wf_acked [OF p(3)]) simp_all
  moreover have "seq_wf (in_state StateEstablished ?c)" if "conn_State c \<noteq> StateClosed"
    using True that by (intro seq_wf_acked [OF p(3)]) simp_all
  ultimately show ?thesis using p by (auto simp: conn_wf_def)
qed (use assms in \<open>auto simp: handleACK_eq split: if_splits\<close>)

lemma sendACK_keeps:
  assumes "sendACK emit c = (sent, err)" "conn_wf key c" "key_wf key"
  shows "list_all (segment_wf key) sent"
proof -
  have "sent = [sent_segment c (ack_seg c)]"
    using assms(1) by (simp add: sendACK_def conn_send_eq Let_def flip: ack_seg_def)
  then show ?thesis using segs_of_params(3) [OF assms(3)] assms(2) by (simp add: conn_wf_def)
qed

lemma conn_wf_new: "conn_wf key (NewTCPConn key)"
  by (simp add: conn_wf_def conn_params_def seq_wf_def NewTCPConn_def conn_State_def Current_def
      NewStateMachine_def DefaultMSS_def)

section \<open>Properties\<close>

text \<open>
  Property C14. Every connection is well-formed, and so is everything it sends: for calls of the methods in any
  order, with any segments and any output functions, the key and the advertised window stay, the
  segment size stays between 1 and 1460, the sequence variables fit together, the state is one of
  the handshake's, and each segment has the ports, the window, the flags and options of a
  handshake segment, parses, and verifies.
\<close>

theorem conn_well_typed:
  assumes "conn_run key c out" "key_wf key"
  shows "conn_wf key c \<and> list_all (segment_wf key) out"
  using assms(1)
proof (induction rule: conn_run.induct)
  case create
  show ?case by (simp add: conn_wf_new)
next
  case (active c out emit rnd now c' sent err)
  then show ?case using sendSYN_keeps [OF active(2) _ assms(2)] by simp
next
  case (syn c out emit rnd now seg c' sent err)
  then show ?case using handleSYN_keeps [OF syn(2) _ assms(2)] by simp
next
  case (synack c out emit seg c' sent err)
  then show ?case using handleSYNACK_keeps [OF synack(2) _ assms(2)] by simp
next
  case (ack c out seg c' sent err)
  then show ?case using handleACK_keeps [OF ack(2)] by auto
next
  case (bare_ack c out emit sent err)
  then show ?case using sendACK_keeps [OF bare_ack(2) _ assms(2)] by simp
qed

text \<open>A connection on which a SYN arrives twice, the second time out of place.\<close>

theorem conn_well_typed_witness:
  "\<exists>c seg1 seg2. conn_run sample_key c [seg1, seg2] \<and> conn_wf sample_key c
    \<and> segment_wf sample_key seg1 \<and> segment_wf sample_key seg2"
proof -
  have k: "key_wf sample_key" and f: "HasFlag syn_header FlagSYN" by code_simp+
  obtain c1 s1 e1 where 1: "handleSYN (\<lambda>_. None :: string option) None 1 syn_header (NewTCPConn sample_key) = (c1, s1, e1)"
    by (metis surj_pair)
  obtain c2 s2 e2 where 2: "handleSYN (\<lambda>_. None :: string option) None 2 syn_header c1 = (c2, s2, e2)"
    by (metis surj_pair)
  have "\<exists>seg. s1 = [seg]" "\<exists>seg. s2 = [seg]" using 1 2 f by (auto simp: handleSYN_eq split: if_splits)
  then obtain seg1 seg2 where s: "s1 = [seg1]" "s2 = [seg2]" by blast
  have "conn_run sample_key c2 [seg1, seg2]"
    using conn_run.syn [OF conn_run.syn [OF conn_run.create 1] 2] s by simp
  from this conn_well_typed [OF this k] show ?thesis by auto
qed

section \<open>Handlers out of place\<close>

text \<open>
  A SYN in SYN_SENT, the simultaneous open of the state diagram: the SYN-ACK carries a new initial
  sequence number and not that of the SYN already sent, to which the peer has set its own next
  number; the two ends then disagree unless the same number is drawn again.
\<close>

lemma simultaneous_open_new_ISN:
  assumes "conn_State c = StateSynSent" "HasFlag seg FlagSYN"
  shows "\<exists>c' out h. handleSYN (\<lambda>_. None :: string option) rnd now seg c = (c', [out], None)
    \<and> conn_State c' = StateSynReceived \<and> TcpParseHeader out = Ok h
    \<and> tcp_SeqNum h = GenerateISN rnd now \<and> tcp_AckNum h = tcp_SeqNum seg + 1"
  using assms sent_segment_parses(1) [OF segs_wf(2)]
  by (auto simp: handleSYN_eq seg_fields)

text \<open>
  An ACK without a SYN in SYN_SENT: \<open>handleACKInSynReceived\<close> takes it, and the connection is
  ESTABLISHED without ever having seen a sequence number of its peer.
\<close>

lemma bare_ACK_establishes:
  assumes "conn_State c = StateSynSent" "HasFlag seg FlagACK" "tcp_AckNum seg = sndNXT c"
  shows "\<exists>c'. handleACKInSynReceived seg c = (c', [], None :: string conn_error option)
    \<and> conn_State c' = StateEstablished \<and> rcvNXT c' = rcvNXT c"
  using assms by (simp add: handleACK_eq Let_def)

end
