(* ===== verification/Tcp_Locking.thy ===== *)
theory Tcp_Locking
  imports Tcp_State "HOL-Library.Multiset"
begin

text \<open>
  The mutex of the state machine (\<^verbatim>\<open>internal/tcp/state.go\<close>). Its methods lock a \<^verbatim>\<open>sync.RWMutex\<close>,
  which is not reentrant, and \<open>Transition\<close> calls the callback while it holds the lock. Here any
  number of goroutines call the methods, one step at a time; a callback is the list of the
  methods that it calls on the machine. The lemmas show that all calls return as long as no
  callback calls the machine, and that a callback that does so never returns, nor does any other
  call from then on.
\<close>

section \<open>Calls\<close>

datatype sm_call =
    CallTransition tcp_state
  | CallSetOnTransition "sm_call list option"
  | CallCurrent
  | CallIs tcp_state

text \<open>\<open>Lock\<close> or \<open>RLock\<close>.\<close>

fun takes_write_lock :: "sm_call \<Rightarrow> bool" where
  "takes_write_lock (CallTransition to) = True"
| "takes_write_lock (CallSetOnTransition cb) = True"
| "takes_write_lock CallCurrent = False"
| "takes_write_lock (CallIs s) = False"

text \<open>
  A frame of a goroutine: a call before its lock, behind it, and before the deferred unlock; a
  callback with the calls it still has to make.
\<close>

datatype sm_frame =
    AtLock sm_call
  | InBody sm_call
  | InCallback "sm_call list"
  | AtUnlock
  | AtRUnlock

record sm_shared =
  sh_machine :: state_machine
  sh_callback :: "sm_call list"
  sh_writer :: bool
  sh_readers :: nat

text \<open>One step of a goroutine, unless its mutex makes it wait.\<close>

fun sm_exec :: "sm_frame \<Rightarrow> sm_frame list \<Rightarrow> sm_shared \<Rightarrow> (sm_frame list \<times> sm_shared) option" where
  "sm_exec (AtLock c) fs s =
     (if takes_write_lock c then
        (if sh_writer s \<or> sh_readers s \<noteq> 0 then None else Some (InBody c # fs, s\<lparr>sh_writer := True\<rparr>))
      else (if sh_writer s then None else Some (InBody c # fs, s\<lparr>sh_readers := sh_readers s + 1\<rparr>)))"
| "sm_exec (InBody (CallTransition to)) fs s =
     (case Transition to (sh_machine s) of
        (sm, calls, err) \<Rightarrow>
          Some ((if calls = [] then AtUnlock else InCallback (sh_callback s)) # fs, s\<lparr>sh_machine := sm\<rparr>))"
| "sm_exec (InBody (CallSetOnTransition cb)) fs s =
     Some (AtUnlock # fs, s\<lparr>sh_machine := SetOnTransition (cb \<noteq> None) (sh_machine s),
                            sh_callback := (case cb of None \<Rightarrow> [] | Some calls \<Rightarrow> calls)\<rparr>)"
| "sm_exec (InBody CallCurrent) fs s = Some (AtRUnlock # fs, s)"
| "sm_exec (InBody (CallIs st)) fs s = Some (AtRUnlock # fs, s)"
| "sm_exec (InCallback []) fs s = Some (AtUnlock # fs, s)"
| "sm_exec (InCallback (c # cs)) fs s = Some (AtLock c # InCallback cs # fs, s)"
| "sm_exec AtUnlock fs s = Some (fs, s\<lparr>sh_writer := False\<rparr>)"
| "sm_exec AtRUnlock fs s = Some (fs, s\<lparr>sh_readers := sh_readers s - 1\<rparr>)"

record sm_system =
  sm_shared_state :: sm_shared
  sm_threads :: "sm_frame list multiset"

inductive sm_run :: "sm_system \<Rightarrow> sm_system \<Rightarrow> bool" where
  run: "sm_threads s = add_mset (f # fs) ts \<Longrightarrow> sm_exec f fs (sm_shared_state s) = Some (fs', sh) \<Longrightarrow>
    sm_run s \<lparr>sm_shared_state = sh, sm_threads = add_mset fs' ts\<rparr>"

inductive sm_step :: "sm_system \<Rightarrow> sm_system \<Rightarrow> bool" where
  call: "sm_step s (s\<lparr>sm_threads := add_mset [AtLock c] (sm_threads s)\<rparr>)"
| run: "sm_run s s' \<Longrightarrow> sm_step s s'"

definition sm_start :: "tcp_state \<Rightarrow> sm_system" where
  "sm_start initial =
     \<lparr>sm_shared_state = \<lparr>sh_machine = NewStateMachine initial, sh_callback = [], sh_writer = False, sh_readers = 0\<rparr>,
      sm_threads = {#}\<rparr>"

section \<open>The invariant\<close>

text \<open>The goroutines there can be, and which of them hold the lock.\<close>

fun holds_write :: "sm_frame list \<Rightarrow> bool" where
  "holds_write [InBody c] = takes_write_lock c"
| "holds_write [InCallback cs] = True"
| "holds_write [AtLock c, InCallback cs] = True"
| "holds_write [AtUnlock] = True"
| "holds_write _ = False"

fun holds_read :: "sm_frame list \<Rightarrow> bool" where
  "holds_read [InBody c] = (\<not> takes_write_lock c)"
| "holds_read [AtRUnlock] = True"
| "holds_read _ = False"

fun holds_none :: "sm_frame list \<Rightarrow> bool" where
  "holds_none [] = True"
| "holds_none [AtLock c] = True"
| "holds_none _ = False"

definition lock_inv :: "sm_system \<Rightarrow> bool" where
  "lock_inv s \<longleftrightarrow>
     (\<forall>t \<in># sm_threads s. holds_none t \<or> holds_write t \<or> holds_read t)
     \<and> size (filter_mset holds_write (sm_threads s)) = (if sh_writer (sm_shared_state s) then 1 else 0)
     \<and> size (filter_mset holds_read (sm_threads s)) = sh_readers (sm_shared_state s)
     \<and> (sh_writer (sm_shared_state s) \<longrightarrow> sh_readers (sm_shared_state s) = 0)"

lemma holds_disjoint:
  "holds_write t \<Longrightarrow> \<not> holds_read t \<and> \<not> holds_none t" "holds_read t \<Longrightarrow> \<not> holds_none t"
  by (cases t rule: holds_write.cases; auto)+

lemma holdsE:
  assumes "holds_none t \<or> holds_write t \<or> holds_read t"
  obtains "t = []" | c where "t = [AtLock c]" | c where "t = [InBody c]"
    | cs where "t = [InCallback cs]" | c cs where "t = [AtLock c, InCallback cs]"
    | "t = [AtUnlock]" | "t = [AtRUnlock]"
proof -
  show ?thesis
    using assms that by (cases t rule: holds_write.cases) (auto elim: holds_none.elims holds_read.elims)
qed

lemma sm_run_inv:
  assumes "sm_run s s'" "lock_inv s"
  shows "lock_inv s'"
  using assms(1)
proof cases
  case (run f fs ts fs' sh)
  have t: "holds_none (f # fs) \<or> holds_write (f # fs) \<or> holds_read (f # fs)"
    using assms(2) run(2) by (simp add: lock_inv_def)
  have e: "sm_exec f fs (sm_shared_state s) = Some (fs', sh)" by (rule run(3))
  note i = assms(2) [unfolded lock_inv_def run(2)]
  from t show ?thesis
  proof (cases rule: holdsE)
    case (3 c)
    then show ?thesis using i e unfolding run(1)
      by (cases c) (auto simp: lock_inv_def split: if_splits prod.splits)
  next
    case (4 cs)
    then show ?thesis using i e unfolding run(1)
      by (cases cs) (auto simp: lock_inv_def split: if_splits)
  qed (use i e in \<open>auto simp: run(1) lock_inv_def split: if_splits\<close>)
qed

lemma sm_reach_inv: "sm_step\<^sup>*\<^sup>* (sm_start i) s \<Longrightarrow> lock_inv s"
proof (induction rule: rtranclp_induct)
  case base
  show ?case by (simp add: lock_inv_def sm_start_def)
next
  case (step s s')
  from step(2) show ?case
  proof cases
    case (call c)
    then show ?thesis using step.IH by (simp add: lock_inv_def)
  qed (use step.IH sm_run_inv in blast)
qed

section \<open>Callbacks that leave the machine alone\<close>

fun quiet_call :: "sm_call \<Rightarrow> bool" where
  "quiet_call (CallSetOnTransition cb) = (cb = None \<or> cb = Some [])"
| "quiet_call _ = True"

fun quiet_frame :: "sm_frame \<Rightarrow> bool" where
  "quiet_frame (AtLock c) = quiet_call c"
| "quiet_frame (InBody c) = quiet_call c"
| "quiet_frame (InCallback cs) = (cs = [])"
| "quiet_frame _ = True"

definition quiet_thread :: "sm_frame list \<Rightarrow> bool" where
  "quiet_thread t \<longleftrightarrow> list_all quiet_frame t \<and> length t \<le> 1"

definition quiet :: "sm_system \<Rightarrow> bool" where
  "quiet s \<longleftrightarrow> sh_callback (sm_shared_state s) = [] \<and> (\<forall>t \<in># sm_threads s. quiet_thread t)"

text \<open>The steps a goroutine has left at most.\<close>

fun frame_work :: "sm_frame \<Rightarrow> nat" where
  "frame_work (AtLock c) = 4"
| "frame_work (InBody c) = 3"
| "frame_work (InCallback cs) = 2"
| "frame_work AtUnlock = 1"
| "frame_work AtRUnlock = 1"

definition thread_work :: "sm_frame list \<Rightarrow> nat" where
  "thread_work t = sum_list (map frame_work t)"

definition work :: "sm_system \<Rightarrow> nat" where
  "work s = \<Sum>\<^sub># (image_mset thread_work (sm_threads s))"

lemma quiet_run:
  assumes "sm_run s s'" "quiet s"
  shows "quiet s' \<and> work s' < work s"
  using assms(1)
proof cases
  case (run f fs ts fs' sh)
  have q: "quiet_frame f" "fs = []" "sh_callback (sm_shared_state s) = []"
    "\<forall>t \<in># ts. quiet_thread t"
    using assms(2) run(2) by (simp_all add: quiet_def quiet_thread_def)
  have "quiet_thread fs' \<and> sh_callback sh = [] \<and> thread_work fs' < thread_work (f # fs)"
    using run(3) q by (cases "(f, fs, sm_shared_state s)" rule: sm_exec.cases)
      (auto simp: thread_work_def quiet_thread_def split: if_splits prod.splits option.splits)
  then show ?thesis using q(4) run(2) by (simp add: run(1) quiet_def work_def)
qed

text \<open>A goroutine that holds the lock can go on.\<close>

lemma body_runs: "\<exists>r. sm_exec (InBody c) fs sh = Some r"
  by (cases c) (auto split: prod.split)

lemma holder_runs:
  assumes "holds_write t \<or> holds_read t" "quiet_thread t"
  shows "\<exists>f fs r. t = f # fs \<and> sm_exec f fs sh = Some r"
proof -
  have "holds_none t \<or> holds_write t \<or> holds_read t" using assms(1) by blast
  then show ?thesis
    using assms body_runs by (cases rule: holdsE) (auto simp: quiet_thread_def)
qed

lemma can_run:
  assumes "lock_inv s" "quiet s" "t \<in># sm_threads s" "t \<noteq> []"
  shows "\<exists>s'. sm_run s s'"
proof -
  let ?sh = "sm_shared_state s"
  have runs: "\<exists>s'. sm_run s s'" if m: "u \<in># sm_threads s" and e: "u = f # fs" "sm_exec f fs ?sh = Some r" for u f fs r
  proof -
    obtain ts where "sm_threads s = add_mset u ts" using m by (metis mset_add)
    then show ?thesis using e sm_run.run [of s f fs ts "fst r" "snd r"] by auto
  qed
  show ?thesis
  proof (cases "\<exists>u \<in># sm_threads s. holds_write u \<or> holds_read u")
    case True
    then obtain u where u: "u \<in># sm_threads s" "holds_write u \<or> holds_read u" by blast
    moreover have "quiet_thread u" using assms(2) u(1) by (simp add: quiet_def)
    ultimately show ?thesis using holder_runs [of u ?sh] runs by blast
  next
    case False
    then have z: "filter_mset holds_write (sm_threads s) = {#}" "filter_mset holds_read (sm_threads s) = {#}"
      by auto
    then have f: "\<not> sh_writer ?sh" "sh_readers ?sh = 0" using assms(1) unfolding lock_inv_def z
      by (simp_all split: if_splits)
    have "holds_none t" using assms(1,3) False by (auto simp: lock_inv_def)
    then obtain c where "t = [AtLock c]" using assms(4) by (auto elim: holds_none.elims)
    then show ?thesis using f runs [OF assms(3), of "AtLock c" "[]"] by (cases "takes_write_lock c") auto
  qed
qed

lemma thread_work_start:
  assumes "lock_inv s" "quiet s"
  shows "work s \<le> 4 * size (sm_threads s)"
proof -
  have "thread_work t \<le> 4" if "t \<in># sm_threads s" for t
  proof -
    have "holds_none t \<or> holds_write t \<or> holds_read t" "quiet_thread t"
      using that assms by (auto simp: lock_inv_def quiet_def)
    then show ?thesis by (cases rule: holdsE) (auto simp: thread_work_def quiet_thread_def)
  qed
  then have "(\<Sum>t \<in># sm_threads s. thread_work t) \<le> (\<Sum>t \<in># sm_threads s. 4)"
    by (intro sum_mset_mono) simp
  then show ?thesis by (simp add: work_def)
qed

lemma quiet_runs:
  assumes "(sm_run ^^ n) s s'" "lock_inv s" "quiet s"
  shows "lock_inv s' \<and> quiet s' \<and> n + work s' \<le> work s"
  using assms(1)
proof (induction n arbitrary: s')
  case 0
  then show ?case using assms(2,3) by simp
next
  case (Suc n)
  then obtain u where "(sm_run ^^ n) s u" "sm_run u s'" by auto
  then show ?case using Suc.IH [of u] quiet_run [of u s'] sm_run_inv [of u s'] by auto
qed

section \<open>Callbacks that call the machine\<close>

text \<open>A goroutine whose callback waits for the lock that it holds itself.\<close>

definition self_blocked :: "sm_frame list \<Rightarrow> bool" where
  "self_blocked t \<longleftrightarrow> (\<exists>c cs. t = [AtLock c, InCallback cs])"

lemma self_blocked_stuck:
  assumes "lock_inv s" "t \<in># sm_threads s" "self_blocked t"
  shows "\<not> sm_run s s'"
proof
  assume r: "sm_run s s'"
  obtain ts where ts: "sm_threads s = add_mset t ts" using assms(2) by (metis mset_add)
  have w: "holds_write t" using assms(3) by (auto simp: self_blocked_def)
  then have k: "sh_writer (sm_shared_state s)" "sh_readers (sm_shared_state s) = 0"
    "filter_mset holds_write ts = {#}" "filter_mset holds_read ts = {#}"
    using assms(1) by (auto simp: lock_inv_def ts split: if_splits)
  from r show False
  proof cases
    case (run f fs us fs' sh)
    then have m: "f # fs \<in># add_mset t ts" by (metis ts union_single_eq_member)
    have "(\<exists>c. f # fs = [AtLock c]) \<or> self_blocked (f # fs)"
    proof (cases "f # fs = t")
      case False
      then have "f # fs \<in># ts" using m by simp
      then have "holds_none (f # fs)" using assms(1) k(3,4) by (auto simp: lock_inv_def ts)
      then show ?thesis by (auto elim: holds_none.elims)
    qed (use assms(3) in simp)
    then obtain c where "f = AtLock c" by (auto simp: self_blocked_def)
    then show ?thesis using run(3) k(1) by (auto split: if_splits)
  qed
qed

section \<open>Properties\<close>

text \<open>
  Property C21. All calls of the machine return as long as no callback calls it back: from any reachable state
  of any number of concurrent calls, the goroutines take at most four more steps per call, under
  every schedule, and whenever they cannot take another one, all calls have returned.
\<close>

theorem calls_return:
  assumes "sm_step\<^sup>*\<^sup>* (sm_start i) s" "quiet s" "(sm_run ^^ n) s s'"
  shows "n \<le> 4 * size (sm_threads s)
    \<and> ((\<exists>s''. sm_run s' s'') \<or> set_mset (sm_threads s') \<subseteq> {[]})"
proof -
  have l: "lock_inv s" by (rule sm_reach_inv [OF assms(1)])
  have q: "lock_inv s'" "quiet s'" "n + work s' \<le> work s" using quiet_runs [OF assms(3) l assms(2)] by auto
  have "n \<le> 4 * size (sm_threads s)" using q(3) thread_work_start [OF l assms(2)] by simp
  then show ?thesis using can_run [OF q(1,2)] by blast
qed

text \<open>Two calls at once: a transition and a query.\<close>

definition two_calls :: sm_system where
  "two_calls = (sm_start StateClosed)\<lparr>sm_threads := {#[AtLock (CallTransition StateListen)], [AtLock CallCurrent]#}\<rparr>"

lemma two_calls_reachable: "sm_step\<^sup>*\<^sup>* (sm_start StateClosed) two_calls"
proof -
  have "sm_step (sm_start StateClosed) ((sm_start StateClosed)\<lparr>sm_threads := {#[AtLock CallCurrent]#}\<rparr>)"
    using sm_step.call [of "sm_start StateClosed" CallCurrent] by (simp add: sm_start_def)
  moreover have "sm_step ((sm_start StateClosed)\<lparr>sm_threads := {#[AtLock CallCurrent]#}\<rparr>) two_calls"
    using sm_step.call [of "(sm_start StateClosed)\<lparr>sm_threads := {#[AtLock CallCurrent]#}\<rparr>" "CallTransition StateListen"]
    by (simp add: sm_start_def two_calls_def)
  ultimately show ?thesis by (meson r_into_rtranclp rtranclp.rtrancl_into_rtrancl)
qed

theorem calls_return_witness: "\<exists>s'. sm_run two_calls s'"
proof -
  have "quiet two_calls" by (simp add: quiet_def quiet_thread_def two_calls_def sm_start_def)
  from calls_return [OF two_calls_reachable this, of 0 two_calls]
  show ?thesis by (auto simp: two_calls_def)
qed

text \<open>
  A callback that calls any method of its own machine never returns: \<open>Transition\<close> holds the
  mutex when it runs the callback. From then on, whatever calls are made, no goroutine takes
  another step: the transition has been made, but neither it nor any other call returns.
\<close>

theorem callback_deadlock:
  assumes "sm_step\<^sup>*\<^sup>* (sm_start i) s" "t \<in># sm_threads s" "self_blocked t" "sm_step\<^sup>*\<^sup>* s s'"
  shows "t \<in># sm_threads s' \<and> sm_shared_state s' = sm_shared_state s \<and> sm_threads s \<subseteq># sm_threads s'
    \<and> \<not> (\<exists>s''. sm_run s' s'')"
  using assms(4)
proof (induction rule: rtranclp_induct)
  case base
  then show ?case using assms(2) self_blocked_stuck [OF sm_reach_inv [OF assms(1)] assms(2,3)] by auto
next
  case (step u v)
  have "lock_inv v" using step.hyps assms(1) by (meson rtranclp.rtrancl_into_rtrancl rtranclp_trans sm_reach_inv)
  moreover from step(2) have "t \<in># sm_threads v \<and> sm_shared_state v = sm_shared_state s \<and> sm_threads s \<subseteq># sm_threads v"
  proof cases
    case (call c)
    then show ?thesis using step.IH by (auto intro: subset_mset.order_trans)
  qed (use step.IH in blast)
  ultimately show ?case using self_blocked_stuck assms(3) by blast
qed

text \<open>The callback that logs the current state of its machine.\<close>

lemma current_in_callback:
  "\<exists>s. sm_step\<^sup>*\<^sup>* (sm_start StateClosed) s \<and> [AtLock CallCurrent, InCallback []] \<in># sm_threads s
    \<and> Current (sh_machine (sm_shared_state s)) = StateListen"
proof -
  let ?set = "CallSetOnTransition (Some [CallCurrent])" and ?go = "CallTransition StateListen"
  have run: "sm_step \<lparr>sm_shared_state = sh, sm_threads = add_mset (f # fs) ts\<rparr>
      \<lparr>sm_shared_state = sh', sm_threads = add_mset fs' ts\<rparr>" if "sm_exec f fs sh = Some (fs', sh')" for sh f fs ts sh' fs'
    using sm_step.run [OF sm_run.run [of "\<lparr>sm_shared_state = sh, sm_threads = add_mset (f # fs) ts\<rparr>" f fs ts fs' sh']] that by simp
  have call: "sm_step \<lparr>sm_shared_state = sh, sm_threads = ts\<rparr> \<lparr>sm_shared_state = sh, sm_threads = add_mset [AtLock c] ts\<rparr>" for sh ts c
    using sm_step.call [of "\<lparr>sm_shared_state = sh, sm_threads = ts\<rparr>" c] by simp
  let ?sh = "\<lparr>sh_machine = NewStateMachine StateClosed, sh_callback = [], sh_writer = False, sh_readers = 0\<rparr>"
  let ?sh2 = "?sh\<lparr>sh_machine := \<lparr>sm_current = StateClosed, sm_onTransition = True\<rparr>, sh_callback := [CallCurrent]\<rparr>"
  let ?sh3 = "?sh2\<lparr>sh_machine := \<lparr>sm_current = StateListen, sm_onTransition = True\<rparr>, sh_writer := True\<rparr>"
  have a: "sm_step \<lparr>sm_shared_state = ?sh, sm_threads = {#}\<rparr> \<lparr>sm_shared_state = ?sh, sm_threads = {#[AtLock ?set]#}\<rparr>"
    "sm_step \<lparr>sm_shared_state = ?sh, sm_threads = {#[AtLock ?set]#}\<rparr> \<lparr>sm_shared_state = ?sh\<lparr>sh_writer := True\<rparr>, sm_threads = {#[InBody ?set]#}\<rparr>"
    "sm_step \<lparr>sm_shared_state = ?sh\<lparr>sh_writer := True\<rparr>, sm_threads = {#[InBody ?set]#}\<rparr> \<lparr>sm_shared_state = ?sh2\<lparr>sh_writer := True\<rparr>, sm_threads = {#[AtUnlock]#}\<rparr>"
    "sm_step \<lparr>sm_shared_state = ?sh2\<lparr>sh_writer := True\<rparr>, sm_threads = {#[AtUnlock]#}\<rparr> \<lparr>sm_shared_state = ?sh2, sm_threads = {#[]#}\<rparr>"
    by (rule call, (rule run, simp add: SetOnTransition_def NewStateMachine_def)+)
  have b: "sm_step \<lparr>sm_shared_state = ?sh2, sm_threads = {#[]#}\<rparr> \<lparr>sm_shared_state = ?sh2, sm_threads = {#[AtLock ?go], []#}\<rparr>"
    "sm_step \<lparr>sm_shared_state = ?sh2, sm_threads = {#[AtLock ?go], []#}\<rparr> \<lparr>sm_shared_state = ?sh2\<lparr>sh_writer := True\<rparr>, sm_threads = {#[InBody ?go], []#}\<rparr>"
    "sm_step \<lparr>sm_shared_state = ?sh2\<lparr>sh_writer := True\<rparr>, sm_threads = {#[InBody ?go], []#}\<rparr> \<lparr>sm_shared_state = ?sh3, sm_threads = {#[InCallback [CallCurrent]], []#}\<rparr>"
    "sm_step \<lparr>sm_shared_state = ?sh3, sm_threads = {#[InCallback [CallCurrent]], []#}\<rparr> \<lparr>sm_shared_state = ?sh3, sm_threads = {#[AtLock CallCurrent, InCallback []], []#}\<rparr>"
    by (rule call, (rule run, simp add: Transition_def Let_def)+)
  have "sm_step\<^sup>*\<^sup>* \<lparr>sm_shared_state = ?sh, sm_threads = {#}\<rparr> \<lparr>sm_shared_state = ?sh2, sm_threads = {#[]#}\<rparr>"
    using a by (meson rtranclp.rtrancl_into_rtrancl rtranclp.rtrancl_refl)
  moreover have "sm_step\<^sup>*\<^sup>* \<lparr>sm_shared_state = ?sh2, sm_threads = {#[]#}\<rparr>
      \<lparr>sm_shared_state = ?sh3, sm_threads = {#[AtLock CallCurrent, InCallback []], []#}\<rparr>"
    using b by (meson rtranclp.rtrancl_into_rtrancl rtranclp.rtrancl_refl)
  ultimately have "sm_step\<^sup>*\<^sup>* (sm_start StateClosed) \<lparr>sm_shared_state = ?sh3, sm_threads = {#[AtLock CallCurrent, InCallback []], []#}\<rparr>"
    unfolding sm_start_def by (rule rtranclp_trans)
  then show ?thesis by (intro exI conjI) (assumption, simp_all add: Current_def)
qed

theorem callback_deadlock_witness:
  "\<exists>s. sm_step\<^sup>*\<^sup>* (sm_start StateClosed) s \<and> Current (sh_machine (sm_shared_state s)) = StateListen \<and> \<not> (\<exists>s'. sm_run s s')"
proof -
  obtain s where s: "sm_step\<^sup>*\<^sup>* (sm_start StateClosed) s" "[AtLock CallCurrent, InCallback []] \<in># sm_threads s"
    "Current (sh_machine (sm_shared_state s)) = StateListen"
    using current_in_callback by blast
  moreover have "self_blocked [AtLock CallCurrent, InCallback []]" by (simp add: self_blocked_def)
  ultimately show ?thesis using callback_deadlock [OF s(1,2) _ rtranclp.rtrancl_refl] by blast
qed

end
