(* ===== verification/Conn_Table.thy ===== *)
theory Conn_Table
  imports Tcp_Conn
begin

text \<open>
  \<^verbatim>\<open>internal/tcp/conn_table.go\<close>: the table of connections and listeners, and the allocation of
  ephemeral ports. The table holds pointers; a pointer is an address in a heap of connections.
  The port loop is a partial function, since it does not end when no port is free; the lemmas
  give it in closed form, as a search through a list of ports.
\<close>

section \<open>The code\<close>

type_synonym conn_ref = nat

record listener =
  ls_Port :: "16 word"

record connection_table =
  ct_conns :: "(conn_key \<times> conn_ref) list"
  ct_listeners :: "(16 word \<times> listener) list"
  ct_ephemeralPort :: "32 word"

datatype table_error = ErrConnExists | ErrListenerExists | ErrNotFound

definition NewConnectionTable :: connection_table where
  "NewConnectionTable = \<lparr>ct_conns = [], ct_listeners = [], ct_ephemeralPort = 49152\<rparr>"

definition Register ::
  "(conn_ref \<Rightarrow> tcp_conn) \<Rightarrow> conn_ref \<Rightarrow> connection_table \<Rightarrow> connection_table \<times> table_error option" where
  "Register heap conn ct =
     (let key = conn_key (heap conn)
      in case map_get (ct_conns ct) key of
           Some _ \<Rightarrow> (ct, Some ErrConnExists)
         | None \<Rightarrow> (ct\<lparr>ct_conns := map_put key conn (ct_conns ct)\<rparr>, None))"

definition Remove :: "conn_key \<Rightarrow> connection_table \<Rightarrow> connection_table" where
  "Remove key ct = ct\<lparr>ct_conns := map_del key (ct_conns ct)\<rparr>"

definition Lookup :: "conn_key \<Rightarrow> connection_table \<Rightarrow> conn_ref option" where
  "Lookup key ct = map_get (ct_conns ct) key"

text \<open>The connection, the listener, or the error that neither exists.\<close>

definition LookupOrListener ::
  "bytes \<Rightarrow> bytes \<Rightarrow> 16 word \<Rightarrow> 16 word \<Rightarrow> connection_table \<Rightarrow>
   conn_ref option \<times> listener option \<times> table_error option" where
  "LookupOrListener srcIP dstIP srcPort dstPort ct =
     (let key = \<lparr>ck_SrcIP = ip4_field srcIP, ck_SrcPort = srcPort,
                 ck_DstIP = ip4_field dstIP, ck_DstPort = dstPort\<rparr>
      in case map_get (ct_conns ct) key of
           Some conn \<Rightarrow> (Some conn, None, None)
         | None \<Rightarrow>
             (case map_get (ct_listeners ct) dstPort of
                Some listener \<Rightarrow> (None, Some listener, None)
              | None \<Rightarrow> (None, None, Some ErrNotFound)))"

definition RegisterListener ::
  "16 word \<Rightarrow> listener \<Rightarrow> connection_table \<Rightarrow> connection_table \<times> table_error option" where
  "RegisterListener port l ct =
     (case map_get (ct_listeners ct) port of
        Some _ \<Rightarrow> (ct, Some ErrListenerExists)
      | None \<Rightarrow> (ct\<lparr>ct_listeners := map_put port l (ct_listeners ct)\<rparr>, None))"

definition RemoveListener :: "16 word \<Rightarrow> connection_table \<Rightarrow> connection_table" where
  "RemoveListener port ct = ct\<lparr>ct_listeners := map_del port (ct_listeners ct)\<rparr>"

text \<open>
  The range over the connections stops at the first that uses the port; its order is not
  observable.
\<close>

fun conn_uses_port :: "16 word \<Rightarrow> (conn_key \<times> conn_ref) list \<Rightarrow> bool" where
  "conn_uses_port p16 [] = False"
| "conn_uses_port p16 ((k, _) # conns) = (if ck_SrcPort k = p16 then True else conn_uses_port p16 conns)"

definition port_in_use :: "connection_table \<Rightarrow> 16 word \<Rightarrow> bool" where
  "port_in_use ct p16 \<longleftrightarrow>
     map_get (ct_listeners ct) p16 \<noteq> None \<or> conn_uses_port p16 (ct_conns ct)"

text \<open>
  \<open>EphemeralPort\<close> as one goroutine runs it: \<open>Add(1) - 1\<close> reads and increments the counter, and
  the \<open>CompareAndSwap\<close> compares it with the value it has just been given.
\<close>

definition compare_and_swap :: "32 word \<Rightarrow> 32 word \<Rightarrow> connection_table \<Rightarrow> connection_table" where
  "compare_and_swap old new ct =
     (if ct_ephemeralPort ct = old then ct\<lparr>ct_ephemeralPort := new\<rparr> else ct)"

partial_function (option) EphemeralPort ::
  "connection_table \<Rightarrow> (connection_table \<times> 16 word) option" where
  "EphemeralPort ct =
     (let port = ct_ephemeralPort ct;
          ct = ct\<lparr>ct_ephemeralPort := port + 1\<rparr>
      in if port > 65535 then EphemeralPort (compare_and_swap (port + 1) (49152 + 1) ct)
      else let p16 = ucast port
      in if \<not> port_in_use ct p16 then Some (ct, p16) else EphemeralPort ct)"

section \<open>The port search in closed form\<close>

lemma conn_uses_port_iff: "conn_uses_port p m \<longleftrightarrow> (\<exists>k \<in> fst ` set m. ck_SrcPort k = p)"
  by (induction p m rule: conn_uses_port.induct) auto

lemma port_in_use_counter [simp]: "port_in_use (ct\<lparr>ct_ephemeralPort := c\<rparr>) p = port_in_use ct p"
  by (simp add: port_in_use_def)

definition with_counter :: "connection_table \<Rightarrow> nat \<Rightarrow> connection_table" where
  "with_counter ct n = ct\<lparr>ct_ephemeralPort := of_nat n\<rparr>"

lemma with_counter_simps [simp]:
  "ct_conns (with_counter ct n) = ct_conns ct" "ct_listeners (with_counter ct n) = ct_listeners ct"
  "with_counter (with_counter ct m) n = with_counter ct n"
  "port_in_use (with_counter ct n) p = port_in_use ct p"
  by (simp_all add: with_counter_def)

lemma with_counter_unat: "with_counter ct (unat (ct_ephemeralPort ct)) = ct"
  by (simp add: with_counter_def)

definition port_of :: "nat \<Rightarrow> 16 word" where
  "port_of n = of_nat n"

lemma unat_port_of: "n \<le> 65535 \<Longrightarrow> unat (port_of n) = n"
  by (simp add: port_of_def unat_of_nat)

text \<open>One iteration, on a counter in the range of the code.\<close>

lemma EphemeralPort_step:
  assumes "n \<le> 65536"
  shows "EphemeralPort (with_counter ct n) =
    (if n = 65536 then EphemeralPort (with_counter ct 49153)
     else if port_in_use ct (port_of n) then EphemeralPort (with_counter ct (n + 1))
     else Some (with_counter ct (n + 1), port_of n))"
proof -
  have u: "unat (of_nat n :: 32 word) = n" using assms by (simp add: unat_of_nat)
  then have g: "(65535 :: 32 word) < of_nat n \<longleftrightarrow> n = 65536"
    using assms by (auto simp: word_less_nat_alt)
  have p: "ucast (of_nat n :: 32 word) = port_of n" if "n \<le> 65535"
    using that u by (intro unsigned_word_eqI [where ?'a = nat])
      (simp add: unat_port_of unsigned_ucast_eq take_bit_eq_mod)
  have c: "ct_ephemeralPort (with_counter ct n) = of_nat n"
    "(with_counter ct n)\<lparr>ct_ephemeralPort := of_nat n + 1\<rparr> = with_counter ct (n + 1)"
    by (simp_all add: with_counter_def add.commute)
  show ?thesis
  proof (cases "n = 65536")
    case True
    then show ?thesis
      by (subst EphemeralPort.simps)
        (simp add: with_counter_def compare_and_swap_def Let_def)
  next
    case False
    then have "n \<le> 65535" using assms by simp
    then show ?thesis
      using False g p
      by (subst EphemeralPort.simps) (simp add: c Let_def del: of_nat_Suc)
  qed
qed

text \<open>From the counter up to the end of the range, and then over again.\<close>

definition ports_from :: "nat \<Rightarrow> nat list" where
  "ports_from n = [n..<65536]"

lemma ports_from_step: "n < 65536 \<Longrightarrow> ports_from n = n # ports_from (n + 1)" "ports_from 65536 = []"
  by (simp_all add: ports_from_def upt_conv_Cons)

lemma set_ports_from: "set (ports_from n) = {n..<65536}"
  by (simp add: ports_from_def)

lemma EphemeralPort_scan:
  assumes "n \<le> 65536"
  shows "EphemeralPort (with_counter ct n) =
    (case find (\<lambda>i. \<not> port_in_use ct (port_of i)) (ports_from n) of
       Some i \<Rightarrow> Some (with_counter ct (i + 1), port_of i)
     | None \<Rightarrow> EphemeralPort (with_counter ct 49153))"
  using assms
proof (induction "65536 - n" arbitrary: n)
  case 0
  then show ?case by (simp add: EphemeralPort_step ports_from_step)
next
  case (Suc d)
  then have "n < 65536" "d = 65536 - (n + 1)" by simp_all
  then show ?case
    using Suc.hyps(1) [of "n + 1"] by (simp add: EphemeralPort_step ports_from_step)
qed

definition sound_result :: "connection_table \<Rightarrow> connection_table \<times> 16 word \<Rightarrow> bool" where
  "sound_result ct r \<longleftrightarrow> (49153 \<le> unat (ct_ephemeralPort ct) \<longrightarrow> unat (ct_ephemeralPort ct) \<le> 65536 \<longrightarrow>
     \<not> port_in_use ct (snd r) \<and> 49153 \<le> unat (snd r))"

lemma EphemeralPort_sound: "EphemeralPort ct = Some r \<Longrightarrow> sound_result ct r"
proof (rule EphemeralPort.raw_induct [where P = sound_result])
  fix rec ct r
  assume IH: "\<And>ct r. rec ct = Some r \<Longrightarrow> sound_result ct r"
    and body: "(let port = ct_ephemeralPort ct; ct = ct\<lparr>ct_ephemeralPort := port + 1\<rparr>
       in if port > 65535 then rec (compare_and_swap (port + 1) (49152 + 1) ct)
          else let p16 = ucast port in if \<not> port_in_use ct p16 then Some (ct, p16) else rec ct) = Some r"
  show "sound_result ct r"
    unfolding sound_result_def
  proof (intro impI)
    assume range: "49153 \<le> unat (ct_ephemeralPort ct)" "unat (ct_ephemeralPort ct) \<le> 65536"
    define n where "n = unat (ct_ephemeralPort ct)"
    have ct: "ct = with_counter ct n" by (simp add: n_def with_counter_unat)
    have n: "49153 \<le> n" "n \<le> 65536" using range by (simp_all add: n_def)
    have c: "ct_ephemeralPort ct = of_nat n" by (simp add: n_def)
    have u: "unat (of_nat n + 1 :: 32 word) = n + 1" using n by (simp add: unat_word_ariths unat_of_nat)
    show "\<not> port_in_use ct (snd r) \<and> 49153 \<le> unat (snd r)"
    proof (cases "n = 65536")
      case True
      then have "rec (ct\<lparr>ct_ephemeralPort := 49153\<rparr>) = Some r"
        using body by (simp add: c compare_and_swap_def)
      from IH [OF this] show ?thesis by (simp add: sound_result_def)
    next
      case False
      then have g: "\<not> (65535 :: 32 word) < of_nat n"
        using n by (simp add: word_less_nat_alt unat_of_nat)
      have p: "unat (ucast (of_nat n :: 32 word) :: 16 word) = n"
        using n False by (simp add: unsigned_ucast_eq take_bit_eq_mod unat_of_nat)
      show ?thesis
      proof (cases "port_in_use ct (ucast (of_nat n :: 32 word))")
        case True
        then have "rec (ct\<lparr>ct_ephemeralPort := of_nat n + 1\<rparr>) = Some r"
          using body g by (simp add: c Let_def)
        from IH [OF this] show ?thesis using n False u by (simp add: sound_result_def)
      next
        case False
        then have "snd r = ucast (of_nat n :: 32 word)"
          using body g by (auto simp: c Let_def)
        then show ?thesis using False p n by simp
      qed
    qed
  qed
qed

text \<open>The ports in the order the loop tries them; the second round starts at 49153.\<close>

definition port_candidates :: "nat \<Rightarrow> nat list" where
  "port_candidates n = ports_from n @ ports_from 49153"

lemma find_append: "find P (xs @ ys) = (case find P xs of Some x \<Rightarrow> Some x | None \<Rightarrow> find P ys)"
  by (induction xs) auto

lemma EphemeralPort_eq:
  assumes "n \<le> 65536"
  shows "EphemeralPort (with_counter ct n) =
    map_option (\<lambda>i. (with_counter ct (i + 1), port_of i))
      (find (\<lambda>i. \<not> port_in_use ct (port_of i)) (port_candidates n))"
proof -
  let ?P = "\<lambda>i. \<not> port_in_use ct (port_of i)"
  have again: "EphemeralPort (with_counter ct 49153) =
      map_option (\<lambda>i. (with_counter ct (i + 1), port_of i)) (find ?P (ports_from 49153))"
  proof (cases "find ?P (ports_from 49153)")
    case None
    have "EphemeralPort (with_counter ct 49153) = None"
    proof (rule ccontr)
      assume "EphemeralPort (with_counter ct 49153) \<noteq> None"
      then obtain r where r: "EphemeralPort (with_counter ct 49153) = Some r" by blast
      have s: "\<not> port_in_use ct (snd r)" "49153 \<le> unat (snd r)"
        using EphemeralPort_sound [OF r] by (simp_all add: sound_result_def with_counter_def)
      have "unat (snd r) < 65536" using unsigned_less [of "snd r", where ?'a = nat] by simp
      moreover have "port_of (unat (snd r)) = snd r" by (simp add: port_of_def)
      ultimately show False using None s by (auto simp: find_None_iff set_ports_from)
    qed
    with None show ?thesis by simp
  next
    case (Some i)
    then show ?thesis using EphemeralPort_scan [of 49153 ct] by simp
  qed
  show ?thesis
    using EphemeralPort_scan [OF assms, of ct]
    by (simp add: port_candidates_def find_append again split: option.split)
qed

section \<open>The invariant of the table\<close>

inductive table_reachable :: "(conn_ref \<Rightarrow> tcp_conn) \<Rightarrow> connection_table \<Rightarrow> bool" for heap where
  new: "table_reachable heap NewConnectionTable"
| register: "table_reachable heap ct \<Longrightarrow> table_reachable heap (fst (Register heap conn ct))"
| remove: "table_reachable heap ct \<Longrightarrow> table_reachable heap (Remove key ct)"
| listen: "table_reachable heap ct \<Longrightarrow> table_reachable heap (fst (RegisterListener port l ct))"
| unlisten: "table_reachable heap ct \<Longrightarrow> table_reachable heap (RemoveListener port ct)"
| ephemeral: "table_reachable heap ct \<Longrightarrow> EphemeralPort ct = Some (ct', p) \<Longrightarrow> table_reachable heap ct'"

definition counter_ok :: "connection_table \<Rightarrow> bool" where
  "counter_ok ct \<longleftrightarrow> 49152 \<le> unat (ct_ephemeralPort ct) \<and> unat (ct_ephemeralPort ct) \<le> 65536"

definition table_inv :: "(conn_ref \<Rightarrow> tcp_conn) \<Rightarrow> connection_table \<Rightarrow> bool" where
  "table_inv heap ct \<longleftrightarrow>
     map_ok (ct_conns ct) \<and> map_ok (ct_listeners ct) \<and> counter_ok ct
     \<and> (\<forall>k c. map_get (ct_conns ct) k = Some c \<longrightarrow> conn_key (heap c) = k)"

lemma EphemeralPort_counter:
  assumes "counter_ok ct"
  shows "EphemeralPort ct = map_option (\<lambda>i. (ct\<lparr>ct_ephemeralPort := of_nat (i + 1)\<rparr>, port_of i))
    (find (\<lambda>i. \<not> port_in_use ct (port_of i)) (port_candidates (unat (ct_ephemeralPort ct))))"
  using EphemeralPort_eq [of "unat (ct_ephemeralPort ct)" ct] assms
  by (simp add: with_counter_unat counter_ok_def) (simp add: with_counter_def)

lemma find_SomeD: "find P xs = Some x \<Longrightarrow> x \<in> set xs \<and> P x"
  by (induction xs) (auto split: if_splits)

text \<open>What a returned port is.\<close>

lemma EphemeralPort_SomeD:
  assumes "counter_ok ct" "EphemeralPort ct = Some (ct', p)"
  shows "\<not> port_in_use ct p" "49152 \<le> unat p" "ct' = ct\<lparr>ct_ephemeralPort := ucast p + 1\<rparr>"
    "counter_ok ct'"
proof -
  obtain i where i: "find (\<lambda>i. \<not> port_in_use ct (port_of i))
      (port_candidates (unat (ct_ephemeralPort ct))) = Some i"
    and r: "ct' = ct\<lparr>ct_ephemeralPort := of_nat (i + 1)\<rparr>" "p = port_of i"
    using assms by (auto simp: EphemeralPort_counter)
  have b: "49152 \<le> i" "i < 65536" "\<not> port_in_use ct p"
    using find_SomeD [OF i] assms(1) by (auto simp: port_candidates_def set_ports_from counter_ok_def r(2))
  have u: "unat p = i" using b(2) by (simp add: r(2) unat_port_of)
  have "ucast p + 1 = (of_nat (i + 1) :: 32 word)"
    using b(2) by (intro unsigned_word_eqI [where ?'a = nat])
      (simp add: unat_word_ariths unsigned_ucast_eq take_bit_eq_mod unat_of_nat u del: of_nat_add of_nat_Suc)
  then show "ct' = ct\<lparr>ct_ephemeralPort := ucast p + 1\<rparr>" by (simp only: r(1))
  have "unat (of_nat (i + 1) :: 32 word) = i + 1" using b(2) by (simp add: unat_of_nat del: of_nat_add of_nat_Suc)
  then show "counter_ok ct'" using b by (simp add: r(1) counter_ok_def del: of_nat_add of_nat_Suc)
  show "\<not> port_in_use ct p" "49152 \<le> unat p" using b u by simp_all
qed

lemma table_inv_reachable: "table_reachable heap ct \<Longrightarrow> table_inv heap ct"
proof (induction rule: table_reachable.induct)
  case new
  then show ?case by (simp add: table_inv_def NewConnectionTable_def counter_ok_def)
next
  case (register ct conn)
  then show ?case
    by (auto simp: table_inv_def Register_def Let_def counter_ok_def map_put_new map_of_eq_None_iff
        split: option.splits if_splits)
next
  case (remove ct key)
  then show ?case
    by (auto simp: table_inv_def Remove_def counter_ok_def distinct_delete delete_conv' split: if_splits)
next
  case (listen ct port l)
  then show ?case
    by (auto simp: table_inv_def RegisterListener_def counter_ok_def distinct_update split: option.splits)
next
  case (unlisten ct port)
  then show ?case by (auto simp: table_inv_def RemoveListener_def counter_ok_def distinct_delete)
next
  case (ephemeral ct ct' p)
  then have "counter_ok ct" by (simp add: table_inv_def)
  note e = EphemeralPort_SomeD [OF this ephemeral(2)]
  then show ?case using ephemeral(3) by (simp add: table_inv_def)
qed

section \<open>Properties\<close>


definition busy_table :: connection_table where
  "busy_table = NewConnectionTable\<lparr>ct_listeners := [(49152, \<lparr>ls_Port = 49152\<rparr>)]\<rparr>"

lemma busy_reachable: "table_reachable heap busy_table"
  using table_reachable.listen [OF table_reachable.new, of heap 49152 "\<lparr>ls_Port = 49152\<rparr>"]
  by (simp add: busy_table_def RegisterListener_def NewConnectionTable_def)


text \<open>
  \<open>EphemeralPort\<close> returns exactly when some port from the counter on or from 49153
  on is free; the port it returns is an ephemeral one, free, and a connection with that local
  port can be registered.
\<close>

theorem EphemeralPort_returns:
  assumes "table_reachable heap ct"
  shows "((\<exists>r. EphemeralPort ct = Some r) \<longleftrightarrow>
      (\<exists>p. \<not> port_in_use ct p \<and> (unat (ct_ephemeralPort ct) \<le> unat p \<or> 49153 \<le> unat p)))
    \<and> (\<forall>ct' p. EphemeralPort ct = Some (ct', p) \<longrightarrow>
        \<not> port_in_use ct p \<and> 49152 \<le> unat p
        \<and> (\<forall>conn. ck_SrcPort (conn_key (heap conn)) = p \<longrightarrow> snd (Register heap conn ct') = None))"
proof
  have c: "counter_ok ct" using table_inv_reachable [OF assms] by (simp add: table_inv_def)
  let ?n = "unat (ct_ephemeralPort ct)"
  have p: "port_of (unat p) = p" "unat p < 65536" for p
    using unsigned_less [of p, where ?'a = nat] by (simp_all add: port_of_def)
  have u: "unat (port_of i) = i" if "i < 65536" for i using that by (simp add: unat_port_of)
  have "(\<exists>r. EphemeralPort ct = Some r) \<longleftrightarrow>
      find (\<lambda>i. \<not> port_in_use ct (port_of i)) (port_candidates ?n) \<noteq> None"
    by (simp add: EphemeralPort_counter [OF c])
  also have "\<dots> \<longleftrightarrow> (\<exists>i \<in> set (port_candidates ?n). \<not> port_in_use ct (port_of i))"
    unfolding find_None_iff by blast
  also have "\<dots> \<longleftrightarrow> (\<exists>p. \<not> port_in_use ct p \<and> (?n \<le> unat p \<or> 49153 \<le> unat p))" (is "?L = ?R")
  proof
    assume ?L
    then show ?R using u by (fastforce simp: port_candidates_def set_ports_from)
  next
    assume ?R
    then obtain q where "\<not> port_in_use ct q" "?n \<le> unat q \<or> 49153 \<le> unat q" by blast
    then show ?L using p [of q] by (intro bexI [of _ "unat q"]) (auto simp: port_candidates_def set_ports_from)
  qed
  finally show "(\<exists>r. EphemeralPort ct = Some r) \<longleftrightarrow>
      (\<exists>p. \<not> port_in_use ct p \<and> (unat (ct_ephemeralPort ct) \<le> unat p \<or> 49153 \<le> unat p))" .
  show "\<forall>ct' p. EphemeralPort ct = Some (ct', p) \<longrightarrow> \<not> port_in_use ct p \<and> 49152 \<le> unat p
      \<and> (\<forall>conn. ck_SrcPort (conn_key (heap conn)) = p \<longrightarrow> snd (Register heap conn ct') = None)"
  proof (intro allI impI)
    fix ct' p
    assume "EphemeralPort ct = Some (ct', p)"
    note e = EphemeralPort_SomeD [OF c this]
    have "map_get (ct_conns ct) (conn_key (heap conn)) = None" if "ck_SrcPort (conn_key (heap conn)) = p" for conn
      using e(1) that by (auto simp: port_in_use_def conn_uses_port_iff map_of_eq_None_iff)
    then show "\<not> port_in_use ct p \<and> 49152 \<le> unat p
      \<and> (\<forall>conn. ck_SrcPort (conn_key (heap conn)) = p \<longrightarrow> snd (Register heap conn ct') = None)"
      using e by (simp add: Register_def Let_def)
  qed
qed

theorem EphemeralPort_returns_witness: "\<exists>r. EphemeralPort busy_table = Some r"
proof -
  have "\<not> port_in_use busy_table 60000" "49153 \<le> unat (60000 :: 16 word)"
    by (simp_all add: port_in_use_def busy_table_def NewConnectionTable_def)
  then show ?thesis using EphemeralPort_returns [OF busy_reachable] by blast
qed

text \<open>
  After the first wrap, port 49152 is never handed out again: the comment resets
  the counter to 49152, but the next port is 49153. When 49152 is the only free port and the
  counter has passed it, \<open>EphemeralPort\<close> loops for ever.
\<close>

theorem EphemeralPort_skips_49152:
  assumes "table_reachable heap ct" "unat (ct_ephemeralPort ct) \<noteq> 49152"
  shows "(\<forall>ct' p. EphemeralPort ct = Some (ct', p) \<longrightarrow> p \<noteq> 49152 \<and> unat (ct_ephemeralPort ct') \<noteq> 49152)
    \<and> ((\<forall>p. p \<noteq> 49152 \<longrightarrow> port_in_use ct p) \<longrightarrow> EphemeralPort ct = None)"
proof -
  have c: "counter_ok ct" using table_inv_reachable [OF assms(1)] by (simp add: table_inv_def)
  have n: "49153 \<le> unat (ct_ephemeralPort ct)" using c assms(2) by (simp add: counter_ok_def)
  have a: "p \<noteq> 49152 \<and> unat (ct_ephemeralPort ct') \<noteq> 49152"
    if "EphemeralPort ct = Some (ct', p)" for ct' p
  proof -
    have l: "49153 \<le> unat p"
      using EphemeralPort_sound [OF that] n c by (simp add: sound_result_def counter_ok_def)
    have "unat p < 65536" using unsigned_less [of p, where ?'a = nat] by simp
    then have "unat (ucast p + 1 :: 32 word) = unat p + 1"
      by (simp add: unat_word_ariths unsigned_ucast_eq take_bit_eq_mod)
    then show ?thesis using l EphemeralPort_SomeD(3) [OF c that] by auto
  qed
  have "EphemeralPort ct = None" if "\<forall>p. p \<noteq> 49152 \<longrightarrow> port_in_use ct p"
  proof (cases "EphemeralPort ct")
    case (Some r)
    then show ?thesis
      using a [of "fst r" "snd r"] EphemeralPort_SomeD(1) [OF c, of "fst r" "snd r"] that by auto
  qed
  with a show ?thesis by blast
qed

theorem EphemeralPort_skips_49152_witness:
  "\<forall>ct' p. EphemeralPort (busy_table\<lparr>ct_ephemeralPort := 49154\<rparr>) = Some (ct', p) \<longrightarrow> p \<noteq> 49152"
proof -
  have "counter_ok busy_table" by (simp add: counter_ok_def busy_table_def NewConnectionTable_def)
  have "find (\<lambda>i. \<not> port_in_use busy_table (port_of i)) (port_candidates 49152) = Some 49153"
    using ports_from_step(1) [of 49152] ports_from_step(1) [of 49153]
    by (simp add: port_candidates_def port_in_use_def busy_table_def NewConnectionTable_def port_of_def)
  then have "EphemeralPort busy_table = Some (busy_table\<lparr>ct_ephemeralPort := 49154\<rparr>, port_of 49153)"
    using EphemeralPort_counter [OF \<open>counter_ok busy_table\<close>]
    by (simp add: busy_table_def NewConnectionTable_def)
  from EphemeralPort_skips_49152 [OF table_reachable.ephemeral [OF busy_reachable this]]
  show ?thesis by simp
qed



text \<open>
  No orientation of the 4-tuple serves both lookups of \<open>LookupOrListener\<close>: with the
  tuple as seen by the local host (whose connections are registered under it) the listeners are
  searched by the remote port, and with the tuple as the packet has it a registered connection
  is missed and its segments go to the listener on the local port.
\<close>

theorem LookupOrListener_orientation:
  assumes "Lookup key ct = Some conn" "key_wf key" "Lookup (swap_key key) ct = None"
    and "map_get (ct_listeners ct) (ck_SrcPort key) = Some l"
  shows "LookupOrListener (ck_SrcIP key) (ck_DstIP key) (ck_SrcPort key) (ck_DstPort key) ct = (Some conn, None, None)
    \<and> LookupOrListener (ck_DstIP key) (ck_SrcIP key) (ck_DstPort key) (ck_SrcPort key) ct = (None, Some l, None)
    \<and> (\<forall>ip port. Lookup (key\<lparr>ck_DstIP := ip4_field ip, ck_DstPort := port\<rparr>) ct = None \<longrightarrow>
         map_get (ct_listeners ct) port = None \<longrightarrow>
         LookupOrListener (ck_SrcIP key) ip (ck_SrcPort key) port ct = (None, None, Some ErrNotFound))"
proof -
  obtain a p b q where "key = \<lparr>ck_SrcIP = a, ck_SrcPort = p, ck_DstIP = b, ck_DstPort = q\<rparr>"
    by (cases key)
  then show ?thesis
    using assms by (simp add: LookupOrListener_def Lookup_def key_wf_def swap_key_def Let_def)
qed

theorem LookupOrListener_orientation_witness:
  "LookupOrListener [10, 0, 0, 2] [10, 0, 0, 1] 80 49153
     \<lparr>ct_conns = [(sample_key, 5)], ct_listeners = [(49153, \<lparr>ls_Port = 49153\<rparr>)], ct_ephemeralPort = 49154\<rparr>
   = (None, Some \<lparr>ls_Port = 49153\<rparr>, None)"
proof -
  let ?ct = "\<lparr>ct_conns = [(sample_key, 5)], ct_listeners = [(49153, \<lparr>ls_Port = 49153\<rparr>)], ct_ephemeralPort = 49154\<rparr>"
  have "Lookup sample_key ?ct = Some 5" "key_wf sample_key" "Lookup (swap_key sample_key) ?ct = None"
    "map_get (ct_listeners ?ct) (ck_SrcPort sample_key) = Some \<lparr>ls_Port = 49153\<rparr>"
    by code_simp+
  from LookupOrListener_orientation [OF this] show ?thesis by (simp add: sample_key_def)
qed

end
