(* ===== verification/Tcp_Over_Ip.thy ===== *)
theory Tcp_Over_Ip
  imports Tcp_Conn Conn_Table Ip_Builder Dispatcher
begin

text \<open>
  A TCP segment on its way through the layers: sent by a connection (\<^verbatim>\<open>internal/tcp/conn.go\<close>), put
  into a packet (\<^verbatim>\<open>internal/ip/builder.go\<close>), dispatched by the receiver
  (\<^verbatim>\<open>internal/ip/dispatcher.go\<close>) and looked up there in the table of connections
  (\<^verbatim>\<open>internal/tcp/conn_table.go\<close>). The checksum of TCP covers addresses that only the IP layer
  carries, in another form at each end: 4 bytes in the key of a connection, 16 in what the
  dispatcher passes on.
\<close>

lemma TCPChecksum_to4:
  "to4 s = to4 s' \<Longrightarrow> to4 t = to4 t' \<Longrightarrow> TCPChecksum s t d = TCPChecksum s' t' d"
  by (simp add: TCPChecksum_def)

text \<open>The dispatcher takes a built packet apart again, with whatever padding follows it.\<close>

lemma Dispatch_built:
  assumes "length payload \<le> 65515" "length src = 4" "length dst = 4"
    and "Build (NewPacketBuilder src dst proto) g payload = (g', Ok packet)"
    and "map_get (disp_handlers d) proto = Some hdl"
  shows "\<exists>s t. to4 s = Some src \<and> to4 t = Some dst
    \<and> Dispatch handle (packet @ padding) d w =
       (d\<lparr>packetsReceived := packetsReceived d + 1, packetsDispatched := packetsDispatched d + 1\<rparr>,
        fst (handle hdl s t payload w), map_outcome HandlerError id (snd (handle hdl s t payload w)))"
proof -
  define b where "b = NewPacketBuilder src dst proto"
  define h where "h = built_header b (build_ctx b [] (ucast (g + 1))) (20 + length payload)"
  note B = Build_Ok [OF assms(1) h_def]
  have p: "packet = header_bytes h @ payload"
    using assms(4) B(1) by (simp add: Build_def b_def [symmetric] prod_eq_iff)
  have l: "length (header_bytes h) = 20" using B(3) by simp
  have P: "ParseHeader (packet @ padding) = Ok h"
    unfolding p append_assoc using B(2) by (rule ParseHeader_header_bytes)
  have f: "ip_Protocol h = proto" "ip_Src h = src" "ip_Dst h = dst"
    using assms(2,3)
    by (simp_all add: h_def built_header_def build_header_def b_def NewPacketBuilder_def build_ctx_def)
  have n: "5 \<le> unat (ip_IHL h)" "unat (ip_TotalLen h) \<le> length (packet @ padding)"
    using B(3,4) l by (simp_all add: p HeaderLen_def)
  have "drop (HeaderLen h) (take (unat (ip_TotalLen h)) (packet @ padding)) = payload"
    using B(3,4) l by (simp add: p)
  then show ?thesis using Dispatch_to_handler [OF P n, of d hdl handle w] assms(5) f by simp
qed

section \<open>Properties\<close>

text \<open>
  Property C16. A segment arrives as it was sent. What a connection sends, built into a packet to its peer and
  dispatched there, padding included, reaches the handler of TCP unchanged and with the addresses
  of the connection; there it parses to the header that was sent, carries the payload, and its
  checksum verifies for the addresses that came with it. A connection of the peer, registered
  under its own key, is found under the addresses and ports that arrived, in reverse.
\<close>

theorem segment_over_ip:
  assumes "options_wf h" "length payload \<le> 65455" "key_wf (conn_key c)"
    and "conn_send emit c h payload = ([seg], err)"
    and "Build (NewPacketBuilder (ck_SrcIP (conn_key c)) (ck_DstIP (conn_key c)) ProtoTCP) g seg = (g', Ok packet)"
    and "map_get (disp_handlers d) ProtoTCP = Some hdl"
    and "tcp_SrcPort h = ck_SrcPort (conn_key c)" "tcp_DstPort h = ck_DstPort (conn_key c)"
    and "conn_key (heap peer) = swap_key (conn_key c)" "Register heap peer table = (table', None)"
  shows "\<exists>s t h'. Dispatch handle (packet @ padding) d w =
       (d\<lparr>packetsReceived := packetsReceived d + 1, packetsDispatched := packetsDispatched d + 1\<rparr>,
        fst (handle hdl s t seg w), map_outcome HandlerError id (snd (handle hdl s t seg w)))
    \<and> TcpParseHeader seg = Ok h' \<and> h = h'\<lparr>tcp_Checksum := tcp_Checksum h, tcp_DataOffset := tcp_DataOffset h\<rparr>
    \<and> drop (TcpHeaderLen h') seg = payload
    \<and> Verify (NewChecksumCalculator s t) seg
    \<and> Lookup \<lparr>ck_SrcIP = ip4_field t, ck_SrcPort = tcp_DstPort h', ck_DstIP = ip4_field s, ck_DstPort = tcp_SrcPort h'\<rparr>
        table' = Some peer"
proof -
  have "length payload \<le> 65475" using assms(2) by simp
  then obtain seg' h' where "conn_send emit c h payload = ([seg'], map_option OutputError (emit seg'))"
    and h': "TcpParseHeader seg' = Ok h'" "drop (TcpHeaderLen h') seg' = payload"
      "h = h'\<lparr>tcp_Checksum := tcp_Checksum h, tcp_DataOffset := tcp_DataOffset h\<rparr>"
      "Verify (NewChecksumCalculator (ck_SrcIP (conn_key c)) (ck_DstIP (conn_key c))) seg'"
    using conn_send_segment [OF assms(1) _ assms(3)] by blast
  then have seg: "seg' = seg" using assms(4) by simp
  note h = h' [unfolded seg]
  have "length seg \<le> 65515"
    using TcpParseHeader_OkD(4) [OF h(1)] arg_cong [OF h(2), of length] assms(2) by simp
  from Dispatch_built [OF this _ _ assms(5,6), of handle padding w] assms(3)
  obtain s t where st: "to4 s = Some (ck_SrcIP (conn_key c))" "to4 t = Some (ck_DstIP (conn_key c))"
    and D: "Dispatch handle (packet @ padding) d w =
       (d\<lparr>packetsReceived := packetsReceived d + 1, packetsDispatched := packetsDispatched d + 1\<rparr>,
        fst (handle hdl s t seg w), map_outcome HandlerError id (snd (handle hdl s t seg w)))"
    by (auto simp: key_wf_def)
  have "Verify (NewChecksumCalculator s t) seg"
    using h(4) TCPChecksum_to4 [of s "ck_SrcIP (conn_key c)" t "ck_DstIP (conn_key c)" seg] st assms(3)
    by (simp add: Verify_def NewChecksumCalculator_def key_wf_def)
  moreover have "tcp_SrcPort h' = ck_SrcPort (conn_key c)" "tcp_DstPort h' = ck_DstPort (conn_key c)"
    using arg_cong [OF h(3), of tcp_SrcPort] arg_cong [OF h(3), of tcp_DstPort] assms(7,8) by simp_all
  then have "\<lparr>ck_SrcIP = ip4_field t, ck_SrcPort = tcp_DstPort h', ck_DstIP = ip4_field s, ck_DstPort = tcp_SrcPort h'\<rparr>
      = conn_key (heap peer)"
    using st assms(9) by (simp add: swap_key_def ip4_field_def)
  then have "Lookup \<lparr>ck_SrcIP = ip4_field t, ck_SrcPort = tcp_DstPort h', ck_DstIP = ip4_field s, ck_DstPort = tcp_SrcPort h'\<rparr>
        table' = Some peer"
    using assms(10) by (auto simp: Register_def Lookup_def Let_def update_conv' split: option.splits)
  ultimately show ?thesis using D h by blast
qed

text \<open>A SYN with three bytes of payload and two of padding, for a handler that keeps what it gets.\<close>

definition keep_payload :: "(unit, bytes list, unit) handle_fun" where
  "keep_payload hdl s t payload w = (w @ [payload], Ok ())"

theorem segment_over_ip_witness:
  "\<exists>seg packet. snd (Build (NewPacketBuilder [10, 0, 0, 1] [10, 0, 0, 2] ProtoTCP) 0 seg) = (Ok packet :: (ip_error, bytes) outcome)
    \<and> fst (snd (Dispatch keep_payload (packet @ [0, 0]) (RegisterHandler (\<lambda>_. ProtoTCP) () NewDispatcher) [])) = [seg]"
proof -
  let ?c = "NewTCPConn sample_key" and ?heap = "\<lambda>_ :: conn_ref. NewTCPConn (swap_key sample_key)"
  let ?h = "newHeader ?c FlagSYN" and ?d = "RegisterHandler (\<lambda>_. ProtoTCP) () NewDispatcher"
  have w: "options_wf ?h" by (rule options_wf_nil) simp
  have k: "key_wf (conn_key ?c)" "conn_key (?heap 0) = swap_key (conn_key ?c)"
    "ck_SrcIP (conn_key ?c) = [10, 0, 0, 1]" "ck_DstIP (conn_key ?c) = [10, 0, 0, 2]"
    by (simp_all add: NewTCPConn_def sample_key_def key_wf_def swap_key_def)
  have m: "map_get (disp_handlers ?d) ProtoTCP = Some ()"
    by (simp add: RegisterHandler_def NewDispatcher_def)
  obtain table' where r: "Register ?heap 0 NewConnectionTable = (table', None)"
    by (simp add: Register_def NewConnectionTable_def Let_def)
  obtain seg err where s: "conn_send (\<lambda>_. None :: nat option) ?c ?h [1, 2, 3] = ([seg], err)"
    and h: "\<exists>h'. TcpParseHeader seg = Ok h' \<and> drop (TcpHeaderLen h') seg = [1, 2, 3]"
    using conn_send_segment [OF w _ k(1), of "[1, 2, 3]" "\<lambda>_. None"] by auto
  obtain h' where h': "TcpParseHeader seg = Ok h'" "drop (TcpHeaderLen h') seg = [1, 2, 3]" using h by blast
  have "length seg \<le> 65515"
    using TcpParseHeader_OkD(4) [OF h'(1)] arg_cong [OF h'(2), of length] by simp
  from Build_Ok(1) [OF this refl, of "NewPacketBuilder [10, 0, 0, 1] [10, 0, 0, 2] ProtoTCP" 0 "[]"]
  obtain g' packet where B: "Build (NewPacketBuilder [10, 0, 0, 1] [10, 0, 0, 2] ProtoTCP) 0 seg = (g', Ok packet)"
    by (metis Build_def prod.collapse)
  have p: "length [1, 2, 3 :: byte] \<le> 65455" by simp
  have q: "tcp_SrcPort ?h = ck_SrcPort (conn_key ?c)" "tcp_DstPort ?h = ck_DstPort (conn_key ?c)" by simp_all
  from segment_over_ip [OF w p k(1) s B [folded k(3,4)] m q k(2) r, of keep_payload "[0, 0]" "[]"]
  have "fst (snd (Dispatch keep_payload (packet @ [0, 0]) ?d [])) = [seg]"
    by (auto simp: keep_payload_def)
  with B show ?thesis by (intro exI [of _ seg] exI [of _ packet]) simp
qed

end
