(* ===== verification/Port_Race.thy ===== *)
theory Port_Race
  imports Conn_Table "HOL-Library.Multiset"
begin

text \<open>
  Concurrent calls of \<open>EphemeralPort\<close> (\<^verbatim>\<open>internal/tcp/conn_table.go\<close>): the function locks the table
  only while it looks at a port and works on the counter with atomic operations in between. A
  call is split at its accesses to shared state, and any number of them are interleaved with
  changes of the table.
\<close>

section \<open>The interleaving\<close>

text \<open>
  A call about to increment the counter, one that has drawn a value beyond the ports and is
  about to compare and swap, one that has drawn a port and is about to look at the table, and
  one that has returned a port.
\<close>

datatype ep_call =
    Searching
  | Resetting "32 word"
  | Probing "32 word"
  | Found "16 word"

record ep_system =
  ep_table :: connection_table
  ep_calls :: "ep_call multiset"

text \<open>One access of a call: its next point and the new table.\<close>

fun ep_access :: "ep_call \<Rightarrow> connection_table \<Rightarrow> ep_call \<times> connection_table" where
  "ep_access Searching ct =
     (let port = ct_ephemeralPort ct; ct = ct\<lparr>ct_ephemeralPort := port + 1\<rparr>
      in if port > 65535 then (Resetting port, ct) else (Probing port, ct))"
| "ep_access (Resetting port) ct = (Searching, compare_and_swap (port + 1) (49152 + 1) ct)"
| "ep_access (Probing port) ct =
     (let p16 = ucast port in if \<not> port_in_use ct p16 then (Found p16, ct) else (Searching, ct))"
| "ep_access (Found p) ct = (Found p, ct)"

inductive ep_step :: "ep_system \<Rightarrow> ep_system \<Rightarrow> bool" where
  call: "ep_step s (s\<lparr>ep_calls := add_mset Searching (ep_calls s)\<rparr>)"
| access: "ep_calls s = add_mset c cs \<Longrightarrow> ep_access c (ep_table s) = (c', ct) \<Longrightarrow>
    ep_step s \<lparr>ep_table = ct, ep_calls = add_mset c' cs\<rparr>"
| change: "ct_ephemeralPort ct = ct_ephemeralPort (ep_table s) \<Longrightarrow> ep_step s (s\<lparr>ep_table := ct\<rparr>)"

text \<open>A call of the sequential function is the accesses of one call run without interruption.\<close>

lemma EphemeralPort_accesses:
  assumes "EphemeralPort ct = Some (ct', p)"
  shows "ep_step\<^sup>*\<^sup>* \<lparr>ep_table = ct, ep_calls = add_mset Searching cs\<rparr> \<lparr>ep_table = ct', ep_calls = add_mset (Found p) cs\<rparr>"
proof -
  define P where "P = (\<lambda>ct r. ep_step\<^sup>*\<^sup>* \<lparr>ep_table = ct, ep_calls = add_mset Searching cs\<rparr>
    \<lparr>ep_table = fst r, ep_calls = add_mset (Found (snd r)) cs\<rparr>)"
  have step: "ep_step \<lparr>ep_table = t, ep_calls = add_mset c cs\<rparr> \<lparr>ep_table = t', ep_calls = add_mset c' cs\<rparr>"
    if "ep_access c t = (c', t')" for c t c' t'
    using ep_step.access [of "\<lparr>ep_table = t, ep_calls = add_mset c cs\<rparr>" c cs c' t'] that by simp
  have "P ct (ct', p)"
  proof (rule EphemeralPort.raw_induct [where P = P, OF _ assms])
    fix rec ct r
    assume IH: "\<And>ct r. rec ct = Some r \<Longrightarrow> P ct r"
      and body: "(let port = ct_ephemeralPort ct; ct = ct\<lparr>ct_ephemeralPort := port + 1\<rparr>
       in if port > 65535 then rec (compare_and_swap (port + 1) (49152 + 1) ct)
          else let p16 = ucast port in if \<not> port_in_use ct p16 then Some (ct, p16) else rec ct) = Some r"
    let ?port = "ct_ephemeralPort ct" and ?ct = "ct\<lparr>ct_ephemeralPort := ct_ephemeralPort ct + 1\<rparr>"
    show "P ct r"
    proof (cases "?port > 65535")
      case True
      have "P (compare_and_swap (?port + 1) (49152 + 1) ?ct) r" using IH body True by (simp add: Let_def)
      moreover have "ep_step \<lparr>ep_table = ct, ep_calls = add_mset Searching cs\<rparr>
          \<lparr>ep_table = ?ct, ep_calls = add_mset (Resetting ?port) cs\<rparr>"
        using True by (intro step) (simp add: Let_def)
      moreover have "ep_step \<lparr>ep_table = ?ct, ep_calls = add_mset (Resetting ?port) cs\<rparr>
          \<lparr>ep_table = compare_and_swap (?port + 1) (49152 + 1) ?ct, ep_calls = add_mset Searching cs\<rparr>"
        by (intro step) simp
      ultimately show ?thesis
        unfolding P_def by (meson converse_rtranclp_into_rtranclp)
    next
      case False
      have 1: "ep_step \<lparr>ep_table = ct, ep_calls = add_mset Searching cs\<rparr>
          \<lparr>ep_table = ?ct, ep_calls = add_mset (Probing ?port) cs\<rparr>"
        using False by (intro step) (simp add: Let_def)
      show ?thesis
      proof (cases "port_in_use ?ct (ucast ?port)")
        case True
        then have "P ?ct r" using IH body False by (simp add: Let_def)
        moreover have "ep_step \<lparr>ep_table = ?ct, ep_calls = add_mset (Probing ?port) cs\<rparr>
            \<lparr>ep_table = ?ct, ep_calls = add_mset Searching cs\<rparr>"
          using True by (intro step) (simp add: Let_def)
        ultimately show ?thesis
          unfolding P_def using 1 by (meson converse_rtranclp_into_rtranclp)
      next
        case False
        then have "r = (?ct, ucast ?port)" using body \<open>\<not> ?port > 65535\<close> by (simp add: Let_def)
        moreover have "ep_step \<lparr>ep_table = ?ct, ep_calls = add_mset (Probing ?port) cs\<rparr>
            \<lparr>ep_table = ?ct, ep_calls = add_mset (Found (ucast ?port)) cs\<rparr>"
          using False by (intro step) (simp add: Let_def)
        ultimately show ?thesis
          unfolding P_def using 1 by (simp add: converse_rtranclp_into_rtranclp r_into_rtranclp)
      qed
    qed
  qed
  then show ?thesis by (simp add: P_def)
qed

section \<open>Two calls that keep each other from returning\<close>

text \<open>
  The state after \<open>k\<close> rounds: one call is about to swap, having drawn the value \<open>65536 + k\<close>, the
  other is about to draw the next one, which makes the swap fail.
\<close>

definition locked_step :: "connection_table \<Rightarrow> nat \<Rightarrow> ep_system" where
  "locked_step ct k =
     \<lparr>ep_table = ct\<lparr>ct_ephemeralPort := of_nat (65537 + k)\<rparr>,
      ep_calls = {#Resetting (of_nat (65536 + k)), Searching#}\<rparr>"

lemma locked_round:
  assumes "65537 + k < 2 ^ 32"
  shows "ep_step\<^sup>*\<^sup>* (locked_step ct k) (locked_step ct (Suc k))"
proof -
  let ?t = "\<lambda>n. ct\<lparr>ct_ephemeralPort := of_nat (65537 + n)\<rparr>"
  let ?mid = "\<lparr>ep_table = ?t (Suc k), ep_calls = {#Resetting (of_nat (65537 + k)), Resetting (of_nat (65536 + k))#}\<rparr>"
  have u: "unat (of_nat (65537 + k) :: 32 word) = 65537 + k"
    using assms by (simp add: unat_of_nat del: of_nat_add of_nat_Suc)
  have g: "(65535 :: 32 word) < of_nat (65537 + k)"
    using u by (simp add: word_less_nat_alt del: of_nat_add)
  have n: "of_nat (65537 + k) + 1 = (of_nat (65537 + Suc k) :: 32 word)" "of_nat (65536 + k) + 1 = (of_nat (65537 + k) :: 32 word)"
    by (simp_all add: algebra_simps)
  have d: "of_nat (65537 + Suc k) \<noteq> (of_nat (65537 + k) :: 32 word)" unfolding n(1) [symmetric] by simp
  have 1: "ep_step (locked_step ct k) ?mid"
  proof -
    have "ep_access Searching (?t k) = (Resetting (of_nat (65537 + k)), ?t (Suc k))"
      using g by (simp add: Let_def n(1) del: of_nat_add of_nat_Suc)
    then show ?thesis
      using ep_step.access [of "locked_step ct k" Searching "{#Resetting (of_nat (65536 + k))#}"]
      by (simp add: locked_step_def add_mset_commute del: ep_access.simps of_nat_add of_nat_Suc)
  qed
  have 2: "ep_step ?mid (locked_step ct (Suc k))"
  proof -
    have "ep_access (Resetting (of_nat (65536 + k))) (?t (Suc k)) = (Searching, ?t (Suc k))"
      using d by (simp add: compare_and_swap_def n(2) del: of_nat_add of_nat_Suc)
    then show ?thesis
      using ep_step.access [of ?mid "Resetting (of_nat (65536 + k))" "{#Resetting (of_nat (65537 + k))#}"]
      by (simp add: locked_step_def add_mset_commute del: ep_access.simps of_nat_add of_nat_Suc)
  qed
  show ?thesis using 1 2 by (meson converse_rtranclp_into_rtranclp r_into_rtranclp)
qed

lemma locked_rounds: "65536 + k < 2 ^ 32 \<Longrightarrow> ep_step\<^sup>*\<^sup>* (locked_step ct 0) (locked_step ct k)"
proof (induction k)
  case (Suc k)
  then show ?case using locked_round [of k ct] by simp
qed simp

text \<open>Two calls on a counter at the end of the range.\<close>

definition wrap_start :: "connection_table \<Rightarrow> ep_system" where
  "wrap_start ct = \<lparr>ep_table = ct\<lparr>ct_ephemeralPort := 65536\<rparr>, ep_calls = {#Searching, Searching#}\<rparr>"

lemma wrap_start_locked: "ep_step (wrap_start ct) (locked_step ct 0)"
  using ep_step.access [of "wrap_start ct" Searching "{#Searching#}"]
  by (simp add: wrap_start_def locked_step_def Let_def add_mset_commute)

section \<open>Ports drawn before the wrap\<close>

text \<open>The port a call has drawn.\<close>

fun drawn :: "ep_call \<Rightarrow> nat option" where
  "drawn (Probing port) = Some (unat port)"
| "drawn (Found p) = Some (unat p)"
| "drawn _ = None"

definition drawn_ports :: "ep_call multiset \<Rightarrow> nat multiset" where
  "drawn_ports cs = image_mset (the \<circ> drawn) (filter_mset (\<lambda>c. drawn c \<noteq> None) cs)"

lemma drawn_ports_add:
  "drawn_ports (add_mset c cs) = (case drawn c of None \<Rightarrow> drawn_ports cs | Some v \<Rightarrow> add_mset v (drawn_ports cs))"
  by (simp add: drawn_ports_def split: option.splits)

lemma drawn_ports_Searching: "\<forall>c \<in># cs. c = Searching \<Longrightarrow> drawn_ports cs = {#}"
proof (induction cs)
  case empty
  then show ?case by (simp add: drawn_ports_def)
next
  case (add c cs)
  then show ?case by (simp add: drawn_ports_add)
qed

lemma count_Found_drawn: "count cs (Found p) \<le> count (drawn_ports cs) (unat p)"
proof (induction cs)
  case (add c cs)
  then show ?case by (cases c) (auto simp: drawn_ports_add)
qed simp

definition draw_inv :: "nat \<Rightarrow> nat \<Rightarrow> ep_system \<Rightarrow> bool" where
  "draw_inv c0 n s \<longleftrightarrow>
     (\<forall>v. count (drawn_ports (ep_calls s)) v \<le> 1)
     \<and> (\<forall>v \<in># drawn_ports (ep_calls s). c0 \<le> v \<and> v < unat (ct_ephemeralPort (ep_table s)))
     \<and> c0 \<le> unat (ct_ephemeralPort (ep_table s)) \<and> unat (ct_ephemeralPort (ep_table s)) \<le> c0 + n
     \<and> (\<forall>p. Resetting p \<notin># ep_calls s)"

lemma draw_inv_step:
  assumes "draw_inv c0 n s" "ep_step s s'" "c0 + n < 65536"
  shows "draw_inv c0 (Suc n) s'"
  using assms(2)
proof cases
  case (access c cs c' ct)
  let ?k = "unat (ct_ephemeralPort (ep_table s))"
  have k: "?k < 65536" using assms(1,3) by (simp add: draw_inv_def)
  have sub: "drawn_ports cs \<subseteq># drawn_ports (ep_calls s)"
    unfolding access(2) by (simp add: drawn_ports_add split: option.splits)
  have ports: "\<forall>v \<in># drawn_ports cs. c0 \<le> v \<and> v < ?k" "\<forall>v. count (drawn_ports cs) v \<le> 1"
    using assms(1) mset_subset_eqD [OF sub] mset_subset_eq_count [OF sub] le_trans
    unfolding draw_inv_def by blast+
  show ?thesis
  proof (cases c)
    case Searching
    have w: "\<not> 65535 < ct_ephemeralPort (ep_table s)" "unat (ct_ephemeralPort (ep_table s) + 1) = Suc ?k"
      using k by (simp_all add: word_less_nat_alt unat_word_ariths)
    have "?k \<notin># drawn_ports cs" "\<forall>v \<in># drawn_ports cs. v < Suc ?k" using ports(1) by force+
    then show ?thesis
      using assms(1) access ports w Searching
      by (auto simp: draw_inv_def drawn_ports_add Let_def not_in_iff)
  next
    case (Resetting p)
    then show ?thesis using assms(1) access(2) by (auto simp: draw_inv_def)
  next
    case (Probing p)
    have "count (drawn_ports (ep_calls s)) (unat p) \<le> 1" using assms(1) by (simp add: draw_inv_def)
    then have z: "count (drawn_ports cs) (unat p) = 0" using access(2) Probing by (simp add: drawn_ports_add)
    have "unat p < ?k" using assms(1) access(2) Probing by (simp add: draw_inv_def drawn_ports_add)
    then have "unat (ucast p :: 16 word) = unat p" using k by (simp add: unsigned_ucast_eq take_bit_eq_mod)
    then show ?thesis
      using assms(1) access ports Probing z
      by (auto simp: draw_inv_def drawn_ports_add Let_def split: if_splits)
  next
    case (Found p)
    then show ?thesis using assms(1) access by (auto simp: draw_inv_def)
  qed
qed (use assms(1) in \<open>auto simp: draw_inv_def drawn_ports_add\<close>)

lemma draw_inv_steps:
  "(ep_step ^^ n) s0 s \<Longrightarrow> draw_inv c0 0 s0 \<Longrightarrow> c0 + n \<le> 65536 \<Longrightarrow> draw_inv c0 n s"
proof (induction n arbitrary: s)
  case (Suc n)
  then obtain t where "(ep_step ^^ n) s0 t" "ep_step t s" by auto
  moreover have "draw_inv c0 n t" using Suc.IH [OF calculation(1)] Suc.prems by simp
  ultimately show ?case using draw_inv_step Suc.prems(3) by simp
qed simp

section \<open>Properties\<close>

text \<open>
  Property C27. Concurrent calls get different ports: as long as the steps of all calls do not
  exhaust the range, no two of any number of interleaved calls return the same port, whatever
  happens to the table meanwhile, and every port returned is one of the range from the counter's
  value at the start.
\<close>

theorem concurrent_ports_distinct:
  assumes "(ep_step ^^ n) s0 s" "\<forall>c \<in># ep_calls s0. c = Searching"
    and "unat (ct_ephemeralPort (ep_table s0)) + n \<le> 65536"
  shows "count (ep_calls s) (Found p) \<le> 1
    \<and> (Found p \<in># ep_calls s \<longrightarrow> unat (ct_ephemeralPort (ep_table s0)) \<le> unat p)"
proof -
  let ?c0 = "unat (ct_ephemeralPort (ep_table s0))"
  have "drawn_ports (ep_calls s0) = {#}"
    using assms(2) by (rule drawn_ports_Searching)
  then have "draw_inv ?c0 0 s0" using assms(2) by (auto simp: draw_inv_def)
  then have i: "draw_inv ?c0 n s" using draw_inv_steps assms(1,3) by blast
  then have "count (drawn_ports (ep_calls s)) (unat p) \<le> 1" by (simp add: draw_inv_def)
  moreover have "?c0 \<le> unat p" if "Found p \<in># ep_calls s"
    using i count_Found_drawn [of "ep_calls s" p] that unfolding draw_inv_def
    by (metis count_greater_zero_iff order_less_le_trans)
  ultimately show ?thesis using count_Found_drawn [of "ep_calls s" p] by simp
qed

theorem concurrent_ports_distinct_witness:
  "\<exists>s. (ep_step ^^ 4) \<lparr>ep_table = NewConnectionTable, ep_calls = {#Searching, Searching#}\<rparr> s
     \<and> Found 49152 \<in># ep_calls s \<and> Found 49153 \<in># ep_calls s \<and> count (ep_calls s) (Found 49152) \<le> 1"
proof -
  let ?t = "\<lambda>n. NewConnectionTable\<lparr>ct_ephemeralPort := n\<rparr>"
  let ?s = "\<lambda>n a b. \<lparr>ep_table = ?t n, ep_calls = {#a, b#}\<rparr>"
  have t: "?t 49152 = NewConnectionTable" by (simp add: NewConnectionTable_def)
  have step: "ep_step (?s m a b) (?s n a' b)" if "ep_access a (?t m) = (a', ?t n)" for a a' b m n
    using ep_step.access [of "?s m a b" a "{#b#}" a' "?t n"] that by simp
  have 1: "ep_step (?s 49152 Searching Searching) (?s 49153 (Probing 49152) Searching)"
    by (rule step) (simp add: Let_def)
  have 2: "ep_step (?s 49153 Searching (Probing 49152)) (?s 49154 (Probing 49153) (Probing 49152))"
    by (rule step) (simp add: Let_def)
  have 3: "ep_step (?s 49154 (Probing 49153) (Probing 49152)) (?s 49154 (Found 49153) (Probing 49152))"
    by (rule step) (simp add: Let_def port_in_use_def NewConnectionTable_def)
  have 4: "ep_step (?s 49154 (Probing 49152) (Found 49153)) (?s 49154 (Found 49152) (Found 49153))"
    by (rule step) (simp add: Let_def port_in_use_def NewConnectionTable_def)
  have "(ep_step ^^ Suc (Suc (Suc (Suc 0)))) (?s 49152 Searching Searching) (?s 49154 (Found 49152) (Found 49153))"
    using 1 2 3 4 by (auto simp: add_mset_commute)
  then have r: "(ep_step ^^ 4) \<lparr>ep_table = NewConnectionTable, ep_calls = {#Searching, Searching#}\<rparr>
      (?s 49154 (Found 49152) (Found 49153))"
    by (simp add: numeral_eq_Suc t)
  have "count (ep_calls (?s 49154 (Found 49152) (Found 49153))) (Found 49152) \<le> 1"
    using concurrent_ports_distinct [OF r, of 49152] by (simp add: NewConnectionTable_def)
  then show ?thesis using r by (intro exI [of _ "?s 49154 (Found 49152) (Found 49153)"]) simp
qed

text \<open>
  At the end of the range two calls can keep each other from ever returning,
  although every port may be free: each draws a new value before the other has compared and
  swapped, so no swap succeeds and the counter runs on, round after round through the whole
  32-bit range; and when it wraps around there, a call returns port 0.
\<close>

theorem EphemeralPort_livelock:
  "(65536 + k < 2 ^ 32 \<longrightarrow> ep_step\<^sup>*\<^sup>* (wrap_start ct) (locked_step ct k)
      \<and> (\<forall>p. Found p \<notin># ep_calls (locked_step ct k)))
   \<and> (\<not> port_in_use ct 0 \<longrightarrow> (\<exists>s. ep_step\<^sup>*\<^sup>* (wrap_start ct) s \<and> Found 0 \<in># ep_calls s))"
proof (intro conjI impI)
  have run: "ep_step\<^sup>*\<^sup>* (wrap_start ct) (locked_step ct k)" if "65536 + k < 2 ^ 32" for k
    using wrap_start_locked locked_rounds [OF that] by (rule converse_rtranclp_into_rtranclp)
  show "ep_step\<^sup>*\<^sup>* (wrap_start ct) (locked_step ct k)" if "65536 + k < 2 ^ 32"
    using that by (rule run)
  show "\<forall>p. Found p \<notin># ep_calls (locked_step ct k)" by (simp add: locked_step_def)
  assume free: "\<not> port_in_use ct 0"
  let ?s = "locked_step ct 4294901759" and ?r = "Resetting (4294967295 :: 32 word)"
  have s: "?s = \<lparr>ep_table = ct\<lparr>ct_ephemeralPort := 0\<rparr>, ep_calls = {#?r, Searching#}\<rparr>"
    by (simp add: locked_step_def)
  let ?t = "\<lparr>ep_table = ct\<lparr>ct_ephemeralPort := 1\<rparr>, ep_calls = {#Probing 0, ?r#}\<rparr>"
  let ?u = "\<lparr>ep_table = ct\<lparr>ct_ephemeralPort := 1\<rparr>, ep_calls = {#Found 0, ?r#}\<rparr>"
  have 1: "ep_step ?s ?t"
    using ep_step.access [of ?s Searching "{#?r#}"] by (simp add: s Let_def add_mset_commute)
  have 2: "ep_step ?t ?u"
    using ep_step.access [of ?t "Probing 0" "{#?r#}"] free by (simp add: Let_def)
  have "ep_step\<^sup>*\<^sup>* (wrap_start ct) ?s" by (rule run) simp
  then have "ep_step\<^sup>*\<^sup>* (wrap_start ct) ?u" using 1 2 by (meson rtranclp.rtrancl_into_rtrancl)
  then show "\<exists>s. ep_step\<^sup>*\<^sup>* (wrap_start ct) s \<and> Found 0 \<in># ep_calls s" by (intro exI [of _ ?u]) simp
qed

theorem EphemeralPort_livelock_witness:
  "\<exists>s. ep_step\<^sup>*\<^sup>* (wrap_start NewConnectionTable) s \<and> Found 0 \<in># ep_calls s"
proof -
  have "\<not> port_in_use NewConnectionTable 0" by code_simp
  then show ?thesis using EphemeralPort_livelock [of 0 NewConnectionTable] by blast
qed

end
