(* ===== verification/Config_File.thy ===== *)
theory Config_File
  imports Net_Ip
begin

text \<open>
  \<^verbatim>\<open>internal/config/config.go\<close> and the \<open>start\<close> command of \<^verbatim>\<open>cmd/gonet/main.go\<close>: defaults,
  loading, overriding by flags, validation. Reading a file and decoding YAML or JSON into a
  configuration are not code of the program and are arguments of \<open>Load\<close>.
\<close>

section \<open>The code\<close>

record extensions =
  ext_IPv6 :: bool
  ext_MPTCP :: bool
  ext_ECN :: bool
  ext_Timestamps :: bool

record config =
  cfg_Mode :: string
  cfg_DeviceName :: string
  cfg_DeviceIP :: string
  cfg_PeerIP :: string
  cfg_MTU :: int
  cfg_LogLevel :: string
  cfg_LogPretty :: bool
  cfg_BufSize :: int
  cfg_Extensions :: extensions

definition Defaults :: config where
  "Defaults =
     \<lparr>cfg_Mode = ''tun'', cfg_DeviceName = ''gonet0'', cfg_DeviceIP = [], cfg_PeerIP = [],
      cfg_MTU = 1500, cfg_LogLevel = ''info'', cfg_LogPretty = True, cfg_BufSize = 65535,
      cfg_Extensions = \<lparr>ext_IPv6 = False, ext_MPTCP = False, ext_ECN = False, ext_Timestamps = False\<rparr>\<rparr>"

text \<open>
  \<^verbatim>\<open>strings.ToLower\<close> on UTF-8 bytes, as far as a comparison with an ASCII string can see it: the
  two letters outside ASCII with an ASCII lower case are the dotted capital I and the Kelvin sign.
\<close>

definition lower_char :: "char \<Rightarrow> char" where
  "lower_char c =
     (let n = of_char c :: nat in if 65 \<le> n \<and> n \<le> 90 then char_of (n + 32) else c)"

function ToLower :: "string \<Rightarrow> string" where
  "ToLower [] = []"
| "ToLower (c # s) =
     (if c = CHR 0xC4 \<and> take 1 s = [CHR 0xB0] then CHR ''i'' # ToLower (drop 1 s)
      else if c = CHR 0xE2 \<and> take 2 s = [CHR 0x84, CHR 0xAA] then CHR ''k'' # ToLower (drop 2 s)
      else lower_char c # ToLower s)"
  by pat_completeness auto
termination by (relation "measure length") auto

text \<open>\<^verbatim>\<open>filepath.Ext\<close>: from the last dot of the last path element.\<close>

definition Ext :: "string \<Rightarrow> string" where
  "Ext path =
     (let base = takeWhile (\<lambda>c. c \<noteq> CHR ''/'') (rev path)
      in if CHR ''.'' \<in> set base then CHR ''.'' # rev (takeWhile (\<lambda>c. c \<noteq> CHR ''.'') base) else [])"

datatype ('f, 'd) config_error =
    ReadFileError 'f
  | JSONError 'd
  | YAMLError 'd
  | UnsupportedExtension
  | InvalidMode string
  | InvalidMTU int
  | InvalidDeviceIP string
  | InvalidPeerIP string
  | InvalidLogLevel string
  | InvalidBufSize int

text \<open>
  A decoder stores into the configuration it is given and may fail half-way. The file system
  says whether a failure to read means that the file does not exist.
\<close>

type_synonym 'd decoder = "string \<Rightarrow> config \<Rightarrow> config \<times> 'd option"

definition Load ::
  "(string \<Rightarrow> 'f + string) \<Rightarrow> ('f \<Rightarrow> bool) \<Rightarrow> 'd decoder \<Rightarrow> 'd decoder \<Rightarrow> string \<Rightarrow>
   (('f, 'd) config_error, config) outcome" where
  "Load ReadFile IsNotExist json yaml path =
     (let c = Defaults
      in if path = [] then Ok c
      else case ReadFile path of
        Inl err \<Rightarrow> if IsNotExist err then Ok c else Err (ReadFileError err)
      | Inr data \<Rightarrow>
          let ext = ToLower (Ext path)
          in if ext = ''.json'' then
            (case json data c of (c, Some err) \<Rightarrow> Err (JSONError err) | (c, None) \<Rightarrow> Ok c)
          else if ext = ''.yaml'' \<or> ext = ''.yml'' then
            (case yaml data c of (c, Some err) \<Rightarrow> Err (YAMLError err) | (c, None) \<Rightarrow> Ok c)
          else Err UnsupportedExtension)"

definition Validate :: "config \<Rightarrow> ('f, 'd) config_error option" where
  "Validate c =
     (if cfg_Mode c \<noteq> ''tun'' \<and> cfg_Mode c \<noteq> ''raw'' then Some (InvalidMode (cfg_Mode c))
      else if cfg_MTU c < 576 \<or> cfg_MTU c > 65535 then Some (InvalidMTU (cfg_MTU c))
      else if cfg_DeviceIP c \<noteq> [] \<and> ParseIP (cfg_DeviceIP c) = None then Some (InvalidDeviceIP (cfg_DeviceIP c))
      else if cfg_PeerIP c \<noteq> [] \<and> ParseIP (cfg_PeerIP c) = None then Some (InvalidPeerIP (cfg_PeerIP c))
      else if ToLower (cfg_LogLevel c) \<notin> {''debug'', ''info'', ''warn'', ''error''} then
        Some (InvalidLogLevel (cfg_LogLevel c))
      else if cfg_BufSize c \<le> 0 then Some (InvalidBufSize (cfg_BufSize c))
      else None)"

text \<open>\<^verbatim>\<open>main.go\<close>: the flags that were set on the command line, each with its value.\<close>

record flags =
  fl_config :: string
  fl_mode :: "string option"
  fl_device :: "string option"
  fl_ip :: "string option"
  fl_peer :: "string option"
  fl_mtu :: "int option"
  fl_log_level :: "string option"

definition override :: "flags \<Rightarrow> config \<Rightarrow> config" where
  "override fl cfg =
     (let cfg = (case fl_mode fl of None \<Rightarrow> cfg | Some v \<Rightarrow> cfg\<lparr>cfg_Mode := v\<rparr>);
          cfg = (case fl_device fl of None \<Rightarrow> cfg | Some v \<Rightarrow> cfg\<lparr>cfg_DeviceName := v\<rparr>);
          cfg = (case fl_ip fl of None \<Rightarrow> cfg | Some v \<Rightarrow> cfg\<lparr>cfg_DeviceIP := v\<rparr>);
          cfg = (case fl_peer fl of None \<Rightarrow> cfg | Some v \<Rightarrow> cfg\<lparr>cfg_PeerIP := v\<rparr>);
          cfg = (case fl_mtu fl of None \<Rightarrow> cfg | Some v \<Rightarrow> cfg\<lparr>cfg_MTU := v\<rparr>)
      in case fl_log_level fl of None \<Rightarrow> cfg | Some v \<Rightarrow> cfg\<lparr>cfg_LogLevel := v\<rparr>)"

text \<open>The configuration with which \<open>start\<close> goes on, or the error with which it ends.\<close>

definition start_config ::
  "(string \<Rightarrow> 'f + string) \<Rightarrow> ('f \<Rightarrow> bool) \<Rightarrow> 'd decoder \<Rightarrow> 'd decoder \<Rightarrow> flags \<Rightarrow>
   (('f, 'd) config_error, config) outcome" where
  "start_config ReadFile IsNotExist json yaml fl =
     obind (Load ReadFile IsNotExist json yaml (fl_config fl)) (\<lambda>cfg.
       let cfg = override fl cfg
       in case Validate cfg of Some err \<Rightarrow> Err err | None \<Rightarrow> Ok cfg)"

section \<open>Valid configurations\<close>

text \<open>What the rest of the program may rely on.\<close>

definition usable :: "config \<Rightarrow> bool" where
  "usable c \<longleftrightarrow>
     cfg_Mode c \<in> {''tun'', ''raw''} \<and> 576 \<le> cfg_MTU c \<and> cfg_MTU c \<le> 65535 \<and> 0 < cfg_BufSize c
     \<and> (\<forall>a \<in> {cfg_DeviceIP c, cfg_PeerIP c}. a = [] \<or> ParseIP a \<noteq> None)
     \<and> ToLower (cfg_LogLevel c) \<in> {''debug'', ''info'', ''warn'', ''error''}"

lemma Validate_None_iff: "Validate c = None \<longleftrightarrow> usable c"
  by (auto simp: Validate_def usable_def)

lemma override_fields:
  "cfg_Mode (override fl c) = (case fl_mode fl of None \<Rightarrow> cfg_Mode c | Some v \<Rightarrow> v)"
  "cfg_DeviceName (override fl c) = (case fl_device fl of None \<Rightarrow> cfg_DeviceName c | Some v \<Rightarrow> v)"
  "cfg_DeviceIP (override fl c) = (case fl_ip fl of None \<Rightarrow> cfg_DeviceIP c | Some v \<Rightarrow> v)"
  "cfg_PeerIP (override fl c) = (case fl_peer fl of None \<Rightarrow> cfg_PeerIP c | Some v \<Rightarrow> v)"
  "cfg_MTU (override fl c) = (case fl_mtu fl of None \<Rightarrow> cfg_MTU c | Some v \<Rightarrow> v)"
  "cfg_LogLevel (override fl c) = (case fl_log_level fl of None \<Rightarrow> cfg_LogLevel c | Some v \<Rightarrow> v)"
  "cfg_BufSize (override fl c) = cfg_BufSize c" "cfg_LogPretty (override fl c) = cfg_LogPretty c"
  "cfg_Extensions (override fl c) = cfg_Extensions c"
  by (simp_all add: override_def split: option.splits)

text \<open>The loaded configuration, by the file.\<close>

definition loaded ::
  "(string \<Rightarrow> 'f + string) \<Rightarrow> ('f \<Rightarrow> bool) \<Rightarrow> 'd decoder \<Rightarrow> 'd decoder \<Rightarrow> string \<Rightarrow> config \<Rightarrow> bool" where
  "loaded ReadFile IsNotExist json yaml path c \<longleftrightarrow>
     ((path = [] \<or> (\<exists>err. ReadFile path = Inl err \<and> IsNotExist err)) \<and> c = Defaults)
     \<or> (path \<noteq> [] \<and> (\<exists>data. ReadFile path = Inr data
          \<and> ((ToLower (Ext path) = ''.json'' \<and> json data Defaults = (c, None))
             \<or> (ToLower (Ext path) \<in> {''.yaml'', ''.yml''} \<and> yaml data Defaults = (c, None)))))"

lemma Load_Ok_iff: "Load ReadFile IsNotExist json yaml path = Ok c \<longleftrightarrow> loaded ReadFile IsNotExist json yaml path c"
  by (auto simp: Load_def loaded_def Let_def split: sum.splits prod.splits option.splits if_splits)

lemma Load_no_panic: "Load ReadFile IsNotExist json yaml path \<noteq> Panic"
  by (auto simp: Load_def Let_def split: sum.splits prod.splits option.splits)

text \<open>When \<open>start\<close> has a configuration.\<close>

lemma start_config_Ok_iff:
  "start_config ReadFile IsNotExist json yaml fl = Ok c \<longleftrightarrow>
     (\<exists>base. loaded ReadFile IsNotExist json yaml (fl_config fl) base \<and> c = override fl base \<and> usable c)"
proof -
  have "(case Validate (override fl base) of
        Some err \<Rightarrow> Err err | None \<Rightarrow> Ok (override fl base)) = (Ok c :: (('a, 'b) config_error, config) outcome) \<longleftrightarrow>
      c = override fl base \<and> usable c" for base
    using Validate_None_iff [of "override fl base", where ?'a = 'a and ?'b = 'b]
    by (auto split: option.splits)
  then show ?thesis by (simp only: start_config_def obind_Ok_iff Load_Ok_iff Let_def)
qed

lemma start_config_no_panic: "start_config ReadFile IsNotExist json yaml fl \<noteq> Panic"
  by (auto simp: start_config_def obind_Panic_iff Load_no_panic Let_def split: option.splits)

section \<open>Properties\<close>

text \<open>
  The configuration that \<open>start\<close> goes on with is usable (a known mode, an MTU that
  fits an IPv4 packet and is at least 576, a positive buffer, addresses that parse, a known log
  level), and each setting comes from the flag if that was given, else from the file, else from
  the defaults; conversely every usable configuration is accepted, and no input makes the
  command panic.
\<close>

theorem start_config_spec:
  "(start_config ReadFile IsNotExist json yaml fl = Ok c \<longleftrightarrow>
      (\<exists>base. loaded ReadFile IsNotExist json yaml (fl_config fl) base \<and> c = override fl base \<and> usable c))
   \<and> start_config ReadFile IsNotExist json yaml fl \<noteq> Panic
   \<and> (start_config ReadFile IsNotExist json yaml fl = Ok c \<longrightarrow>
       (\<forall>v. fl_mtu fl = Some v \<longrightarrow> cfg_MTU c = v) \<and> (\<forall>v. fl_mode fl = Some v \<longrightarrow> cfg_Mode c = v)
       \<and> 576 \<le> cfg_MTU c \<and> cfg_MTU c \<le> 65535 \<and> cfg_Mode c \<in> {''tun'', ''raw''})"
  using start_config_Ok_iff [of ReadFile IsNotExist json yaml fl c] start_config_no_panic [of ReadFile IsNotExist json yaml fl]
  by (auto simp only: usable_def override_fields option.case)

definition no_flags :: flags where
  "no_flags = \<lparr>fl_config = ''gonet.yml'', fl_mode = None, fl_device = None, fl_ip = None,
     fl_peer = None, fl_mtu = None, fl_log_level = None\<rparr>"

theorem start_config_spec_witness:
  "start_config (\<lambda>_. Inl (2 :: nat)) (\<lambda>e. e = 2) (\<lambda>d c. (c, None :: unit option)) (\<lambda>d c. (c, None))
     (no_flags\<lparr>fl_mtu := Some 9000\<rparr>) = Ok (Defaults\<lparr>cfg_MTU := 9000\<rparr>)
   \<and> cfg_MTU (Defaults\<lparr>cfg_MTU := 9000\<rparr>) \<le> 65535"
proof -
  have s: "start_config (\<lambda>_. Inl (2 :: nat)) (\<lambda>e. e = 2) (\<lambda>d c. (c, None :: unit option)) (\<lambda>d c. (c, None))
     (no_flags\<lparr>fl_mtu := Some 9000\<rparr>) = Ok (Defaults\<lparr>cfg_MTU := 9000\<rparr>)" by code_simp
  then show ?thesis
    using start_config_spec [of "\<lambda>_. Inl (2 :: nat)" "\<lambda>e. e = 2" "\<lambda>d c. (c, None :: unit option)"
        "\<lambda>d c. (c, None)" "no_flags\<lparr>fl_mtu := Some 9000\<rparr>" "Defaults\<lparr>cfg_MTU := 9000\<rparr>"] by blast
qed

text \<open>
  The errors. The MTU is reported exactly when the mode is known and the MTU out of
  range, whatever the later fields hold; the buffer size exactly when it is all that is wrong. A
  missing file is no error, not even one with an unsupported extension, while an existing file
  with such an extension is.
\<close>

theorem config_errors:
  "(Validate c = (Some (InvalidMTU n) :: ('f, 'd) config_error option) \<longleftrightarrow>
      cfg_Mode c \<in> {''tun'', ''raw''} \<and> (n < 576 \<or> 65535 < n) \<and> n = cfg_MTU c)
   \<and> (Validate c = (Some (InvalidBufSize k) :: ('f, 'd) config_error option) \<longleftrightarrow>
      usable (c\<lparr>cfg_BufSize := 1\<rparr>) \<and> k \<le> 0 \<and> k = cfg_BufSize c)
   \<and> (ReadFile path = Inl err \<and> IsNotExist err \<longrightarrow>
        Load ReadFile IsNotExist json yaml path = (Ok Defaults :: (('f, 'd) config_error, config) outcome))
   \<and> (Ext path = ''.toml'' \<and> ReadFile path = Inr data \<longrightarrow>
        Load ReadFile IsNotExist json yaml path = (Err UnsupportedExtension :: (('f, 'd) config_error, config) outcome))"
proof -
  have "ToLower ''.toml'' = ''.toml''" by code_simp
  moreover have "Ext [] = []" by (simp add: Ext_def)
  ultimately show ?thesis
    by (auto simp: Validate_def usable_def Load_def Let_def)
qed

theorem config_errors_witness:
  "Load (\<lambda>_. Inr []) (\<lambda>_ :: unit. False) (\<lambda>d c. (c, None :: unit option)) (\<lambda>d c. (c, None)) ''etc/gonet.toml''
     = Err UnsupportedExtension"
proof -
  have "Ext ''etc/gonet.toml'' = ''.toml''" by code_simp
  then show ?thesis
    using config_errors [of Defaults 0 0 "\<lambda>_. Inr []" "''etc/gonet.toml''" "()" "\<lambda>_. False"
        "\<lambda>d c. (c, None :: unit option)" "\<lambda>d c. (c, None)" "[]"] by blast
qed

end
