(* ===== verification/Logging.thy ===== *)
theory Logging
  imports Config_File
begin

text \<open>
  \<^verbatim>\<open>internal/log/log.go\<close>: the construction of a logger, the fields that give a log line its
  packet or connection, and the hex dump. The logger itself is the \<^verbatim>\<open>zap\<close> library, of which the
  operations that the code calls are the fields of a record.
\<close>

section \<open>The code\<close>

definition FieldProto :: string where "FieldProto = ''proto''"
definition FieldSrcIP :: string where "FieldSrcIP = ''src_ip''"
definition FieldDstIP :: string where "FieldDstIP = ''dst_ip''"
definition FieldSrcPort :: string where "FieldSrcPort = ''src_port''"
definition FieldDstPort :: string where "FieldDstPort = ''dst_port''"
definition FieldState :: string where "FieldState = ''state''"
definition FieldSeq :: string where "FieldSeq = ''seq''"
definition FieldAck :: string where "FieldAck = ''ack''"

lemmas field_names = FieldProto_def FieldSrcIP_def FieldDstIP_def FieldSrcPort_def FieldDstPort_def
  FieldState_def FieldSeq_def FieldAck_def

text \<open>\<^verbatim>\<open>zap.Uint8\<close>, \<^verbatim>\<open>zap.Uint16\<close> and \<^verbatim>\<open>zap.Stringer\<close> of an address.\<close>

datatype log_field = Uint8 string byte | Uint16 string "16 word" | Stringer string bytes

record ('c, 'v, 'e, 'l) zap =
  NewDevelopmentConfig :: 'c
  NewProductionConfig :: 'c
  with_CapitalColorLevelEncoder :: "'c \<Rightarrow> 'c"
  ParseLevel :: "string \<Rightarrow> 'v option"
  InfoLevel :: 'v
  with_Level :: "'v \<Rightarrow> 'c \<Rightarrow> 'c"
  BuildLogger :: "'c \<Rightarrow> ('e, 'l) outcome"
  With :: "'l \<Rightarrow> log_field list \<Rightarrow> 'l"

definition NewLogger :: "('c, 'v, 'e, 'l) zap \<Rightarrow> string \<Rightarrow> bool \<Rightarrow> ('e, 'l) outcome" where
  "NewLogger z level pretty =
     (let config = (if pretty then with_CapitalColorLevelEncoder z (NewDevelopmentConfig z)
                    else NewProductionConfig z);
          parsedLevel = (case ParseLevel z (ToLower level) of
                           None \<Rightarrow> InfoLevel z
                         | Some parsedLevel \<Rightarrow> parsedLevel);
          config = with_Level z parsedLevel config
      in BuildLogger z config)"

definition WithPacket :: "('c, 'v, 'e, 'l) zap \<Rightarrow> 'l \<Rightarrow> byte \<Rightarrow> bytes \<Rightarrow> bytes \<Rightarrow> 'l" where
  "WithPacket z log proto src dst =
     With z log [Uint8 FieldProto proto, Stringer FieldSrcIP src, Stringer FieldDstIP dst]"

definition WithConn ::
  "('c, 'v, 'e, 'l) zap \<Rightarrow> 'l \<Rightarrow> bytes \<Rightarrow> 16 word \<Rightarrow> bytes \<Rightarrow> 16 word \<Rightarrow> 'l" where
  "WithConn z log srcIP srcPort dstIP dstPort =
     With z log [Stringer FieldSrcIP srcIP, Uint16 FieldSrcPort srcPort, Stringer FieldDstIP dstIP,
                 Uint16 FieldDstPort dstPort]"

text \<open>
  \<open>HexDump\<close>: a negative limit makes the slice expression panic, except for no data.
\<close>

definition HexDump :: "bytes \<Rightarrow> int \<Rightarrow> (unit, string) outcome" where
  "HexDump data maxBytes =
     (if length data = 0 then Ok []
      else if int (length data) \<le> maxBytes then Ok (EncodeToString data)
      else if maxBytes < 0 then Panic
      else Ok (EncodeToString (take (nat maxBytes) data) @ ''...''))"

section \<open>Hexadecimal\<close>

lemma hex_digit_inj: "m < 16 \<Longrightarrow> n < 16 \<Longrightarrow> hex_digit m = hex_digit n \<longleftrightarrow> m = n"
proof -
  have "distinct ''0123456789abcdef''" "length ''0123456789abcdef'' = 16" by code_simp+
  then show "m < 16 \<Longrightarrow> n < 16 \<Longrightarrow> hex_digit m = hex_digit n \<longleftrightarrow> m = n"
    by (simp only: hex_digit_def nth_eq_iff_index_eq)
qed

lemma hex_byte_inj: "hex_byte a = hex_byte b \<longleftrightarrow> a = b"
proof
  assume h: "hex_byte a = hex_byte b"
  have "unat a div 16 < 16" "unat b div 16 < 16" using unat_byte_less [of a] unat_byte_less [of b] by auto
  with h have "unat a div 16 = unat b div 16" "unat a mod 16 = unat b mod 16"
    by (simp_all add: hex_byte_def hex_digit_inj)
  then have "unat a = unat b" by (metis div_mult_mod_eq)
  then show "a = b" by (rule unsigned_word_eqI)
qed simp

lemma length_EncodeToString [simp]: "length (EncodeToString bs) = 2 * length bs"
  by (induction bs) (simp_all add: EncodeToString_def hex_byte_def)

lemma EncodeToString_inj: "EncodeToString xs = EncodeToString ys \<longleftrightarrow> xs = ys"
proof
  assume "EncodeToString xs = EncodeToString ys"
  then show "xs = ys"
  proof (induction xs arbitrary: ys)
    case Nil
    then have "length (EncodeToString []) = length (EncodeToString ys)" by (simp only:)
    then show ?case by simp
  next
    case (Cons x xs)
    then obtain y zs where y: "ys = y # zs" using length_EncodeToString [of ys] by (cases ys) (auto simp: EncodeToString_def hex_byte_def)
    have "hex_byte x @ EncodeToString xs = hex_byte y @ EncodeToString zs"
      using Cons.prems by (simp add: y EncodeToString_def)
    then have "hex_byte x = hex_byte y" "EncodeToString xs = EncodeToString zs" by (auto simp: hex_byte_def)
    then show ?case using Cons.IH by (simp add: y hex_byte_inj)
  qed
qed simp

section \<open>Log lines\<close>

text \<open>The key and the text of a field in a log line.\<close>

fun field_text :: "log_field \<Rightarrow> string \<times> string" where
  "field_text (Uint8 k v) = (k, dec (unat v))"
| "field_text (Uint16 k v) = (k, dec (unat v))"
| "field_text (Stringer k ip) = (k, IPString ip)"

text \<open>A logger that only keeps its level and its fields.\<close>

definition plain_zap :: "(string \<rightharpoonup> nat) \<Rightarrow> (bool \<times> nat, nat, unit, nat \<times> log_field list) zap" where
  "plain_zap levels =
     \<lparr>NewDevelopmentConfig = (True, 0), NewProductionConfig = (False, 0),
      with_CapitalColorLevelEncoder = (\<lambda>c. c), ParseLevel = levels, InfoLevel = 1,
      with_Level = (\<lambda>v c. (fst c, v)), BuildLogger = (\<lambda>c. Ok (snd c, [])),
      With = (\<lambda>l fs. (fst l, snd l @ fs))\<rparr>"

definition usual_levels :: "string \<rightharpoonup> nat" where
  "usual_levels = map_of [(''debug'', 0), (''info'', 1), (''warn'', 2), (''error'', 3)]"

lemma IPString_4_inj:
  assumes "length a = 4" "length b = 4" "IPString a = IPString b"
  shows "a = b"
proof -
  have i: "IPString x = dotted x" if "length x = 4" for x
    using that by (auto simp: IPString_def to4_def)
  have f: "to4 (IPv4 (x ! 0) (x ! 1) (x ! 2) (x ! 3)) = Some x" if "length x = 4" for x
    using that by (elim length_4E) simp
  have "dotted a = dotted b" using assms by (simp add: i)
  then have "IPv4 (a ! 0) (a ! 1) (a ! 2) (a ! 3) = IPv4 (b ! 0) (b ! 1) (b ! 2) (b ! 3)"
    using ParseIP_dotted [OF assms(1)] ParseIP_dotted [OF assms(2)] by simp
  then show ?thesis using f [OF assms(1)] f [OF assms(2)] by simp
qed

text \<open>The fields of a connection tell it from every other one.\<close>

lemma WithConn_identifies:
  assumes "length a = 4" "length b = 4" "length a' = 4" "length b' = 4"
    and "map field_text (snd (WithConn (plain_zap lv) (l, []) a p b q)) =
         map field_text (snd (WithConn (plain_zap lv) (l, []) a' p' b' q'))"
  shows "a = a' \<and> p = p' \<and> b = b' \<and> q = q'"
proof -
  have "IPString a = IPString a'" "IPString b = IPString b'" "dec (unat p) = dec (unat p')"
    "dec (unat q) = dec (unat q')"
    using assms(5) by (simp_all add: WithConn_def plain_zap_def)
  then show ?thesis using assms(1-4) IPString_4_inj dec_inj by (metis unsigned_word_eqI)
qed

text \<open>
  The dump shows all of a short packet and determines it, marks every cut, and panics for a
  negative limit.
\<close>

lemma HexDump_exact:
  "(HexDump data n = Panic \<longleftrightarrow> data \<noteq> [] \<and> n < 0)
   \<and> (\<forall>s. 0 \<le> n \<longrightarrow> HexDump data n = Ok s \<longrightarrow> length s \<le> 2 * nat n + 3)
   \<and> (int (length xs) \<le> n \<and> int (length ys) \<le> n \<longrightarrow> HexDump xs n = HexDump ys n \<longrightarrow> xs = ys)"
proof (intro conjI allI impI)
  show "HexDump data n = Panic \<longleftrightarrow> data \<noteq> [] \<and> n < 0" by (auto simp: HexDump_def)
  show "length s \<le> 2 * nat n + 3" if "0 \<le> n" "HexDump data n = Ok s" for s
    using that by (auto simp: HexDump_def split: if_splits)
  assume l: "int (length xs) \<le> n \<and> int (length ys) \<le> n" and e: "HexDump xs n = HexDump ys n"
  have h: "HexDump zs n = Ok (EncodeToString zs)" if "int (length zs) \<le> n" for zs
    using that by (auto simp: HexDump_def EncodeToString_def)
  show "xs = ys" using e l by (simp add: h EncodeToString_inj)
qed

section \<open>Properties\<close>

text \<open>
  The level of the logger. For every configuration that passes validation, of which the level may
  be written in any case, the logger is built with exactly the level of that name and not with
  the fallback; only for a name that the library does not know is it built with the level info,
  and no error is reported for that.
\<close>

theorem log_level_of_config:
  assumes "list_all (\<lambda>l. ParseLevel z l \<noteq> None) [''debug'', ''info'', ''warn'', ''error'']"
  shows "(Validate cfg = (None :: ('f, 'd) config_error option) \<longrightarrow>
      (\<exists>v. ParseLevel z (ToLower (cfg_LogLevel cfg)) = Some v
        \<and> NewLogger z (cfg_LogLevel cfg) pretty =
            BuildLogger z (with_Level z v (if pretty then with_CapitalColorLevelEncoder z (NewDevelopmentConfig z)
                                           else NewProductionConfig z))))
    \<and> (ParseLevel z (ToLower level) = None \<longrightarrow>
        NewLogger z level pretty =
            BuildLogger z (with_Level z (InfoLevel z) (if pretty then with_CapitalColorLevelEncoder z (NewDevelopmentConfig z)
                                           else NewProductionConfig z)))"
proof (intro conjI impI)
  assume "Validate cfg = (None :: ('f, 'd) config_error option)"
  then have "ToLower (cfg_LogLevel cfg) \<in> {''debug'', ''info'', ''warn'', ''error''}"
    by (simp only: Validate_None_iff usable_def)
  with assms obtain v where "ParseLevel z (ToLower (cfg_LogLevel cfg)) = Some v" by auto
  then show "\<exists>v. ParseLevel z (ToLower (cfg_LogLevel cfg)) = Some v
        \<and> NewLogger z (cfg_LogLevel cfg) pretty =
            BuildLogger z (with_Level z v (if pretty then with_CapitalColorLevelEncoder z (NewDevelopmentConfig z)
                                           else NewProductionConfig z))"
    by (simp add: NewLogger_def Let_def)
qed (simp add: NewLogger_def Let_def)

theorem log_level_of_config_witness:
  "NewLogger (plain_zap usual_levels) ''WaRn'' False = Ok (2, [])
   \<and> NewLogger (plain_zap usual_levels) ''loud'' True = Ok (1, [])"
proof
  have l: "list_all (\<lambda>l. ParseLevel (plain_zap usual_levels) l \<noteq> None) [''debug'', ''info'', ''warn'', ''error'']"
    by (simp add: plain_zap_def usual_levels_def)
  let ?z = "plain_zap usual_levels" and ?cfg = "Defaults\<lparr>cfg_LogLevel := ''WaRn''\<rparr>"
  have v: "Validate ?cfg = (None :: (unit, unit) config_error option)" by code_simp
  have t: "ToLower (cfg_LogLevel ?cfg) = ''warn''" "ToLower ''loud'' = ''loud''" by code_simp+
  have p: "ParseLevel ?z ''warn'' = Some 2" "ParseLevel ?z ''loud'' = None"
    "BuildLogger ?z (with_Level ?z n (if b then with_CapitalColorLevelEncoder ?z (NewDevelopmentConfig ?z)
        else NewProductionConfig ?z)) = Ok (n, [])" "InfoLevel ?z = 1" for n b
    by (simp_all add: plain_zap_def usual_levels_def)
  obtain n where "ParseLevel ?z (ToLower (cfg_LogLevel ?cfg)) = Some n"
    "NewLogger ?z (cfg_LogLevel ?cfg) False = Ok (n, [])"
    using conjunct1 [OF log_level_of_config [OF l, where cfg = ?cfg and pretty = False and ?'f = unit and ?'d = unit], THEN mp, OF v]
    unfolding p(3) by blast
  then show "NewLogger ?z ''WaRn'' False = Ok (2, [])" unfolding t p(1) by simp
  show "NewLogger ?z ''loud'' True = Ok (1, [])"
    using conjunct2 [OF log_level_of_config [OF l, where level = "''loud''" and pretty = True], THEN mp]
    unfolding t p(2,3,4) by simp
qed

end
