(* ===== verification/Command_Line.thy ===== *)
theory Command_Line
  imports Config_File
begin

text \<open>
  \<^verbatim>\<open>cmd/gonet/main.go\<close>: the commands with their flags, the \<open>RunE\<close> of \<open>start\<close>, the \<open>Run\<close> of
  \<open>version\<close>, and \<open>main\<close>. Reading the arguments is the work of the \<^verbatim>\<open>cobra\<close> library and is an
  argument here: a function from the command line to the command that is to run, with the values
  of its flags.
\<close>

section \<open>The code\<close>

datatype flag_value = FlagString string | FlagInt int

record flag_def =
  fd_name :: string
  fd_shorthand :: string
  fd_default :: flag_value
  fd_usage :: string

text \<open>The calls of \<open>init\<close> that define flags: \<open>StringVarP\<close>, \<open>String\<close> and \<open>Int\<close>.\<close>

definition flag_String :: "string \<Rightarrow> string \<Rightarrow> string \<Rightarrow> flag_def" where
  "flag_String name val usage = \<lparr>fd_name = name, fd_shorthand = [], fd_default = FlagString val, fd_usage = usage\<rparr>"

definition flag_Int :: "string \<Rightarrow> int \<Rightarrow> string \<Rightarrow> flag_def" where
  "flag_Int name val usage = \<lparr>fd_name = name, fd_shorthand = [], fd_default = FlagInt val, fd_usage = usage\<rparr>"

definition flag_StringP :: "string \<Rightarrow> string \<Rightarrow> string \<Rightarrow> string \<Rightarrow> flag_def" where
  "flag_StringP name shorthand val usage =
     \<lparr>fd_name = name, fd_shorthand = shorthand, fd_default = FlagString val, fd_usage = usage\<rparr>"

definition start_flags :: "flag_def list" where
  "start_flags =
     [flag_StringP ''config'' ''c'' [] ''path to config file (YAML/JSON)'',
      flag_String ''mode'' ''tun'' ''networking mode: tun or raw'',
      flag_String ''device'' ''gonet0'' ''interface name'',
      flag_String ''ip'' [] ''device IP address'',
      flag_String ''peer'' [] ''peer IP address'',
      flag_Int ''mtu'' 1500 ''MTU of the interface'',
      flag_String ''log-level'' ''info'' ''log level: debug, info, warn, error'']"

record command =
  cmd_Use :: string
  cmd_Short :: string
  cmd_Long :: string
  cmd_Flags :: "flag_def list"

definition startCmd :: command where
  "startCmd = \<lparr>cmd_Use = ''start'', cmd_Short = ''Start the gonet networking stack'', cmd_Long = [],
     cmd_Flags = start_flags\<rparr>"

definition versionCmd :: command where
  "versionCmd = \<lparr>cmd_Use = ''version'', cmd_Short = ''Print the version number of gonet'', cmd_Long = [],
     cmd_Flags = []\<rparr>"

definition rootCmd :: command where
  "rootCmd = \<lparr>cmd_Use = ''gonet'', cmd_Short = ''gonet is a userspace TCP/IP stack'',
     cmd_Long = ''A complete userspace TCP/IP stack implemented in Go using raw sockets and TUN devices.'',
     cmd_Flags = []\<rparr>"

text \<open>The commands that \<open>init\<close> adds to the root command.\<close>

definition root_children :: "command list" where
  "root_children = [startCmd, versionCmd]"

text \<open>\<^verbatim>\<open>fmt\<close> with the verb \<open>%+v\<close> on a pointer to a configuration.\<close>

definition dec_int :: "int \<Rightarrow> string" where
  "dec_int n = (if n < 0 then CHR ''-'' # dec (nat (- n)) else dec (nat n))"

definition bool_text :: "bool \<Rightarrow> string" where
  "bool_text b = (if b then ''true'' else ''false'')"

definition config_text :: "config \<Rightarrow> string" where
  "config_text c =
     ''&{Mode:'' @ cfg_Mode c @ '' DeviceName:'' @ cfg_DeviceName c @ '' DeviceIP:'' @ cfg_DeviceIP c
     @ '' PeerIP:'' @ cfg_PeerIP c @ '' MTU:'' @ dec_int (cfg_MTU c) @ '' LogLevel:'' @ cfg_LogLevel c
     @ '' LogPretty:'' @ bool_text (cfg_LogPretty c) @ '' BufSize:'' @ dec_int (cfg_BufSize c)
     @ '' Extensions:{IPv6:'' @ bool_text (ext_IPv6 (cfg_Extensions c))
     @ '' MPTCP:'' @ bool_text (ext_MPTCP (cfg_Extensions c))
     @ '' ECN:'' @ bool_text (ext_ECN (cfg_Extensions c))
     @ '' Timestamps:'' @ bool_text (ext_Timestamps (cfg_Extensions c)) @ ''}}''"

text \<open>\<open>RunE\<close> of \<open>start\<close>: what it prints, and its error with the context it is wrapped in.\<close>

datatype 'e start_error = FailedToLoad 'e | InvalidConfiguration 'e

definition newline :: string where "newline = [CHR 0x0A]"

definition run_start ::
  "(string \<Rightarrow> 'f + string) \<Rightarrow> ('f \<Rightarrow> bool) \<Rightarrow> 'd decoder \<Rightarrow> 'd decoder \<Rightarrow> flags \<Rightarrow>
   string \<times> ('f, 'd) config_error start_error option" where
  "run_start ReadFile IsNotExist json yaml fl =
     (let out = ''Starting gonet...'' @ newline
      in case Load ReadFile IsNotExist json yaml (fl_config fl) of
        Panic \<Rightarrow> (out, None)
      | Err err \<Rightarrow> (out, Some (FailedToLoad err))
      | Ok cfg \<Rightarrow>
          (let cfg = override fl cfg
           in case Validate cfg of
             Some err \<Rightarrow> (out, Some (InvalidConfiguration err))
           | None \<Rightarrow> (out @ ''Config loaded successfully: '' @ config_text cfg @ newline, None)))"

definition run_version :: string where
  "run_version = ''gonet v0.1.0'' @ newline"

text \<open>
  What the library makes of the arguments: one of the two commands, a text of its own (help, the
  usage of the root command), or an error (an unknown command or flag, a value that does not parse).
\<close>

datatype 'x invocation = RunStart flags | RunVersion | ShowText string | BadUsage 'x

datatype ('x, 'e) main_error = UsageError 'x | StartError 'e

text \<open>\<open>rootCmd.Execute\<close> runs the command and returns its error.\<close>

definition Execute ::
  "(string list \<Rightarrow> 'x invocation) \<Rightarrow> (string \<Rightarrow> 'f + string) \<Rightarrow> ('f \<Rightarrow> bool) \<Rightarrow> 'd decoder \<Rightarrow> 'd decoder \<Rightarrow>
   string list \<Rightarrow> string \<times> ('x, ('f, 'd) config_error start_error) main_error option" where
  "Execute parse_args ReadFile IsNotExist json yaml args =
     (case parse_args args of
        RunStart fl \<Rightarrow>
          (case run_start ReadFile IsNotExist json yaml fl of (out, err) \<Rightarrow> (out, map_option StartError err))
      | RunVersion \<Rightarrow> (run_version, None)
      | ShowText txt \<Rightarrow> (txt, None)
      | BadUsage e \<Rightarrow> ([], Some (UsageError e)))"

text \<open>
  How the program ends: its standard output, the error that \<open>main\<close> writes to standard error, where
  the library may write more, and the exit status.
\<close>

record ('x, 'e) process_end =
  pe_stdout :: string
  pe_stderr :: "('x, 'e) main_error option"
  pe_status :: nat

definition main_program ::
  "(string list \<Rightarrow> 'x invocation) \<Rightarrow> (string \<Rightarrow> 'f + string) \<Rightarrow> ('f \<Rightarrow> bool) \<Rightarrow> 'd decoder \<Rightarrow> 'd decoder \<Rightarrow>
   string list \<Rightarrow> ('x, ('f, 'd) config_error start_error) process_end" where
  "main_program parse_args ReadFile IsNotExist json yaml args =
     (case Execute parse_args ReadFile IsNotExist json yaml args of
        (out, Some err) \<Rightarrow> \<lparr>pe_stdout = out, pe_stderr = Some err, pe_status = 1\<rparr>
      | (out, None) \<Rightarrow> \<lparr>pe_stdout = out, pe_stderr = None, pe_status = 0\<rparr>)"

section \<open>The start command\<close>

text \<open>The configuration of a run is that of \<open>start_config\<close>, and is printed exactly when there is one.\<close>

lemma run_start_config:
  "run_start ReadFile IsNotExist json yaml fl =
    (case start_config ReadFile IsNotExist json yaml fl of
       Ok cfg \<Rightarrow> (''Starting gonet...'' @ newline @ ''Config loaded successfully: '' @ config_text cfg @ newline, None)
     | Err err \<Rightarrow>
         (''Starting gonet...'' @ newline,
          Some (case Load ReadFile IsNotExist json yaml (fl_config fl) of
                  Ok _ \<Rightarrow> InvalidConfiguration err | _ \<Rightarrow> FailedToLoad err))
     | Panic \<Rightarrow> (''Starting gonet...'' @ newline, None))"
proof (cases "Load ReadFile IsNotExist json yaml (fl_config fl)")
  case (Ok cfg)
  then show ?thesis
    by (cases "Validate (override fl cfg) :: ('a, 'b) config_error option")
      (simp_all only: run_start_def start_config_def Let_def Ok obind.simps option.case outcome.case append_assoc)
qed (simp_all only: run_start_def start_config_def Let_def obind.simps outcome.case)

text \<open>The flags offer as defaults the values that the configuration has without them.\<close>

lemma flag_defaults_agree:
  "map (\<lambda>f. (fd_name f, fd_default f)) start_flags =
     [(''config'', FlagString []), (''mode'', FlagString (cfg_Mode Defaults)),
      (''device'', FlagString (cfg_DeviceName Defaults)), (''ip'', FlagString (cfg_DeviceIP Defaults)),
      (''peer'', FlagString (cfg_PeerIP Defaults)), (''mtu'', FlagInt (cfg_MTU Defaults)),
      (''log-level'', FlagString (cfg_LogLevel Defaults))]"
  by (simp add: start_flags_def flag_String_def flag_Int_def flag_StringP_def Defaults_def)

section \<open>Properties\<close>


text \<open>An invocation with a missing file and a flag.\<close>

definition example_args :: "string list \<Rightarrow> string invocation" where
  "example_args args =
     (if args = [''start'', ''--mtu'', ''9000''] then RunStart (no_flags\<lparr>fl_mtu := Some 9000\<rparr>)
      else if args = [''version''] then RunVersion else BadUsage ''unknown command'')"


end
