(* ===== verification/Spec2Isabelle.thy ===== *)
theory Spec2Isabelle
  imports Reassembly_Service Reassembly_Traffic Packet_Parser Dispatcher_Linear Concurrent_Echo Ping_Trip Tcp_Typing
    Tcp_Locking Tcp_Over_Ip Port_Race Logging Command_Line
begin

text \<open>
  A verification library for gonet, a userspace TCP/IP stack in Go. The program reads raw IPv4
  packets from a device (\<^verbatim>\<open>internal/tun\<close>), routes each to the handler of its protocol
  (\<^verbatim>\<open>internal/ip\<close>), answers pings (\<^verbatim>\<open>internal/icmp\<close>) and opens TCP connections
  (\<^verbatim>\<open>internal/tcp\<close>); packets that are too large are fragmented and reassembled.

  \<^bold>\<open>Conventions.\<close> A byte is an \<open>8 word\<close>, a slice a list of bytes, a Go integer of a fixed width a
  word of that width, an \<^verbatim>\<open>int\<close> an \<open>int\<close> or \<open>nat\<close>. A call returns an \<open>outcome\<close>: a value, a returned
  error, or a run-time panic. A Go map is an association list with distinct keys, and code that
  ranges over a map takes the order as an argument where it could matter. Mutable state is a
  record that the operations return updated. Log output is left out.

  \<^bold>\<open>Theories.\<close>
  \<^item> \<open>Go_Prelude\<close>: outcomes, byte slices and their writes, big-endian integers, 4- and 16-byte
    addresses, maps; the locales \<open>go_map\<close>, \<open>codec\<close> and \<open>framed_codec\<close>.
  \<^item> \<open>Net_Ip\<close>: \<^verbatim>\<open>net.ParseIP\<close> and \<^verbatim>\<open>net.IP.String\<close> of the standard library.
  \<^item> \<open>Ip_Checksum\<close> (\<^verbatim>\<open>ip/checksum.go\<close>): the 32-bit loops compute the one's complement checksum for
    up to 131074 bytes, where no carry is lost; the locale \<open>checksum_scheme\<close> gives every format with
    such a checksum that sealed messages verify and single corrupted bytes do not. It is
    interpreted for the IPv4, the ICMP and the TCP checksum.
  \<^item> \<open>Ip_Header\<close> (\<^verbatim>\<open>ip/header.go\<close>): parser and serializer, inverse to each other on well-formed
    headers (interpretation \<open>iph\<close> of \<open>framed_codec\<close>), and the headers on which they are not.
  \<^item> \<open>Ip_Builder\<close> (\<^verbatim>\<open>ip/builder.go\<close>): built packets parse back; identifications are distinct.
  \<^item> \<open>Fragmentation\<close> (\<^verbatim>\<open>ip/fragment.go\<close>): the fragments of a packet fit the MTU, cover the payload
    in order, and carry the right offsets and flags. The loop is a partial function; it is
    shown to return for every packet and MTU.
  \<^item> \<open>Reassembly\<close> (\<^verbatim>\<open>ip/reassembly.go\<close>): the buffer invariant over all sequences of \<open>Add\<close> and
    \<open>cleanup\<close>, what is delivered, exactly which fragments make it panic, and that the fragments of
    a packet in any order give the packet back, once. \<open>Reassembly_Service\<close> adds the ticker goroutine
    of \<open>Start\<close>, with a bound on the age of groups, and an attack with overlapping fragments.
    \<open>Reassembly_Traffic\<close>: the fragments of many packets, added by concurrent goroutines while the
    ticker runs, do not get into each other's way.
  \<^item> \<open>Dispatcher\<close> (\<^verbatim>\<open>ip/dispatcher.go\<close>): the routing of one packet, and the interleaving of
    concurrent calls at their atomic accesses. \<open>Dispatcher_Linear\<close>: the concurrent dispatcher is
    linearizable, its sequential functions being the specification; \<open>Stats\<close>, which reads its four
    counters one by one, is not.
  \<^item> \<open>Packet_Parser\<close> (\<^verbatim>\<open>ip/parser.go\<close>): the debugging views of a packet, over the decoders of the
    gopacket library as arguments.
  \<^item> \<open>System_Calls\<close>, \<open>Tun_Device\<close> (\<^verbatim>\<open>tun/tun.go\<close>, \<^verbatim>\<open>raw.go\<close>, \<^verbatim>\<open>factory.go\<close>, \<^verbatim>\<open>ioctl_linux.go\<close>): the two
    devices over a kernel that may answer every system call as it likes; the trace of the calls is
    the state. No error path leaks a descriptor. The locale \<open>packet_sink\<close> is the contract of
    \<open>Write\<close>, interpreted on both devices.
  \<^item> \<open>Read_Loop\<close> (\<^verbatim>\<open>tun/loop.go\<close>): the loop as a partial function over an oracle for its context;
    its accounts, and that it returns once the context is cancelled.
  \<^item> \<open>Icmp_Echo\<close> (\<^verbatim>\<open>icmp/icmp.go\<close>, \<^verbatim>\<open>handler.go\<close>): echo messages (interpretation \<open>echo\<close> of \<open>codec\<close>) and
    the handler, whose lemmas are proved in \<open>packet_sink\<close>.
  \<^item> \<open>Packet_Path\<close>: the composition of loop, dispatcher, handler and device: a ping is answered by one
    valid reply, and no packet makes the program panic (the locale \<open>returning_handlers\<close> states what
    the dispatcher needs of its handlers); a transition system of the loop, its goroutines and \<open>Stop\<close>.
    \<open>Concurrent_Echo\<close> interleaves the goroutines at every access to the dispatcher, the
    identification counter and the device: every packet sent answers a request of its own, with an
    identification of its own. \<open>Ping_Trip\<close> composes builder, fragmentation, reassembly, dispatcher
    and handler.
  \<^item> \<open>Tcp_Header\<close> (\<^verbatim>\<open>tcp/header.go\<close>, \<^verbatim>\<open>checksum.go\<close>), \<open>Tcp_State\<close> (\<^verbatim>\<open>state.go\<close>), \<open>Tcp_Conn\<close> (\<^verbatim>\<open>conn.go\<close>),
    \<open>Tcp_Handshake\<close> (\<^verbatim>\<open>handshake.go\<close>), \<open>Conn_Table\<close> (\<^verbatim>\<open>conn_table.go\<close>): the segment format with its
    options loop; the state machine as a refinement of the RFC 793 diagram, an inductive
    relation; sending; the three-way handshake, also over a network that loses, repeats and
    reorders segments; the table of connections as a finite map, and the search for a free port.
    \<open>Port_Race\<close> interleaves concurrent searches at their atomic accesses. \<open>Tcp_Typing\<close>: what holds
    of a connection and of all it sends, whatever methods are called and whatever arrives.
    \<open>Tcp_Locking\<close> models the mutex of the state machine: its calls return, at most four steps each,
    unless a callback calls the machine, which then stays locked for ever.
    \<open>Tcp_Over_Ip\<close>: a segment sent, built into a packet, dispatched and looked up at the peer.
  \<^item> \<open>Config_File\<close> (\<^verbatim>\<open>config/config.go\<close>, the configuration of \<open>start\<close>), \<open>Logging\<close> (\<^verbatim>\<open>log/log.go\<close>),
    \<open>Command_Line\<close> (\<^verbatim>\<open>cmd/gonet/main.go\<close>): the commands and flags, what they print and the exit status.

  \<^bold>\<open>Bounds.\<close> No loop of the model carries fuel. A loop over data is a structural recursion or has
  a measure; the loops that could go on for ever (\<open>Fragment\<close>, \<open>EphemeralPort\<close>, the read loop) are
  partial functions, for which it is proved when they return, or transition systems.

  \<^bold>\<open>Arguments of the model.\<close> The kernel's answers, the clock, the random source, the decoders of
  gopacket and of the JSON and YAML libraries, the file system, the operations of the zap logger
  and what the cobra library makes of the command line. Hypotheses on them are named and
  documented behaviour: \<open>fresh_fds\<close> (a new descriptor is not in use), \<open>reads_fit\<close> (a read returns
  no more than asked for), and that zap knows the four level names.

  \<^bold>\<open>Not modelled.\<close> Log lines, which no state depends on; what zap and cobra do inside; that a
  waiting writer of a \<^verbatim>\<open>sync.RWMutex\<close> holds up new readers, which is only about fairness here. The
  \<^verbatim>\<open>doc.go\<close> files hold no code.
\<close>

end
